(* ===== verification/Prelude.thy ===== *)
theory Prelude
  imports Main "HOL-Library.Word" "HOL-Library.Multiset"
begin

text \<open>
  Shared vocabulary of the development: the integer types of \<^verbatim>\<open>include/types.hpp\<close> at their
  widths, C++ exceptions and undefined behaviour as values, and the lemmas on words, lists and
  options that several components use.

  An exception that a function throws is a value of type \<open>exn\<close>. Where the source reads or
  writes outside an object, or uses an iterator of an element that is no longer there, C++ gives
  no meaning to the program; the model returns the value \<open>UB\<close> there, so that the absence of
  undefined behaviour is a property that has to be proved. The end of the process by a signal is a
  value as well.
\<close>

section \<open>Integer types\<close>

type_synonym byte = "8 word"
type_synonym OrderId = "64 word"
type_synonym Quantity = "32 word"
type_synonym Timestamp = "64 word"
type_synonym Price = "64 word"
type_synonym size_t = "64 word"
type_synonym fd = int

text \<open>
  Readings of \<^verbatim>\<open>high_resolution_clock::now()\<close>: the clock is outside the program, a function from
  the number of readings taken so far to the value read.
\<close>

type_synonym clock = "nat \<Rightarrow> Timestamp"

section \<open>Exceptions and undefined behaviour\<close>

datatype exn = Invalid_argument string | Runtime_error string | Length_error string | Out_of_range string

primrec what :: "exn \<Rightarrow> string" where
  "what (Invalid_argument s) = s"
| "what (Runtime_error s) = s"
| "what (Length_error s) = s"
| "what (Out_of_range s) = s"

text \<open>\<open>Sigpipe\<close> is the end of the process by the signal \<^verbatim>\<open>SIGPIPE\<close>, which the program neither blocks nor handles.\<close>

datatype fault = Throw exn | UB | Sigpipe

type_synonym 'a result = "fault + 'a"

fun result_bind :: "'a result \<Rightarrow> ('a \<Rightarrow> 'b result) \<Rightarrow> 'b result" where
  "result_bind (Inl e) f = Inl e"
| "result_bind (Inr x) f = f x"

lemma result_bind_Inr: "result_bind x g = Inr y \<longleftrightarrow> (\<exists>z. x = Inr z \<and> g z = Inr y)"
  by (cases x) simp_all

section \<open>Decimal output\<close>

text \<open>What \<^verbatim>\<open>ostream\<close> writes for an unsigned integer.\<close>

fun dec :: "nat \<Rightarrow> string" where
  "dec n = (if n < 10 then [char_of (48 + n)] else dec (n div 10) @ [char_of (48 + n mod 10)])"

declare dec.simps [simp del]

text \<open>Decimal digits, and the number that a sequence of digits denotes.\<close>

definition isdigit :: "char \<Rightarrow> bool" where
  "isdigit c \<longleftrightarrow> 48 \<le> (of_char c :: nat) \<and> (of_char c :: nat) \<le> 57"

definition digits_value :: "string \<Rightarrow> nat" where
  "digits_value s = foldl (\<lambda>v c. 10 * v + (of_char c - 48)) 0 s"

lemma digits_value_snoc: "digits_value (s @ [c]) = 10 * digits_value s + (of_char c - 48)"
  by (simp add: digits_value_def)

lemma of_char_digit [simp]: "k < 10 \<Longrightarrow> of_char (char_of (48 + k :: nat)) = (48 + k :: nat)"
  by (simp add: of_char_of)

lemma dec_digits: "digits_value (dec n) = n \<and> list_all isdigit (dec n) \<and> dec n \<noteq> []"
proof (induction n rule: dec.induct)
  case (1 n)
  show ?case
  proof (cases "n < 10")
    case True
    then show ?thesis by (simp add: dec.simps [of n] digits_value_def isdigit_def)
  next
    case False
    then show ?thesis
      using 1 by (simp add: dec.simps [of n] digits_value_snoc isdigit_def)
  qed
qed

section \<open>Collections of rewrite rules\<close>

named_theorems order_simps \<open>orders: constructor, accessors and quantity updates\<close>
named_theorems book_simps \<open>order book: operations on levels, sides and the index\<close>
named_theorems wire_simps \<open>wire format: fields, frames and their lengths\<close>
named_theorems ring_simps \<open>ring buffer: indices and slots\<close>

section \<open>Words\<close>

lemma unat_min_word: "unat (min a b) = min (unat a) (unat (b :: 'a::len word))"
  by (simp add: min_def word_le_nat_alt)

lemma unat_sub_min [simp]: "unat (r - min q r) = unat r - unat q" for q r :: "'a::len word"
proof -
  have "min q r \<le> r" by simp
  then have "unat (r - min q r) = unat r - unat (min q r)" by (rule unat_sub)
  then show ?thesis by (simp add: unat_min_word)
qed

lemma sub_min_eq_0 [simp]: "q \<noteq> min q r \<Longrightarrow> r - min q r = 0" for q r :: "'a::len word"
  by (auto simp: min_def)

lemma unat_of_nat_le [simp]: "n \<le> unat w \<Longrightarrow> unat (of_nat n :: 'a word) = n" for w :: "'a::len word"
  by (simp add: unat_of_nat le_less_trans [OF _ unsigned_less])

lemma unat_sub_of_nat [simp]:
  "n \<le> unat w \<Longrightarrow> unat (w - of_nat n) = unat w - n" for w :: "'a::len word"
  by (simp add: unat_sub word_le_nat_alt)

lemma word_gt_0_unat: "0 < w \<longleftrightarrow> 0 < unat w" for w :: "'a::len word"
  by (simp add: unat_gt_0 word_neq_0_conv)

section \<open>Lists\<close>

lemma takeWhile_append_split:
  "(\<And>x. x \<in> set xs \<Longrightarrow> P x) \<Longrightarrow> (\<And>y. y \<in> set ys \<Longrightarrow> \<not> P y) \<Longrightarrow>
     takeWhile P (xs @ ys) = xs \<and> dropWhile P (xs @ ys) = ys"
  by (induction xs) (cases ys; auto)+

end
