(* ===== verification/Orders.thy ===== *)
theory Orders
  imports Prelude
begin

text \<open>
  The value types of \<^verbatim>\<open>include/order.hpp\<close> and \<^verbatim>\<open>include/trade.hpp\<close>.

  \<^verbatim>\<open>Side\<close> and \<^verbatim>\<open>OrderType\<close> are scoped enumerations with the fixed underlying type
  \<^verbatim>\<open>uint8_t\<close>: a value of such a type is any byte, and the deserializer copies a byte of the
  message into them without a check. They are bytes here, with the enumerators as constants, so
  that the behaviour on the other 254 values is part of the model.
\<close>

section \<open>Sides and order types\<close>

type_synonym Side = byte
type_synonym OrderType = byte

definition BID :: Side where "BID = 0"
definition ASK :: Side where "ASK = 1"
definition LIMIT :: OrderType where "LIMIT = 0"
definition MARKET :: OrderType where "MARKET = 1"

lemma side_distinct [simp]: "BID \<noteq> ASK" "ASK \<noteq> BID"
  by (simp_all add: BID_def ASK_def)

lemma order_type_distinct [simp]: "LIMIT \<noteq> MARKET" "MARKET \<noteq> LIMIT"
  by (simp_all add: LIMIT_def MARKET_def)

section \<open>Orders\<close>

record order =
  o_timestamp :: Timestamp
  o_id :: OrderId
  o_price :: Price
  o_quantity :: Quantity
  o_side :: Side
  o_type :: OrderType

text \<open>
  The constructor. \<open>now\<close> is the clock reading; \<open>price \<le> 0\<close> on an unsigned price is
  \<open>price = 0\<close>, kept in the form the source has it.
\<close>

definition make_order ::
  "Timestamp \<Rightarrow> OrderId \<Rightarrow> Price \<Rightarrow> Quantity \<Rightarrow> Side \<Rightarrow> OrderType \<Rightarrow> exn + order" where
  "make_order now oid price quantity side otype =
     (if otype = LIMIT \<and> price \<le> 0
      then Inl (Invalid_argument ''limit orders cant have non-positive price'')
      else if otype = MARKET \<and> price > 0
      then Inl (Invalid_argument ''market orders cant have positive price'')
      else if quantity = 0
      then Inl (Invalid_argument ''quantity must be greater than 0'')
      else Inr \<lparr>o_timestamp = now, o_id = oid, o_price = price, o_quantity = quantity,
                 o_side = side, o_type = otype\<rparr>)"

definition reduce_quantity :: "order \<Rightarrow> Quantity \<Rightarrow> exn + order" where
  "reduce_quantity ord quantity =
     (if quantity > o_quantity ord
      then Inl (Invalid_argument ''cannot reduce by more than current quantity'')
      else Inr (ord\<lparr>o_quantity := o_quantity ord - quantity\<rparr>))"

text \<open>What every order that the constructor returns satisfies.\<close>

definition order_valid :: "order \<Rightarrow> bool" where
  "order_valid ord \<longleftrightarrow> (o_type ord = LIMIT \<longrightarrow> 0 < o_price ord)
     \<and> (o_type ord = MARKET \<longrightarrow> o_price ord = 0) \<and> 0 < o_quantity ord"

section \<open>Trades\<close>

record trade =
  t_price :: Price
  buyer_order_id :: OrderId
  seller_order_id :: OrderId
  t_quantity :: Quantity
  t_timestamp :: Timestamp

section \<open>Lemmas\<close>

lemma make_order_Inr_iff [order_simps]:
  "make_order now oid p q s ty = Inr ord \<longleftrightarrow>
     ord = \<lparr>o_timestamp = now, o_id = oid, o_price = p, o_quantity = q, o_side = s, o_type = ty\<rparr>
     \<and> order_valid ord"
  by (auto simp: make_order_def order_valid_def word_gt_0 split: if_splits)

lemma make_order_ok:
  "(ty = LIMIT \<longrightarrow> 0 < p) \<Longrightarrow> (ty = MARKET \<longrightarrow> p = 0) \<Longrightarrow> 0 < q \<Longrightarrow>
     make_order now oid p q s ty =
       Inr \<lparr>o_timestamp = now, o_id = oid, o_price = p, o_quantity = q, o_side = s, o_type = ty\<rparr>"
  by (auto simp: make_order_def)

lemma reduce_quantity_ok:
  "q \<le> o_quantity ord \<Longrightarrow> reduce_quantity ord q = Inr (ord\<lparr>o_quantity := o_quantity ord - q\<rparr>)"
  by (simp add: reduce_quantity_def)

text \<open>A price that was negative before the conversion to \<^verbatim>\<open>Price\<close> passes the constructor's check.\<close>

lemma negative_price_is_accepted: "\<exists>ord. make_order now 1 (- 500) 100 BID LIMIT = Inr ord"
proof -
  have "(0 :: Price) < - 500" by (simp add: word_gt_0)
  then show ?thesis by (simp add: make_order_def LIMIT_def MARKET_def)
qed

section \<open>Printing\<close>

text \<open>The text that \<^verbatim>\<open>Order::toString\<close> writes to the console.\<close>

abbreviation newline :: string where
  "newline \<equiv> [CHR 0x0A]"

definition to_string :: "order \<Rightarrow> string" where
  "to_string ord =
     ''timestamp: '' @ dec (unat (o_timestamp ord)) @ newline @ ''id: '' @ dec (unat (o_id ord)) @ newline
     @ ''price: '' @ dec (unat (o_price ord)) @ newline @ ''quantity: '' @ dec (unat (o_quantity ord)) @ newline
     @ ''side: '' @ (if o_side ord = BID then ''bid'' else ''ask'') @ newline
     @ ''orderType: '' @ (if o_type ord = LIMIT then ''limit'' else ''market'') @ newline @ newline"

lemma dec_line_inj:
  assumes "dec a @ newline @ s = dec b @ newline @ t"
  shows "a = b \<and> s = t"
proof -
  have nl: "takeWhile isdigit (newline @ r) = []" for r by (simp add: isdigit_def)
  have line: "takeWhile isdigit (dec n @ newline @ r) = dec n" for n r
  proof -
    have "takeWhile isdigit (dec n @ newline @ r) = dec n @ takeWhile isdigit (newline @ r)"
      using dec_digits [of n] by (intro takeWhile_append2) (simp add: list_all_iff)
    then show ?thesis by (simp only: nl append_Nil2)
  qed
  have eq: "dec a = dec b" using arg_cong [OF assms, of "takeWhile isdigit"] unfolding line .
  then have "a = b" by (metis dec_digits)
  moreover have "s = t" using assms unfolding eq by (simp only: same_append_eq)
  ultimately show ?thesis ..
qed

text \<open>The text determines the order, when its side and its type are among the values of the enumerations.\<close>

lemma to_string_inj:
  assumes "to_string x = to_string y" and "o_side x \<in> {BID, ASK}" and "o_side y \<in> {BID, ASK}"
    and "o_type x \<in> {LIMIT, MARKET}" and "o_type y \<in> {LIMIT, MARKET}"
  shows "x = y"
proof -
  note strip = same_append_eq and line = dec_line_inj
  have t: "unat (o_timestamp x) = unat (o_timestamp y)"
    and 1: "''id: '' @ dec (unat (o_id x)) @ newline @ ''price: '' @ dec (unat (o_price x)) @ newline @ ''quantity: ''
       @ dec (unat (o_quantity x)) @ newline @ ''side: '' @ (if o_side x = BID then ''bid'' else ''ask'') @ newline
       @ ''orderType: '' @ (if o_type x = LIMIT then ''limit'' else ''market'') @ newline @ newline =
     ''id: '' @ dec (unat (o_id y)) @ newline @ ''price: '' @ dec (unat (o_price y)) @ newline @ ''quantity: ''
       @ dec (unat (o_quantity y)) @ newline @ ''side: '' @ (if o_side y = BID then ''bid'' else ''ask'') @ newline
       @ ''orderType: '' @ (if o_type y = LIMIT then ''limit'' else ''market'') @ newline @ newline"
    using line [OF assms(1) [unfolded to_string_def strip]] by (rule conjunct1, rule conjunct2)
  note 2 = line [OF 1 [unfolded strip]]
  note 3 = line [OF conjunct2 [OF 2, unfolded strip]]
  note 4 = line [OF conjunct2 [OF 3, unfolded strip]]
  have "(if o_side x = BID then ''bid'' else ''ask'') = (if o_side y = BID then ''bid'' else ''ask'')
      \<and> (if o_type x = LIMIT then ''limit'' else ''market'') = (if o_type y = LIMIT then ''limit'' else ''market'')"
    using conjunct2 [OF 4] by (auto split: if_splits)
  then have "o_side x = o_side y" "o_type x = o_type y" using assms(2-5) by (auto split: if_splits)
  moreover have "o_timestamp x = o_timestamp y" "o_id x = o_id y" "o_price x = o_price y" "o_quantity x = o_quantity y"
    using t conjunct1 [OF 2] conjunct1 [OF 3] conjunct1 [OF 4] by (simp_all only: word_unat_eq_iff)
  ultimately show ?thesis by simp
qed

end
