(* ===== verification/Std_Map.thy ===== *)
theory Std_Map
  imports Prelude
begin

text \<open>
  The part of \<^verbatim>\<open>std::map\<close> that the order book uses. A map is the list of its entries in
  iteration order, strictly increasing for the map's comparator: \<^verbatim>\<open>begin()\<close> is the head of the
  list, \<^verbatim>\<open>empty()\<close> is the test for the empty list. The mapped values of the book are
  \<^verbatim>\<open>std::list\<close>s, so the value that \<^verbatim>\<open>operator[]\<close> creates for a missing key is the empty
  list.

  The locale \<open>std_order\<close> states what a comparator must satisfy and what the operations then
  promise; it is interpreted for the two comparators of the book, ascending prices for the asks
  and descending prices (\<^verbatim>\<open>std::greater\<close>) for the bids.
\<close>

type_synonym ('k, 'v) std_map = "('k \<times> 'v) list"

definition map_at :: "'k \<Rightarrow> ('k, 'v list) std_map \<Rightarrow> 'v list" where
  "map_at k m = (case map_of m k of None \<Rightarrow> [] | Some v \<Rightarrow> v)"

fun map_put :: "('k \<Rightarrow> 'k \<Rightarrow> bool) \<Rightarrow> 'k \<Rightarrow> 'v \<Rightarrow> ('k, 'v) std_map \<Rightarrow> ('k, 'v) std_map" where
  "map_put lt k v [] = [(k, v)]"
| "map_put lt k v ((k', v') # m) =
     (if lt k k' then (k, v) # (k', v') # m
      else if lt k' k then (k', v') # map_put lt k v m
      else (k, v) # m)"

definition map_erase :: "'k \<Rightarrow> ('k, 'v) std_map \<Rightarrow> ('k, 'v) std_map" where
  "map_erase k m = filter (\<lambda>e. fst e \<noteq> k) m"

lemma map_at_head [simp]: "map_at k ((k, v) # m) = v"
  by (simp add: map_at_def)

lemma length_map_erase_head [simp]: "length (map_erase k ((k, v) # m)) < Suc (length m)"
  by (simp add: map_erase_def le_imp_less_Suc)

locale std_order =
  fixes lt :: "'k \<Rightarrow> 'k \<Rightarrow> bool"
  assumes lt_irrefl [simp]: "\<not> lt x x"
    and lt_trans: "lt x y \<Longrightarrow> lt y z \<Longrightarrow> lt x z"
    and lt_total: "lt x y \<or> x = y \<or> lt y x"
begin

lemma lt_asym: "lt x y \<Longrightarrow> \<not> lt y x"
  using lt_trans [of x y x] by auto

text \<open>
  The key lemma: an entry's position splits the map, and lookup, update and erasure act there
  and nowhere else.
\<close>

lemma map_split:
  assumes "sorted_wrt lt (map fst m)"
  obtains pre post where "\<forall>e \<in> set pre. lt (fst e) k" "\<forall>e \<in> set post. lt k (fst e)"
    "m = pre @ (case map_of m k of None \<Rightarrow> [] | Some v \<Rightarrow> [(k, v)]) @ post"
    "\<forall>v. map_put lt k v m = pre @ (k, v) # post" "map_erase k m = pre @ post"
  using assms
proof (induction m arbitrary: thesis)
  case Nil
  show ?case by (rule Nil.prems(1) [of "[]" "[]"]) (simp_all add: map_erase_def)
next
  case (Cons e m)
  obtain k' v' where e: "e = (k', v')" by (cases e)
  have s: "sorted_wrt lt (map fst m)" and above: "\<forall>e \<in> set m. lt k' (fst e)"
    using Cons.prems(2) by (simp_all add: e)
  consider "lt k k'" | "k = k'" | "lt k' k" using lt_total [of k k'] by blast
  then show ?case
  proof cases
    case 1
    then have gt: "\<forall>e \<in> set (e # m). lt k (fst e)" using above lt_trans by (auto simp: e)
    then have ne: "\<forall>e \<in> set (e # m). fst e \<noteq> k" by auto
    then have "map_of (e # m) k = None" and "filter (\<lambda>e. fst e \<noteq> k) (e # m) = e # m"
      by (auto simp: map_of_eq_None_iff)
    then show ?thesis
      using gt 1 by (intro Cons.prems(1) [of "[]" "e # m"]) (auto simp: e map_erase_def)
  next
    case 2
    then have "\<forall>e \<in> set m. fst e \<noteq> k" using above by auto
    then have "filter (\<lambda>e. fst e \<noteq> k) m = m" by auto
    then show ?thesis
      using above 2 by (intro Cons.prems(1) [of "[]" m]) (auto simp: e map_erase_def)
  next
    case 3
    obtain pre post where h: "\<forall>e \<in> set pre. lt (fst e) k" "\<forall>e \<in> set post. lt k (fst e)"
      "m = pre @ (case map_of m k of None \<Rightarrow> [] | Some v \<Rightarrow> [(k, v)]) @ post"
      "\<forall>v. map_put lt k v m = pre @ (k, v) # post" "map_erase k m = pre @ post"
      using Cons.IH [OF _ s] by blast
    have "k \<noteq> k'" "\<not> lt k k'" using 3 lt_asym by auto
    then show ?thesis
      using h 3 by (intro Cons.prems(1) [of "e # pre" post]) (auto simp: e map_erase_def)
  qed
qed

lemma map_put_head [simp]: "map_put lt k v ((k, v') # m) = (k, v) # m"
  by simp

lemma map_erase_head: "sorted_wrt lt (map fst ((k, v) # m)) \<Longrightarrow> map_erase k ((k, v) # m) = m"
  by (auto simp: map_erase_def intro!: filter_True)

end

interpretation asks_order: std_order "(<) :: Price \<Rightarrow> Price \<Rightarrow> bool"
  by unfold_locales auto

interpretation bids_order: std_order "(>) :: Price \<Rightarrow> Price \<Rightarrow> bool"
  by unfold_locales auto

end
