(* ===== verification/Order_Book.thy ===== *)
theory Order_Book
  imports Orders Std_Map
begin

text \<open>
  The order book of \<^verbatim>\<open>include/orderbook.hpp\<close> and \<^verbatim>\<open>src/orderbook.cpp\<close>: two ordered maps
  from prices to lists of resting orders, and the index \<^verbatim>\<open>order_map_\<close> from order ids to
  positions in those lists.

  \<^verbatim>\<open>list_position\<close> is a list iterator, that is, the identity of a list node. A node carries an
  address here, and \<^verbatim>\<open>push_back\<close> takes an address that no node of the book has
  (\<open>next_addr\<close> counts the nodes made so far). Erasing through an iterator whose node is not in
  the list is undefined behaviour. Order ids need not be distinct: the program never checks it.
\<close>

section \<open>State\<close>

record lnode =
  node_addr :: nat
  node_order :: order

type_synonym book_side = "(Price, lnode list) std_map"

record OrderLocation =
  loc_side :: Side
  loc_price :: Price
  list_position :: nat

record orderbook =
  bids :: book_side
  asks :: book_side
  order_map :: "OrderId \<rightharpoonup> OrderLocation"
  next_addr :: nat

definition empty_book :: orderbook where
  "empty_book = \<lparr>bids = [], asks = [], order_map = Map.empty, next_addr = 0\<rparr>"

section \<open>Operations\<close>

definition best_bid :: "orderbook \<Rightarrow> Price option" where
  "best_bid b = (if bids b \<noteq> [] then Some (fst (hd (bids b))) else None)"

definition best_ask :: "orderbook \<Rightarrow> Price option" where
  "best_ask b = (if asks b \<noteq> [] then Some (fst (hd (asks b))) else None)"

definition add_order :: "orderbook \<Rightarrow> order \<Rightarrow> orderbook" where
  "add_order b ord =
     (if o_type ord = LIMIT then
        if o_side ord = ASK then
          let l = map_at (o_price ord) (asks b); n = \<lparr>node_addr = next_addr b, node_order = ord\<rparr>
          in b\<lparr>asks := map_put (<) (o_price ord) (l @ [n]) (asks b),
               order_map := (order_map b)(o_id ord \<mapsto>
                 \<lparr>loc_side = ASK, loc_price = o_price ord, list_position = next_addr b\<rparr>),
               next_addr := Suc (next_addr b)\<rparr>
        else if o_side ord = BID then
          let l = map_at (o_price ord) (bids b); n = \<lparr>node_addr = next_addr b, node_order = ord\<rparr>
          in b\<lparr>bids := map_put (>) (o_price ord) (l @ [n]) (bids b),
               order_map := (order_map b)(o_id ord \<mapsto>
                 \<lparr>loc_side = BID, loc_price = o_price ord, list_position = next_addr b\<rparr>),
               next_addr := Suc (next_addr b)\<rparr>
        else b
      else b)"

text \<open>\<^verbatim>\<open>list.erase(it)\<close>: \<open>None\<close> when the iterator's node is not in the list.\<close>

fun erase_node :: "nat \<Rightarrow> lnode list \<Rightarrow> lnode list option" where
  "erase_node a [] = None"
| "erase_node a (n # ns) =
     (if node_addr n = a then Some ns else map_option ((#) n) (erase_node a ns))"

definition cancel_order :: "orderbook \<Rightarrow> OrderId \<Rightarrow> orderbook result" where
  "cancel_order b oid =
     (case order_map b oid of
        Some loc \<Rightarrow>
          if loc_side loc = ASK then
            (case erase_node (list_position loc) (map_at (loc_price loc) (asks b)) of
               None \<Rightarrow> Inl UB
             | Some l \<Rightarrow>
                 Inr (b\<lparr>asks := (if l = [] then map_erase (loc_price loc) (asks b)
                                  else map_put (<) (loc_price loc) l (asks b)),
                        order_map := (order_map b)(oid := None)\<rparr>))
          else if loc_side loc = BID then
            (case erase_node (list_position loc) (map_at (loc_price loc) (bids b)) of
               None \<Rightarrow> Inl UB
             | Some l \<Rightarrow>
                 Inr (b\<lparr>bids := (if l = [] then map_erase (loc_price loc) (bids b)
                                  else map_put (>) (loc_price loc) l (bids b)),
                        order_map := (order_map b)(oid := None)\<rparr>))
          else Inr (b\<lparr>order_map := (order_map b)(oid := None)\<rparr>)
      | None \<Rightarrow> Inl (Throw (Invalid_argument ''order id not found in the book'')))"

text \<open>
  \<^verbatim>\<open>print_depth\<close>: the text written to the stream, and the exception if \<^verbatim>\<open>reserve\<close> refuses a
  negative count, which happens after the first line is out. A level's total is summed up in a
  \<^verbatim>\<open>Quantity\<close>, so it wraps at \<open>2 ^ 32\<close>.
\<close>

definition level_total :: "lnode list \<Rightarrow> Quantity" where
  "level_total l = fold (\<lambda>n total. total + o_quantity (node_order n)) l 0"

definition depth_rows :: "int \<Rightarrow> book_side \<Rightarrow> (Price \<times> Quantity) list" where
  "depth_rows levels m = map (\<lambda>(p, l). (p, level_total l)) (take (nat levels) m)"

definition depth_line :: "string \<Rightarrow> Price \<times> Quantity \<Rightarrow> string" where
  "depth_line tag row = tag @ dec (unat (fst row)) @ '' | '' @ dec (unat (snd row)) @ [CHR 0x0A]"

definition print_depth :: "orderbook \<Rightarrow> int \<Rightarrow> exn option \<times> string" where
  "print_depth b levels =
     (let head = ''---order book---'' @ [CHR 0x0A]
      in if min levels (sint (of_nat (length (asks b)) :: 32 word)) < 0
         then (Some (Length_error ''vector::reserve''), head)
         else (None, head
           @ concat (map (depth_line '' ASK '') (rev (depth_rows levels (asks b))))
           @ ''--------------'' @ [CHR 0x0A]
           @ concat (map (depth_line '' BID '') (depth_rows levels (bids b)))))"

section \<open>Invariant\<close>

text \<open>The nodes of a side in priority order: better prices first, older orders first.\<close>

definition side_nodes :: "book_side \<Rightarrow> lnode list" where
  "side_nodes m = concat (map snd m)"

definition all_nodes :: "orderbook \<Rightarrow> lnode list" where
  "all_nodes b = side_nodes (bids b) @ side_nodes (asks b)"

definition resting_ok :: "Side \<Rightarrow> Price \<Rightarrow> order \<Rightarrow> bool" where
  "resting_ok s p ord \<longleftrightarrow> o_side ord = s \<and> o_price ord = p \<and> o_type ord = LIMIT \<and> order_valid ord"

definition side_ok :: "(Price \<Rightarrow> Price \<Rightarrow> bool) \<Rightarrow> Side \<Rightarrow> book_side \<Rightarrow> bool" where
  "side_ok lt s m \<longleftrightarrow> sorted_wrt lt (map fst m)
     \<and> (\<forall>e \<in> set m. snd e \<noteq> [] \<and> (\<forall>n \<in> set (snd e). resting_ok s (fst e) (node_order n)))"

definition located :: "lnode list \<Rightarrow> OrderId \<Rightarrow> OrderLocation \<Rightarrow> bool" where
  "located ns oid loc \<longleftrightarrow> (\<exists>n \<in> set ns. node_addr n = list_position loc
     \<and> o_id (node_order n) = oid \<and> o_side (node_order n) = loc_side loc
     \<and> o_price (node_order n) = loc_price loc)"

definition nodes_ok :: "nat \<Rightarrow> lnode list \<Rightarrow> bool" where
  "nodes_ok a ns \<longleftrightarrow> distinct (map node_addr ns) \<and> (\<forall>n \<in> set ns. node_addr n < a)"

definition index_ok :: "(OrderId \<rightharpoonup> OrderLocation) \<Rightarrow> lnode list \<Rightarrow> bool" where
  "index_ok om ns \<longleftrightarrow> (\<forall>oid loc. om oid = Some loc \<longrightarrow> located ns oid loc)"

definition book_wf :: "orderbook \<Rightarrow> bool" where
  "book_wf b \<longleftrightarrow> side_ok (>) BID (bids b) \<and> side_ok (<) ASK (asks b)
     \<and> nodes_ok (next_addr b) (all_nodes b) \<and> index_ok (order_map b) (all_nodes b)"

text \<open>
  With distinct order ids the index is complete as well: every resting order is found under its
  id, at its own node.
\<close>

definition indexed :: "(OrderId \<rightharpoonup> OrderLocation) \<Rightarrow> lnode list \<Rightarrow> bool" where
  "indexed om ns \<longleftrightarrow> (\<forall>n \<in> set ns. om (o_id (node_order n)) =
     Some \<lparr>loc_side = o_side (node_order n), loc_price = o_price (node_order n),
            list_position = node_addr n\<rparr>)"

definition index_full :: "orderbook \<Rightarrow> bool" where
  "index_full b \<longleftrightarrow> indexed (order_map b) (all_nodes b)"

definition resting_ids :: "orderbook \<Rightarrow> OrderId set" where
  "resting_ids b = (\<lambda>n. o_id (node_order n)) ` set (all_nodes b)"

text \<open>No resting bid reaches a resting ask.\<close>

definition uncrossed :: "orderbook \<Rightarrow> bool" where
  "uncrossed b \<longleftrightarrow> (\<forall>x \<in> set (bids b). \<forall>y \<in> set (asks b). fst x < fst y)"

section \<open>One side of the book\<close>

lemma erase_node_filter:
  "distinct (map node_addr l) \<Longrightarrow> n \<in> set l \<Longrightarrow>
     erase_node (node_addr n) l = Some (filter (\<lambda>x. node_addr x \<noteq> node_addr n) l)"
proof (induction l)
  case Nil
  then show ?case by simp
next
  case (Cons x l)
  show ?case
  proof (cases "node_addr x = node_addr n")
    case True
    then have "filter (\<lambda>x. node_addr x \<noteq> node_addr n) l = l"
      using Cons.prems(1) by (auto intro!: filter_True simp: image_iff)
    then show ?thesis using True by simp
  next
    case False
    then have "n \<in> set l" using Cons.prems(2) by auto
    then show ?thesis using Cons False by simp
  qed
qed

lemma side_nodes_simps [simp]:
  "side_nodes [] = []" "side_nodes (e # m) = snd e @ side_nodes m"
  "side_nodes (m @ m') = side_nodes m @ side_nodes m'"
  by (simp_all add: side_nodes_def)

lemma set_side_nodes: "set (side_nodes m) = (\<Union>e \<in> set m. set (snd e))"
  by (simp add: side_nodes_def)

text \<open>
  Everything about a side is proved once, for a comparator and a side, and used for the bids and
  for the asks through the two interpretations below.
\<close>

locale book_half = std_order lt for lt :: "Price \<Rightarrow> Price \<Rightarrow> bool" +
  fixes s :: Side
begin

abbreviation node_price :: "lnode \<Rightarrow> Price" where
  "node_price n \<equiv> o_price (node_order n)"

lemma side_ok_Nil [simp]: "side_ok lt s []"
  by (simp add: side_ok_def)

lemma side_ok_Cons:
  "side_ok lt s ((p, l) # m) \<longleftrightarrow> l \<noteq> [] \<and> (\<forall>n \<in> set l. resting_ok s p (node_order n))
     \<and> (\<forall>e \<in> set m. lt p (fst e)) \<and> side_ok lt s m"
  by (auto simp: side_ok_def)

lemma side_ok_append:
  "side_ok lt s (m @ m') \<longleftrightarrow> side_ok lt s m \<and> side_ok lt s m'
     \<and> (\<forall>e \<in> set m. \<forall>e' \<in> set m'. lt (fst e) (fst e'))"
  unfolding side_ok_def by (simp add: sorted_wrt_append ball_Un) blast

lemma side_ok_node:
  assumes "side_ok lt s m" and "n \<in> set (side_nodes m)"
  shows "\<exists>e \<in> set m. fst e = node_price n \<and> n \<in> set (snd e) \<and> resting_ok s (fst e) (node_order n)"
proof -
  obtain e where e: "e \<in> set m" "n \<in> set (snd e)" using assms(2) by (auto simp: set_side_nodes)
  then have "resting_ok s (fst e) (node_order n)"
    using assms(1) by (simp add: side_ok_def)
  with e show ?thesis by (auto simp: resting_ok_def)
qed

lemma half_split:
  assumes "side_ok lt s m"
  obtains pre post where "\<forall>e \<in> set pre. lt (fst e) k" "\<forall>e \<in> set post. lt k (fst e)"
    "side_ok lt s pre" "side_ok lt s post"
    "side_nodes m = side_nodes pre @ map_at k m @ side_nodes post"
    "\<forall>v. map_put lt k v m = pre @ (k, v) # post" "map_erase k m = pre @ post"
    "\<forall>n \<in> set (map_at k m). resting_ok s k (node_order n)"
proof -
  have "sorted_wrt lt (map fst m)" using assms by (simp add: side_ok_def)
  then obtain pre post where h: "\<forall>e \<in> set pre. lt (fst e) k" "\<forall>e \<in> set post. lt k (fst e)"
    "m = pre @ (case map_of m k of None \<Rightarrow> [] | Some v \<Rightarrow> [(k, v)]) @ post"
    "\<forall>v. map_put lt k v m = pre @ (k, v) # post" "map_erase k m = pre @ post"
    by (rule map_split)
  define mid where "mid = (case map_of m k of None \<Rightarrow> [] | Some v \<Rightarrow> [(k, v)])"
  have m: "m = pre @ mid @ post" using h(3) by (simp add: mid_def)
  have ok: "side_ok lt s pre" "side_ok lt s mid" "side_ok lt s post"
    using assms by (simp_all add: m side_ok_append)
  have at: "side_nodes mid = map_at k m"
    by (simp add: mid_def map_at_def split: option.split)
  have "side_nodes m = side_nodes pre @ map_at k m @ side_nodes post"
    by (subst m) (simp add: at)
  moreover have "\<forall>n \<in> set (map_at k m). resting_ok s k (node_order n)"
    using ok(2) by (auto simp: mid_def map_at_def side_ok_def split: option.splits)
  ultimately show ?thesis using that h ok by blast
qed

lemma node_prices_below:
  "\<forall>e \<in> set m. lt (fst e) k \<Longrightarrow> side_ok lt s m \<Longrightarrow> n \<in> set (side_nodes m) \<Longrightarrow> lt (node_price n) k"
  using side_ok_node by fastforce

lemma node_prices_above:
  "\<forall>e \<in> set m. lt k (fst e) \<Longrightarrow> side_ok lt s m \<Longrightarrow> n \<in> set (side_nodes m) \<Longrightarrow> lt k (node_price n)"
  using side_ok_node by fastforce

text \<open>A new order joins behind all orders at least as good, before all worse ones.\<close>

lemma push_ok:
  assumes m: "side_ok lt s m" and n: "resting_ok s p (node_order n)"
  shows "side_ok lt s (map_put lt p (map_at p m @ [n]) m)"
    and "side_nodes (map_put lt p (map_at p m @ [n]) m) =
      takeWhile (\<lambda>x. \<not> lt p (node_price x)) (side_nodes m) @ n #
      dropWhile (\<lambda>x. \<not> lt p (node_price x)) (side_nodes m)"
proof -
  obtain pre post where h: "\<forall>e \<in> set pre. lt (fst e) p" "\<forall>e \<in> set post. lt p (fst e)"
    "side_ok lt s pre" "side_ok lt s post"
    "side_nodes m = side_nodes pre @ map_at p m @ side_nodes post"
    "\<forall>v. map_put lt p v m = pre @ (p, v) # post" "map_erase p m = pre @ post"
    "\<forall>n \<in> set (map_at p m). resting_ok s p (node_order n)"
    by (rule half_split [OF m, of p])
  have "\<forall>e \<in> set pre. \<forall>e' \<in> set post. lt (fst e) (fst e')" using h(1,2) lt_trans by blast
  then show "side_ok lt s (map_put lt p (map_at p m @ [n]) m)"
    using h(1-4,8) n by (simp add: h(6) side_ok_append side_ok_Cons)
  have "\<not> lt p (node_price x)" if "x \<in> set (side_nodes pre @ map_at p m)" for x
    using that h(8) node_prices_below [OF h(1,3)] lt_asym by (auto simp: resting_ok_def)
  moreover have "lt p (node_price x)" if "x \<in> set (side_nodes post)" for x
    using that node_prices_above [OF h(2,4)] by simp
  ultimately have "takeWhile (\<lambda>x. \<not> lt p (node_price x)) (side_nodes m) = side_nodes pre @ map_at p m
      \<and> dropWhile (\<lambda>x. \<not> lt p (node_price x)) (side_nodes m) = side_nodes post"
    unfolding h(5) append_assoc [symmetric]
    by (intro takeWhile_append_split) auto
  then show "side_nodes (map_put lt p (map_at p m @ [n]) m) =
      takeWhile (\<lambda>x. \<not> lt p (node_price x)) (side_nodes m) @ n #
      dropWhile (\<lambda>x. \<not> lt p (node_price x)) (side_nodes m)"
    by (simp add: h(6))
qed

text \<open>Erasing through an iterator of a resting node takes out that node and nothing else.\<close>

lemma erase_ok:
  assumes m: "side_ok lt s m" and d: "distinct (map node_addr (side_nodes m))"
    and n: "n \<in> set (side_nodes m)" and p: "p = node_price n"
  obtains l m' where "erase_node (node_addr n) (map_at p m) = Some l"
    "m' = (if l = [] then map_erase p m else map_put lt p l m)" "side_ok lt s m'"
    "side_nodes m' = filter (\<lambda>x. node_addr x \<noteq> node_addr n) (side_nodes m)"
    "fst ` set m' \<subseteq> fst ` set m"
proof -
  obtain pre post where h: "\<forall>e \<in> set pre. lt (fst e) p" "\<forall>e \<in> set post. lt p (fst e)"
    "side_ok lt s pre" "side_ok lt s post"
    "side_nodes m = side_nodes pre @ map_at p m @ side_nodes post"
    "\<forall>v. map_put lt p v m = pre @ (p, v) # post" "map_erase p m = pre @ post"
    "\<forall>n \<in> set (map_at p m). resting_ok s p (node_order n)"
    by (rule half_split [OF m, of p])
  let ?P = "\<lambda>x. node_addr x \<noteq> node_addr n"
  define l where "l = filter ?P (map_at p m)"
  define m' where "m' = (if l = [] then map_erase p m else map_put lt p l m)"
  have here: "n \<in> set (map_at p m)"
    using n node_prices_below [OF h(1,3), of n] node_prices_above [OF h(2,4), of n]
    by (auto simp: h(5) p)
  have er: "erase_node (node_addr n) (map_at p m) = Some l"
    unfolding l_def using d here by (intro erase_node_filter) (auto simp: h(5))
  have rest: "filter ?P (side_nodes pre) = side_nodes pre"
    "filter ?P (side_nodes post) = side_nodes post"
    using d here by (auto simp: h(5) intro!: filter_True)
  have nodes: "side_nodes m' = filter ?P (side_nodes m)"
    by (auto simp: m'_def h(5) h(6) h(7) rest l_def [symmetric])
  have "\<forall>e \<in> set pre. \<forall>e' \<in> set post. lt (fst e) (fst e')" using h(1,2) lt_trans by blast
  then have ok: "side_ok lt s m'"
    using h(1-4,8) by (simp add: m'_def h(6) h(7) side_ok_append side_ok_Cons l_def)
  have keys: "fst ` set m' \<subseteq> fst ` set m"
  proof -
    obtain e where "e \<in> set m" "fst e = p" using side_ok_node [OF m n] p by auto
    moreover have "set pre \<union> set post \<subseteq> set m"
      using arg_cong [OF h(7), of set] by (auto simp: map_erase_def)
    ultimately show ?thesis by (auto simp: m'_def h(6) h(7))
  qed
  show ?thesis by (rule that [OF er m'_def ok nodes keys])
qed

lemma level_prefix:
  assumes "side_ok lt s ((p, l) # m)"
  shows "takeWhile (\<lambda>n. node_price n = p) (l @ side_nodes m) = l
     \<and> dropWhile (\<lambda>n. node_price n = p) (l @ side_nodes m) = side_nodes m"
proof (rule takeWhile_append_split)
  show "node_price n = p" if "n \<in> set l" for n
    using that assms by (simp add: side_ok_Cons resting_ok_def)
  show "node_price n \<noteq> p" if "n \<in> set (side_nodes m)" for n
    using that assms node_prices_above [of m p n] by (auto simp: side_ok_Cons)
qed

text \<open>The priority list determines the levels: a well-formed side has one representation.\<close>

lemma side_nodes_inj:
  "side_ok lt s m \<Longrightarrow> side_ok lt s m' \<Longrightarrow> side_nodes m = side_nodes m' \<Longrightarrow> m = m'"
proof (induction m arbitrary: m')
  case Nil
  then show ?case by (cases m') (auto simp: side_ok_def)
next
  case (Cons e m)
  obtain p l where e: "e = (p, l)" by (cases e)
  have l: "l \<noteq> []" "\<forall>n \<in> set l. resting_ok s p (node_order n)" "\<forall>e \<in> set m. lt p (fst e)"
    "side_ok lt s m"
    using Cons.prems(1) by (simp_all add: e side_ok_Cons)
  obtain p' l' m1 where m': "m' = (p', l') # m1"
    using Cons.prems(3) l(1) by (cases m') (auto simp: e)
  have l': "l' \<noteq> []" "\<forall>n \<in> set l'. resting_ok s p' (node_order n)" "\<forall>e \<in> set m1. lt p' (fst e)"
    "side_ok lt s m1"
    using Cons.prems(2) by (simp_all add: m' side_ok_Cons)
  have eq: "l @ side_nodes m = l' @ side_nodes m1" using Cons.prems(3) by (simp add: e m')
  then have "hd l = hd l'" using l(1) l'(1) by (metis hd_append2)
  then have p: "p = p'"
    using l(1,2) l'(1,2) by (metis hd_in_set resting_ok_def)
  have "l = l' \<and> side_nodes m = side_nodes m1"
    using level_prefix [OF Cons.prems(1) [unfolded e]] level_prefix [OF Cons.prems(2) [unfolded m']] eq p
    by metis
  then have "l = l'" "side_nodes m = side_nodes m1" by simp_all
  then show ?case using Cons.IH [OF l(4) l'(4)] by (simp add: e m' p)
qed

end

interpretation bid_half: book_half "(>)" BID
  by unfold_locales

interpretation ask_half: book_half "(<)" ASK
  by unfold_locales

section \<open>Addresses and the index\<close>

lemma nodes_ok_mset: "mset ns = mset ns' \<Longrightarrow> nodes_ok a ns \<longleftrightarrow> nodes_ok a ns'"
  unfolding nodes_ok_def by (metis mset_eq_imp_distinct_iff mset_map mset_eq_setD)

lemma nodes_ok_Cons:
  "nodes_ok a ns \<Longrightarrow> nodes_ok (Suc a) (\<lparr>node_addr = a, node_order = ord\<rparr> # ns)"
  by (fastforce simp: nodes_ok_def)

lemma nodes_ok_filter: "nodes_ok a ns \<Longrightarrow> nodes_ok a (filter P ns)"
  by (simp add: nodes_ok_def distinct_map_filter)

lemma nodes_ok_inj: "nodes_ok a ns \<Longrightarrow> x \<in> set ns \<Longrightarrow> y \<in> set ns \<Longrightarrow> node_addr x = node_addr y \<Longrightarrow> x = y"
  by (simp add: nodes_ok_def distinct_map inj_on_def)

lemma index_ok_set: "set ns = set ns' \<Longrightarrow> index_ok om ns \<longleftrightarrow> index_ok om ns'"
  by (simp add: index_ok_def located_def)

lemma index_ok_add:
  "index_ok om ns \<Longrightarrow> index_ok (om(o_id ord \<mapsto> \<lparr>loc_side = o_side ord, loc_price = o_price ord,
       list_position = a\<rparr>)) (\<lparr>node_addr = a, node_order = ord\<rparr> # ns)"
  by (auto simp: index_ok_def located_def)

text \<open>Removing one node together with the index entry of its id keeps the index sound.\<close>

lemma index_ok_remove:
  assumes "index_ok om ns" and "nodes_ok a ns" and "n \<in> set ns"
  shows "index_ok (om(o_id (node_order n) := None)) (filter (\<lambda>x. node_addr x \<noteq> node_addr n) ns)"
  unfolding index_ok_def
proof (intro allI impI)
  fix oid loc
  assume "(om(o_id (node_order n) := None)) oid = Some loc"
  then have ne: "oid \<noteq> o_id (node_order n)" and "om oid = Some loc" by (auto split: if_splits)
  then have "located ns oid loc" using assms(1) by (simp add: index_ok_def)
  then obtain x where x: "x \<in> set ns" "node_addr x = list_position loc" "o_id (node_order x) = oid"
    "o_side (node_order x) = loc_side loc" "o_price (node_order x) = loc_price loc"
    by (auto simp: located_def)
  have "node_addr x \<noteq> node_addr n" using nodes_ok_inj [OF assms(2) x(1) assms(3)] x(3) ne by auto
  then show "located (filter (\<lambda>x. node_addr x \<noteq> node_addr n) ns) oid loc"
    using x by (auto simp: located_def)
qed

lemma indexed_set: "set ns = set ns' \<Longrightarrow> indexed om ns \<longleftrightarrow> indexed om ns'"
  by (simp add: indexed_def)

lemma indexed_add:
  "indexed om ns \<Longrightarrow> (\<And>n. n \<in> set ns \<Longrightarrow> o_id (node_order n) \<noteq> o_id ord) \<Longrightarrow>
     indexed (om(o_id ord \<mapsto> \<lparr>loc_side = o_side ord, loc_price = o_price ord,
       list_position = a\<rparr>)) (\<lparr>node_addr = a, node_order = ord\<rparr> # ns)"
  by (auto simp: indexed_def)

text \<open>With a complete index no two resting orders share an id.\<close>

lemma indexed_inj:
  assumes "indexed om ns" and "nodes_ok a ns" and "x \<in> set ns" and "y \<in> set ns"
    and "o_id (node_order x) = o_id (node_order y)"
  shows "x = y"
proof -
  have "\<lparr>loc_side = o_side (node_order x), loc_price = o_price (node_order x), list_position = node_addr x\<rparr> =
      \<lparr>loc_side = o_side (node_order y), loc_price = o_price (node_order y), list_position = node_addr y\<rparr>"
    using assms(1,3-5) unfolding indexed_def by (metis option.inject)
  then have "node_addr x = node_addr y" by simp
  then show ?thesis using nodes_ok_inj assms(2-4) by blast
qed

lemma indexed_remove:
  assumes "indexed om ns" and "nodes_ok a ns" and "n \<in> set ns"
  shows "indexed (om(o_id (node_order n) := None)) (filter (\<lambda>x. node_addr x \<noteq> node_addr n) ns)"
proof -
  have "o_id (node_order x) \<noteq> o_id (node_order n)"
    if "x \<in> set ns" "node_addr x \<noteq> node_addr n" for x
    using indexed_inj [OF assms(1,2) that(1) assms(3)] that(2) by auto
  then show ?thesis using assms(1) by (auto simp: indexed_def)
qed

lemma mset_insert_while: "mset (takeWhile P xs @ x # dropWhile P xs) = add_mset x (mset xs)"
proof -
  have "mset (takeWhile P xs @ dropWhile P xs) = mset xs" by (simp only: takeWhile_dropWhile_id)
  then show ?thesis by (simp del: takeWhile_dropWhile_id)
qed

section \<open>Adding an order\<close>

abbreviation new_node :: "orderbook \<Rightarrow> order \<Rightarrow> lnode" where
  "new_node b ord \<equiv> \<lparr>node_addr = next_addr b, node_order = ord\<rparr>"

text \<open>\<open>insert_by lt n ns\<close>: price-time priority insertion of a node into a priority list.\<close>

definition insert_by :: "(Price \<Rightarrow> Price \<Rightarrow> bool) \<Rightarrow> lnode \<Rightarrow> lnode list \<Rightarrow> lnode list" where
  "insert_by lt n ns =
     takeWhile (\<lambda>x. \<not> lt (o_price (node_order n)) (o_price (node_order x))) ns @ n #
     dropWhile (\<lambda>x. \<not> lt (o_price (node_order n)) (o_price (node_order x))) ns"

lemma mset_insert_by [simp]: "mset (insert_by lt n ns) = add_mset n (mset ns)"
  by (simp only: insert_by_def mset_insert_while)

lemma add_order_bid:
  assumes "book_wf b" and "order_valid ord" and "o_type ord = LIMIT" and "o_side ord = BID"
  shows "side_ok (>) BID (bids (add_order b ord))"
    and "side_nodes (bids (add_order b ord)) = insert_by (>) (new_node b ord) (side_nodes (bids b))"
    and "asks (add_order b ord) = asks b"
  using assms bid_half.push_ok [of "bids b" "o_price ord" "new_node b ord"]
  by (simp_all add: add_order_def book_wf_def Let_def resting_ok_def insert_by_def)

lemma add_order_ask:
  assumes "book_wf b" and "order_valid ord" and "o_type ord = LIMIT" and "o_side ord = ASK"
  shows "side_ok (<) ASK (asks (add_order b ord))"
    and "side_nodes (asks (add_order b ord)) = insert_by (<) (new_node b ord) (side_nodes (asks b))"
    and "bids (add_order b ord) = bids b"
  using assms ask_half.push_ok [of "asks b" "o_price ord" "new_node b ord"]
  by (simp_all add: add_order_def book_wf_def Let_def resting_ok_def insert_by_def)

lemma add_order_index:
  "o_type ord = LIMIT \<Longrightarrow> o_side ord \<in> {BID, ASK} \<Longrightarrow>
     order_map (add_order b ord) = (order_map b)(o_id ord \<mapsto>
       \<lparr>loc_side = o_side ord, loc_price = o_price ord, list_position = next_addr b\<rparr>)
     \<and> next_addr (add_order b ord) = Suc (next_addr b)"
  by (auto simp: add_order_def Let_def)

lemma add_order_ignored:
  "o_type ord \<noteq> LIMIT \<or> o_side ord \<notin> {BID, ASK} \<Longrightarrow> add_order b ord = b"
  by (auto simp: add_order_def)

lemma add_order_mset:
  assumes "book_wf b" and "order_valid ord" and "o_type ord = LIMIT" and "o_side ord \<in> {BID, ASK}"
  shows "mset (all_nodes (add_order b ord)) = add_mset (new_node b ord) (mset (all_nodes b))"
  using assms add_order_bid [of b ord] add_order_ask [of b ord]
  by (auto simp: all_nodes_def)

lemma add_order_wf:
  assumes wf: "book_wf b" and v: "order_valid ord"
  shows "book_wf (add_order b ord)"
proof (cases "o_type ord = LIMIT \<and> o_side ord \<in> {BID, ASK}")
  case False
  then show ?thesis using wf add_order_ignored [of ord b] by auto
next
  case True
  let ?b = "add_order b ord" and ?ns = "new_node b ord # all_nodes b"
  have m: "mset (all_nodes ?b) = mset ?ns" using add_order_mset [OF wf v] True by simp
  have sides: "side_ok (>) BID (bids ?b)" "side_ok (<) ASK (asks ?b)"
    using True add_order_bid [OF wf v] add_order_ask [OF wf v] wf by (auto simp: book_wf_def)
  have idx: "order_map ?b = (order_map b)(o_id ord \<mapsto>
       \<lparr>loc_side = o_side ord, loc_price = o_price ord, list_position = next_addr b\<rparr>)"
    "next_addr ?b = Suc (next_addr b)"
    using add_order_index True by auto
  have "nodes_ok (next_addr ?b) (all_nodes ?b)"
    unfolding nodes_ok_mset [OF m] idx using wf by (simp add: nodes_ok_Cons book_wf_def)
  moreover have "index_ok (order_map ?b) (all_nodes ?b)"
    unfolding index_ok_set [OF mset_eq_setD [OF m]] idx
    using wf by (simp add: index_ok_add book_wf_def)
  ultimately show ?thesis using sides by (simp add: book_wf_def)
qed

section \<open>Cancelling an order\<close>

text \<open>
  An indexed id is found at its node, the iterator is good, and exactly that node leaves the
  book. No assumption on the distinctness of order ids is needed.
\<close>

lemma cancel_order_found:
  assumes wf: "book_wf b" and at: "order_map b oid = Some loc"
  obtains b' n where "cancel_order b oid = Inr b'" "n \<in> set (all_nodes b)"
    "node_addr n = list_position loc" "o_id (node_order n) = oid"
    "side_ok (>) BID (bids b')" "side_ok (<) ASK (asks b')"
    "side_nodes (bids b') = filter (\<lambda>x. node_addr x \<noteq> node_addr n) (side_nodes (bids b))"
    "side_nodes (asks b') = filter (\<lambda>x. node_addr x \<noteq> node_addr n) (side_nodes (asks b))"
    "order_map b' = (order_map b)(oid := None)" "next_addr b' = next_addr b"
    "fst ` set (bids b') \<subseteq> fst ` set (bids b)" "fst ` set (asks b') \<subseteq> fst ` set (asks b)"
proof -
  have bk: "side_ok (>) BID (bids b)" "side_ok (<) ASK (asks b)"
    "nodes_ok (next_addr b) (all_nodes b)" "index_ok (order_map b) (all_nodes b)"
    using wf by (simp_all add: book_wf_def)
  obtain n where n: "n \<in> set (all_nodes b)" "node_addr n = list_position loc"
    "o_id (node_order n) = oid" "o_side (node_order n) = loc_side loc"
    "o_price (node_order n) = loc_price loc"
    using bk(4) at by (auto simp: index_ok_def located_def)
  have d: "distinct (map node_addr (side_nodes (bids b)))"
    "distinct (map node_addr (side_nodes (asks b)))"
    "\<And>x y. x \<in> set (side_nodes (bids b)) \<Longrightarrow> y \<in> set (side_nodes (asks b)) \<Longrightarrow> node_addr x \<noteq> node_addr y"
    using bk(3) by (auto simp: nodes_ok_def all_nodes_def)
  consider (bid) "n \<in> set (side_nodes (bids b))" | (ask) "n \<in> set (side_nodes (asks b))"
    using n(1) by (auto simp: all_nodes_def)
  then show ?thesis
  proof cases
    case bid
    have sd: "loc_side loc = BID"
      using bid_half.side_ok_node [OF bk(1) bid] n(4) by (auto simp: resting_ok_def)
    obtain l m' where h: "erase_node (node_addr n) (map_at (loc_price loc) (bids b)) = Some l"
      "m' = (if l = [] then map_erase (loc_price loc) (bids b)
             else map_put (>) (loc_price loc) l (bids b))" "side_ok (>) BID m'"
      "side_nodes m' = filter (\<lambda>x. node_addr x \<noteq> node_addr n) (side_nodes (bids b))"
      "fst ` set m' \<subseteq> fst ` set (bids b)"
      by (rule bid_half.erase_ok [OF bk(1) d(1) bid n(5) [symmetric]])
    have "filter (\<lambda>x. node_addr x \<noteq> node_addr n) (side_nodes (asks b)) = side_nodes (asks b)"
      using d(3) [OF bid] by (intro filter_True ballI) metis
    then show ?thesis
      using that [of "b\<lparr>bids := m', order_map := (order_map b)(oid := None)\<rparr>" n] h n bk at sd
      by (simp add: cancel_order_def)
  next
    case ask
    have sd: "loc_side loc = ASK"
      using ask_half.side_ok_node [OF bk(2) ask] n(4) by (auto simp: resting_ok_def)
    obtain l m' where h: "erase_node (node_addr n) (map_at (loc_price loc) (asks b)) = Some l"
      "m' = (if l = [] then map_erase (loc_price loc) (asks b)
             else map_put (<) (loc_price loc) l (asks b))" "side_ok (<) ASK m'"
      "side_nodes m' = filter (\<lambda>x. node_addr x \<noteq> node_addr n) (side_nodes (asks b))"
      "fst ` set m' \<subseteq> fst ` set (asks b)"
      by (rule ask_half.erase_ok [OF bk(2) d(2) ask n(5) [symmetric]])
    have "filter (\<lambda>x. node_addr x \<noteq> node_addr n) (side_nodes (bids b)) = side_nodes (bids b)"
      using d(3) [OF _ ask] by (intro filter_True ballI) metis
    then show ?thesis
      using that [of "b\<lparr>asks := m', order_map := (order_map b)(oid := None)\<rparr>" n] h n bk at sd
      by (simp add: cancel_order_def)
  qed
qed

lemma cancel_order_missing:
  "order_map b oid = None \<Longrightarrow>
     cancel_order b oid = Inl (Throw (Invalid_argument ''order id not found in the book''))"
  by (simp add: cancel_order_def)

lemma cancel_order_wf:
  assumes wf: "book_wf b" and c: "cancel_order b oid = Inr b'"
  shows "book_wf b'"
proof -
  obtain loc where "order_map b oid = Some loc"
    using c by (cases "order_map b oid") (simp_all add: cancel_order_def)
  then obtain b1 n where h: "cancel_order b oid = Inr b1" "n \<in> set (all_nodes b)"
    "node_addr n = list_position loc" "o_id (node_order n) = oid"
    "side_ok (>) BID (bids b1)" "side_ok (<) ASK (asks b1)"
    "side_nodes (bids b1) = filter (\<lambda>x. node_addr x \<noteq> node_addr n) (side_nodes (bids b))"
    "side_nodes (asks b1) = filter (\<lambda>x. node_addr x \<noteq> node_addr n) (side_nodes (asks b))"
    "order_map b1 = (order_map b)(oid := None)" "next_addr b1 = next_addr b"
    by (rule cancel_order_found [OF wf])
  have n: "all_nodes b1 = filter (\<lambda>x. node_addr x \<noteq> node_addr n) (all_nodes b)" "b' = b1"
    using h c by (simp_all add: all_nodes_def)
  have "nodes_ok (next_addr b) (all_nodes b)" "index_ok (order_map b) (all_nodes b)"
    using wf by (simp_all add: book_wf_def)
  then show ?thesis
    using index_ok_remove [of "order_map b" "all_nodes b" "next_addr b" n] h(2,4-6,9,10)
    by (simp add: book_wf_def n nodes_ok_filter)
qed

lemma empty_book_wf: "book_wf empty_book"
  by (simp add: book_wf_def empty_book_def all_nodes_def nodes_ok_def index_ok_def)

end
