(* ===== verification/Matching_Engine.thy ===== *)
theory Matching_Engine
  imports Order_Book
begin

text \<open>
  The matching engine of \<^verbatim>\<open>src/matching_engine.cpp\<close>. \<open>match_level\<close> is the inner loop over the
  orders of one price level, \<open>match_loop\<close> the outer loop over levels; the source writes both
  twice, once for a bid against the asks and once for an ask against the bids, and
  \<open>match_asks\<close> and \<open>match_bids\<close> are the two instances. The variables that the loops change
  besides the level are the record \<open>fill\<close>: the remaining quantity, the book's index, the
  \<^verbatim>\<open>trades\<close> output vector and the number of clock readings taken so far.

  The reference to a level (\<^verbatim>\<open>auto& orders\<close>) is a list that is written back to the map when
  the inner loop is left, on every path. An exception leaves the changes made so far in place, so
  the operations return the exception, if any, next to the state.
\<close>

section \<open>Definitions\<close>

record fill =
  remaining_quantity :: Quantity
  omap :: "OrderId \<rightharpoonup> OrderLocation"
  trades :: "trade list"
  ticks :: nat

text \<open>The trade of a bid against a resting ask, and of an ask against a resting bid.\<close>

definition bid_trade :: "order \<Rightarrow> Price \<Rightarrow> order \<Rightarrow> Quantity \<Rightarrow> Timestamp \<Rightarrow> trade" where
  "bid_trade ord best matched filled now =
     \<lparr>t_price = best, buyer_order_id = o_id ord, seller_order_id = o_id matched,
      t_quantity = filled, t_timestamp = now\<rparr>"

definition ask_trade :: "order \<Rightarrow> Price \<Rightarrow> order \<Rightarrow> Quantity \<Rightarrow> Timestamp \<Rightarrow> trade" where
  "ask_trade ord best matched filled now =
     \<lparr>t_price = best, buyer_order_id = o_id matched, seller_order_id = o_id ord,
      t_quantity = filled, t_timestamp = now\<rparr>"

type_synonym trade_maker = "order \<Rightarrow> Price \<Rightarrow> order \<Rightarrow> Quantity \<Rightarrow> Timestamp \<Rightarrow> trade"

definition filled_quantity :: "order \<Rightarrow> fill \<Rightarrow> Quantity" where
  "filled_quantity matched r = min (o_quantity matched) (remaining_quantity r)"

text \<open>One fill: the trade is appended and the remaining quantity goes down.\<close>

definition record_fill ::
  "trade_maker \<Rightarrow> clock \<Rightarrow> order \<Rightarrow> Price \<Rightarrow> order \<Rightarrow> Quantity \<Rightarrow> fill \<Rightarrow> fill" where
  "record_fill mk clk ord best matched filled r =
     r\<lparr>trades := trades r @ [mk ord best matched filled (clk (ticks r))],
       ticks := Suc (ticks r),
       remaining_quantity := remaining_quantity r - filled\<rparr>"

text \<open>A filled order leaves the index.\<close>

definition forget_id :: "OrderId \<Rightarrow> fill \<Rightarrow> fill" where
  "forget_id oid r = r\<lparr>omap := (omap r)(oid := None)\<rparr>"

lemma record_fill_simps [simp]:
  "remaining_quantity (record_fill mk clk ord best matched f r) = remaining_quantity r - f"
  "omap (record_fill mk clk ord best matched f r) = omap r"
  "trades (record_fill mk clk ord best matched f r) =
     trades r @ [mk ord best matched f (clk (ticks r))]"
  "ticks (record_fill mk clk ord best matched f r) = Suc (ticks r)"
  by (simp_all add: record_fill_def)

lemma forget_id_simps [simp]:
  "remaining_quantity (forget_id oid r) = remaining_quantity r"
  "omap (forget_id oid r) = (omap r)(oid := None)"
  "trades (forget_id oid r) = trades r" "ticks (forget_id oid r) = ticks r"
  by (simp_all add: forget_id_def)

function match_level ::
  "trade_maker \<Rightarrow> clock \<Rightarrow> order \<Rightarrow> Price \<Rightarrow> lnode list \<Rightarrow> fill \<Rightarrow> exn option \<times> lnode list \<times> fill" where
  "match_level mk clk ord best [] r = (None, [], r)"
| "match_level mk clk ord best (n # ns) r =
     (if remaining_quantity r > 0 then
        if o_quantity (node_order n) = filled_quantity (node_order n) r
        then match_level mk clk ord best ns
               (forget_id (o_id (node_order n))
                 (record_fill mk clk ord best (node_order n) (filled_quantity (node_order n) r) r))
        else (case reduce_quantity (node_order n) (filled_quantity (node_order n) r) of
                Inl e \<Rightarrow>
                  (Some e, n # ns,
                   record_fill mk clk ord best (node_order n) (filled_quantity (node_order n) r) r)
              | Inr matched \<Rightarrow>
                  match_level mk clk ord best (n\<lparr>node_order := matched\<rparr> # ns)
                    (record_fill mk clk ord best (node_order n) (filled_quantity (node_order n) r) r))
      else (None, n # ns, r))"
  by pat_completeness auto
termination
  by (relation "measures [\<lambda>(mk, clk, ord, best, orders, r). length orders,
    \<lambda>(mk, clk, ord, best, orders, r). unat (remaining_quantity r)]")
    (auto simp: word_gt_0_unat filled_quantity_def)

declare match_level.simps(2) [simp del]

text \<open>
  \<open>nocross ord p\<close> is the test that ends the outer loop: a limit order whose price does not
  reach the best price of the other side.
\<close>

function match_loop ::
  "(Price \<Rightarrow> Price \<Rightarrow> bool) \<Rightarrow> (order \<Rightarrow> Price \<Rightarrow> bool) \<Rightarrow> trade_maker \<Rightarrow> clock \<Rightarrow> order \<Rightarrow>
     book_side \<Rightarrow> fill \<Rightarrow> exn option \<times> book_side \<times> fill" where
  "match_loop lt nocross mk clk ord levels r =
     (if remaining_quantity r > 0 \<and> levels \<noteq> [] then
        let best = fst (hd levels)
        in if nocross ord best then (None, levels, r)
           else (case match_level mk clk ord best (map_at best levels) r of
                   (Some e, orders, r') \<Rightarrow> (Some e, map_put lt best orders levels, r')
                 | (None, orders, r') \<Rightarrow>
                     match_loop lt nocross mk clk ord
                       (if orders = [] then map_erase best levels
                        else map_put lt best orders levels) r')
      else (None, levels, r))"
  by pat_completeness auto

text \<open>The inner loop ends with the order filled or the level used up.\<close>

lemma match_level_done:
  "match_level mk clk ord best orders r = (None, orders', r') \<Longrightarrow>
     remaining_quantity r' = 0 \<or> orders' = []"
proof (induction mk clk ord best orders r rule: match_level.induct)
  case (1 mk clk ord best r)
  then show ?case by simp
next
  case (2 mk clk ord best n ns r)
  then show ?case
    by (auto simp: match_level.simps(2) [of mk clk ord best n ns r] Let_def word_gt_0
        split: if_splits sum.splits)
qed

termination match_loop
proof (relation "measures [\<lambda>(lt, nocross, mk, clk, ord, levels, r).
      if remaining_quantity r > 0 then 1 else 0,
    \<lambda>(lt, nocross, mk, clk, ord, levels, r). length levels]", goal_cases)
  case 1
  show ?case by simp
next
  case (2 lt nocross mk clk ord levels r best res q orders r')
  then obtain l m where "levels = (best, l) # m" by (cases levels) auto
  moreover have "remaining_quantity r' = 0 \<or> orders = []"
    using match_level_done [of mk clk ord best "map_at best levels" r orders r'] 2 by simp
  ultimately show ?case using 2(1) by auto
qed

declare match_loop.simps [simp del]

definition bid_nocross :: "order \<Rightarrow> Price \<Rightarrow> bool" where
  "bid_nocross ord best \<longleftrightarrow> o_type ord = LIMIT \<and> o_price ord < best"

definition ask_nocross :: "order \<Rightarrow> Price \<Rightarrow> bool" where
  "ask_nocross ord best \<longleftrightarrow> o_type ord = LIMIT \<and> o_price ord > best"

definition match_asks :: "clock \<Rightarrow> order \<Rightarrow> book_side \<Rightarrow> fill \<Rightarrow> exn option \<times> book_side \<times> fill" where
  "match_asks = match_loop (<) bid_nocross bid_trade"

definition match_bids :: "clock \<Rightarrow> order \<Rightarrow> book_side \<Rightarrow> fill \<Rightarrow> exn option \<times> book_side \<times> fill" where
  "match_bids = match_loop (>) ask_nocross ask_trade"

text \<open>The unfilled rest of a limit order goes to the book as a new order.\<close>

definition rest_order :: "clock \<Rightarrow> order \<Rightarrow> orderbook \<Rightarrow> fill \<Rightarrow> exn option \<times> orderbook \<times> fill" where
  "rest_order clk ord b r =
     (if remaining_quantity r > 0 \<and> o_type ord = LIMIT then
        (case make_order (clk (ticks r)) (o_id ord) (o_price ord) (remaining_quantity r)
                (o_side ord) (o_type ord) of
           Inl e \<Rightarrow> (Some e, b, r\<lparr>ticks := Suc (ticks r)\<rparr>)
         | Inr rest \<Rightarrow> (None, add_order b rest, r\<lparr>ticks := Suc (ticks r)\<rparr>))
      else (None, b, r))"

text \<open>
  \<^verbatim>\<open>MatchingEngine::match\<close>. The result holds the exception, if one was thrown, the book, and the
  final loop variables, among them the output vector (\<open>ts\<close> is its content at the call).
\<close>

definition match :: "clock \<Rightarrow> nat \<Rightarrow> orderbook \<Rightarrow> order \<Rightarrow> trade list \<Rightarrow> exn option \<times> orderbook \<times> fill" where
  "match clk t b ord ts =
     (let r = \<lparr>remaining_quantity = o_quantity ord, omap = order_map b, trades = ts, ticks = t\<rparr>
      in if o_side ord = BID then
           (case match_asks clk ord (asks b) r of
              (Some e, levels, r') \<Rightarrow> (Some e, b\<lparr>asks := levels, order_map := omap r'\<rparr>, r')
            | (None, levels, r') \<Rightarrow> rest_order clk ord (b\<lparr>asks := levels, order_map := omap r'\<rparr>) r')
         else if o_side ord = ASK then
           (case match_bids clk ord (bids b) r of
              (Some e, levels, r') \<Rightarrow> (Some e, b\<lparr>bids := levels, order_map := omap r'\<rparr>, r')
            | (None, levels, r') \<Rightarrow> rest_order clk ord (b\<lparr>bids := levels, order_map := omap r'\<rparr>) r')
         else (None, b, r))"

end
