(* ===== verification/Price_Time.thy ===== *)
theory Price_Time
  imports Matching_Engine
begin

text \<open>
  The contract of the matching engine, price-time priority, and the proof that the loops keep it.

  A side of the book is abstracted to one queue of orders, best price first and oldest first within
  a price. The specification of matching is \<open>spec_sweep\<close>: an incoming order takes orders from the
  front of the opposite queue while they are within its limit, each completely before the next, and
  the last one possibly in part. An unfilled limit order is inserted in its own queue behind every
  order at least as good (\<open>spec_insert\<close>). Quantities are natural numbers there.

  \<open>sweep\<close> is the same on list nodes, so that node identities can be followed; the two loops of the
  source are shown equal to it, level by level and then for a whole side.
\<close>

section \<open>Specification\<close>

fun spec_sweep :: "(Price \<Rightarrow> bool) \<Rightarrow> nat \<Rightarrow> order list \<Rightarrow> (order \<times> nat) list \<times> order list \<times> nat" where
  "spec_sweep ok q [] = ([], [], q)"
| "spec_sweep ok q (x # xs) =
     (if q = 0 \<or> \<not> ok (o_price x) then ([], x # xs, q)
      else if unat (o_quantity x) \<le> q then
        (let (fs, rest, q') = spec_sweep ok (q - unat (o_quantity x)) xs
         in ((x, unat (o_quantity x)) # fs, rest, q'))
      else ([(x, q)], x\<lparr>o_quantity := o_quantity x - of_nat q\<rparr> # xs, 0))"

definition spec_insert :: "(Price \<Rightarrow> Price \<Rightarrow> bool) \<Rightarrow> order \<Rightarrow> order list \<Rightarrow> order list" where
  "spec_insert lt x xs =
     takeWhile (\<lambda>y. \<not> lt (o_price x) (o_price y)) xs @ x # dropWhile (\<lambda>y. \<not> lt (o_price x) (o_price y)) xs"

fun spec_trades :: "trade_maker \<Rightarrow> clock \<Rightarrow> order \<Rightarrow> nat \<Rightarrow> (order \<times> nat) list \<Rightarrow> trade list" where
  "spec_trades mk clk ord t [] = []"
| "spec_trades mk clk ord t ((x, f) # fs) =
     mk ord (o_price x) x (of_nat f) (clk t) # spec_trades mk clk ord (Suc t) fs"

record queues =
  bid_queue :: "order list"
  ask_queue :: "order list"

definition within_bid :: "order \<Rightarrow> Price \<Rightarrow> bool" where
  "within_bid ord p \<longleftrightarrow> (o_type ord = LIMIT \<longrightarrow> p \<le> o_price ord)"

definition within_ask :: "order \<Rightarrow> Price \<Rightarrow> bool" where
  "within_ask ord p \<longleftrightarrow> (o_type ord = LIMIT \<longrightarrow> o_price ord \<le> p)"

text \<open>The trades, the new queues and the quantity left, for an order on either side.\<close>

definition spec_match :: "clock \<Rightarrow> nat \<Rightarrow> queues \<Rightarrow> order \<Rightarrow> trade list \<times> queues \<times> nat" where
  "spec_match clk t qs ord =
     (if o_side ord = BID then
        (let (fs, rest, q) = spec_sweep (within_bid ord) (unat (o_quantity ord)) (ask_queue qs);
             qs' = qs\<lparr>ask_queue := rest\<rparr>;
             new = ord\<lparr>o_timestamp := clk (t + length fs), o_quantity := of_nat q\<rparr>
         in (spec_trades bid_trade clk ord t fs,
             if 0 < q \<and> o_type ord = LIMIT
             then qs'\<lparr>bid_queue := spec_insert (>) new (bid_queue qs)\<rparr> else qs', q))
      else if o_side ord = ASK then
        (let (fs, rest, q) = spec_sweep (within_ask ord) (unat (o_quantity ord)) (bid_queue qs);
             qs' = qs\<lparr>bid_queue := rest\<rparr>;
             new = ord\<lparr>o_timestamp := clk (t + length fs), o_quantity := of_nat q\<rparr>
         in (spec_trades ask_trade clk ord t fs,
             if 0 < q \<and> o_type ord = LIMIT
             then qs'\<lparr>ask_queue := spec_insert (<) new (ask_queue qs)\<rparr> else qs', q))
      else ([], qs, unat (o_quantity ord)))"

definition abs_side :: "book_side \<Rightarrow> order list" where
  "abs_side m = map node_order (side_nodes m)"

definition abs_book :: "orderbook \<Rightarrow> queues" where
  "abs_book b = \<lparr>bid_queue = abs_side (bids b), ask_queue = abs_side (asks b)\<rparr>"

section \<open>The sweep on list nodes\<close>

abbreviation node_qty :: "lnode \<Rightarrow> nat" where
  "node_qty n \<equiv> unat (o_quantity (node_order n))"

definition shrink :: "lnode \<Rightarrow> nat \<Rightarrow> lnode" where
  "shrink n q = n\<lparr>node_order := (node_order n)\<lparr>o_quantity := o_quantity (node_order n) - of_nat q\<rparr>\<rparr>"

fun sweep :: "(Price \<Rightarrow> bool) \<Rightarrow> nat \<Rightarrow> lnode list \<Rightarrow> (lnode \<times> nat) list \<times> lnode list \<times> nat" where
  "sweep ok q [] = ([], [], q)"
| "sweep ok q (n # ns) =
     (if q = 0 \<or> \<not> ok (o_price (node_order n)) then ([], n # ns, q)
      else if node_qty n \<le> q then
        (let (fs, rest, q') = sweep ok (q - node_qty n) ns in ((n, node_qty n) # fs, rest, q'))
      else ([(n, q)], shrink n q # ns, 0))"

fun forget_filled :: "(lnode \<times> nat) list \<Rightarrow> (OrderId \<rightharpoonup> OrderLocation) \<Rightarrow> (OrderId \<rightharpoonup> OrderLocation)" where
  "forget_filled [] om = om"
| "forget_filled ((n, f) # fs) om =
     forget_filled fs (if f = node_qty n then om(o_id (node_order n) := None) else om)"

abbreviation fill_orders :: "(lnode \<times> nat) list \<Rightarrow> (order \<times> nat) list" where
  "fill_orders fs \<equiv> map (\<lambda>(n, f). (node_order n, f)) fs"

lemma shrink_simps [simp]:
  "node_addr (shrink n q) = node_addr n" "o_id (node_order (shrink n q)) = o_id (node_order n)"
  "o_side (node_order (shrink n q)) = o_side (node_order n)"
  "o_price (node_order (shrink n q)) = o_price (node_order n)"
  "o_type (node_order (shrink n q)) = o_type (node_order n)"
  "o_quantity (node_order (shrink n q)) = o_quantity (node_order n) - of_nat q"
  by (simp_all add: shrink_def)

lemma sweep_0 [simp]: "sweep ok 0 ns = ([], ns, 0)"
  by (cases ns) simp_all

lemma sweep_spec:
  "sweep ok q ns = (fs, rest, q') \<Longrightarrow>
     spec_sweep ok q (map node_order ns) = (fill_orders fs, map node_order rest, q')"
  by (induction ok q ns arbitrary: fs rest q' rule: sweep.induct)
    (auto simp: Let_def shrink_def split: if_splits prod.splits)

lemma sweep_append:
  "sweep ok q (ns @ ms) =
     (let (fs, rest, q') = sweep ok q ns
      in if rest = [] then let (fs', rest', q'') = sweep ok q' ms in (fs @ fs', rest', q'')
         else (fs, rest @ ms, q'))"
  by (induction ok q ns rule: sweep.induct) (auto simp: Let_def split: prod.splits if_splits)

lemma sweep_left: "sweep ok q ns = (fs, rest, q') \<Longrightarrow> q' \<le> q"
  by (induction ok q ns arbitrary: fs rest q' rule: sweep.induct)
    (force simp: Let_def split: if_splits prod.splits)+

section \<open>The loops of the source compute the sweep\<close>

definition after_fills :: "trade_maker \<Rightarrow> clock \<Rightarrow> order \<Rightarrow> (lnode \<times> nat) list \<Rightarrow> nat \<Rightarrow> fill \<Rightarrow> fill" where
  "after_fills mk clk ord fs q r =
     \<lparr>remaining_quantity = of_nat q, omap = forget_filled fs (omap r),
      trades = trades r @ spec_trades mk clk ord (ticks r) (fill_orders fs),
      ticks = ticks r + length fs\<rparr>"

lemma after_fills_simps [simp]:
  "remaining_quantity (after_fills mk clk ord fs q r) = of_nat q"
  "omap (after_fills mk clk ord fs q r) = forget_filled fs (omap r)"
  "trades (after_fills mk clk ord fs q r) =
     trades r @ spec_trades mk clk ord (ticks r) (fill_orders fs)"
  "ticks (after_fills mk clk ord fs q r) = ticks r + length fs"
  by (simp_all add: after_fills_def)

lemma after_fills_none [simp]: "after_fills mk clk ord [] (unat (remaining_quantity r)) r = r"
  by (simp add: after_fills_def)

lemma spec_trades_append:
  "spec_trades mk clk ord t (fs @ gs) =
     spec_trades mk clk ord t fs @ spec_trades mk clk ord (t + length fs) gs"
  by (induction fs arbitrary: t) auto

lemma forget_filled_append: "forget_filled (fs @ gs) om = forget_filled gs (forget_filled fs om)"
  by (induction fs om rule: forget_filled.induct) auto

lemma after_fills_append:
  "after_fills mk clk ord gs q' (after_fills mk clk ord fs q r) = after_fills mk clk ord (fs @ gs) q' r"
  by (simp add: after_fills_def spec_trades_append forget_filled_append)

lemma level_sweep:
  "\<forall>n \<in> set l. o_price (node_order n) = best \<Longrightarrow> ok best \<Longrightarrow>
     sweep ok (unat (remaining_quantity r)) l = (fs, rest, q) \<Longrightarrow>
     match_level mk clk ord best l r = (None, rest, after_fills mk clk ord fs q r)"
proof (induction l arbitrary: r fs rest q)
  case Nil
  then show ?case by auto
next
  case (Cons n l)
  let ?f = "filled_quantity (node_order n) r"
  let ?r = "record_fill mk clk ord best (node_order n) ?f r"
  have p: "o_price (node_order n) = best" using Cons.prems(1) by simp
  consider (zero) "remaining_quantity r = 0"
    | (full) "0 < remaining_quantity r" "node_qty n \<le> unat (remaining_quantity r)"
    | (part) "0 < remaining_quantity r" "unat (remaining_quantity r) < node_qty n"
    using word_gt_0 by (metis not_le)
  then show ?case
  proof cases
    case zero
    then show ?thesis using Cons.prems(3) by (auto simp: match_level.simps(2))
  next
    case full
    then have f: "?f = o_quantity (node_order n)"
      by (simp add: filled_quantity_def word_le_nat_alt min_absorb1)
    obtain fs' where s: "sweep ok (unat (remaining_quantity r) - node_qty n) l = (fs', rest, q)"
      "fs = (n, node_qty n) # fs'"
      using Cons.prems(2,3) full p by (auto simp: word_gt_0_unat split: prod.splits)
    let ?r' = "forget_id (o_id (node_order n)) ?r"
    have "unat (remaining_quantity ?r') = unat (remaining_quantity r) - node_qty n"
      using full(2) by (simp add: f unat_sub word_le_nat_alt)
    then have "match_level mk clk ord best l ?r' = (None, rest, after_fills mk clk ord fs' q ?r')"
      using Cons.IH Cons.prems(1,2) s(1) by simp
    moreover have "after_fills mk clk ord fs' q ?r' = after_fills mk clk ord fs q r"
      by (simp add: after_fills_def s(2) f p)
    ultimately show ?thesis using full(1) f by (simp add: match_level.simps(2))
  next
    case part
    then have f: "?f = remaining_quantity r" "o_quantity (node_order n) \<noteq> ?f"
      by (auto simp: filled_quantity_def word_less_nat_alt min_def word_le_nat_alt)
    have s: "fs = [(n, unat (remaining_quantity r))]" "q = 0"
      "rest = shrink n (unat (remaining_quantity r)) # l"
      using Cons.prems(2,3) part p by (auto simp: word_gt_0_unat)
    have red: "reduce_quantity (node_order n) ?f =
        Inr (node_order (shrink n (unat (remaining_quantity r))))"
      using part(2) by (simp add: f(1) reduce_quantity_ok word_le_nat_alt shrink_def)
    have "match_level mk clk ord best (shrink n (unat (remaining_quantity r)) # l) ?r = (None, rest, ?r)"
      by (simp add: match_level.simps(2) f(1) s(3))
    moreover have "?r = after_fills mk clk ord fs q r"
      using part(2) by (simp add: record_fill_def after_fills_def s f(1) p)
    ultimately show ?thesis
      using part(1) f(2) by (simp add: match_level.simps(2) [of mk clk ord best n l r] red shrink_def)
  qed
qed

text \<open>A whole side: the levels that remain hold what remains of the priority list.\<close>

context book_half
begin

lemma level_rest_ok:
  "\<forall>n \<in> set l. resting_ok s p (node_order n) \<Longrightarrow> sweep ok q l = (fs, rest, q') \<Longrightarrow>
     \<forall>n \<in> set rest. resting_ok s p (node_order n)"
proof (induction ok q l arbitrary: fs rest q' rule: sweep.induct)
  case (1 ok q)
  then show ?case by simp
next
  case (2 ok q n ns)
  have "order_valid (node_order (shrink n q))" if "q < node_qty n" "resting_ok s p (node_order n)"
    using that
    by (auto simp: order_valid_def resting_ok_def word_gt_0_unat)
  then show ?case using 2
    by (auto simp: Let_def resting_ok_def not_le split: if_splits prod.splits)
qed

lemma loop_sweep:
  "side_ok lt s levels \<Longrightarrow>
     sweep (\<lambda>p. \<not> nocross ord p) (unat (remaining_quantity r)) (side_nodes levels) = (fs, rest, q) \<Longrightarrow>
     \<exists>levels'. match_loop lt nocross mk clk ord levels r =
         (None, levels', after_fills mk clk ord fs q r)
       \<and> side_ok lt s levels' \<and> side_nodes levels' = rest \<and> fst ` set levels' \<subseteq> fst ` set levels"
proof (induction levels arbitrary: r fs rest q)
  case Nil
  then show ?case by (auto simp: match_loop.simps)
next
  case (Cons e m)
  obtain best l where e: "e = (best, l)" by (cases e)
  have ok: "l \<noteq> []" "\<forall>n \<in> set l. resting_ok s best (node_order n)" "side_ok lt s m"
    "\<forall>e \<in> set m. lt best (fst e)"
    using Cons.prems(1) by (simp_all add: e side_ok_Cons)
  have price: "\<forall>n \<in> set l. o_price (node_order n) = best" using ok(2) by (simp add: resting_ok_def)
  show ?case
  proof (cases "remaining_quantity r = 0 \<or> nocross ord best")
    case True
    obtain n l' where "l = n # l'" using ok(1) by (cases l) auto
    then have "fs = []" "rest = side_nodes (e # m)" "q = unat (remaining_quantity r)"
      using True Cons.prems(2) price by (auto simp: e)
    then show ?thesis using True Cons.prems(1) by (auto simp: match_loop.simps e)
  next
    case False
    obtain fs1 rest1 q1 where
      s1: "sweep (\<lambda>p. \<not> nocross ord p) (unat (remaining_quantity r)) l = (fs1, rest1, q1)"
      by (metis prod_cases3)
    let ?r = "after_fills mk clk ord fs1 q1 r"
    have lv: "match_level mk clk ord best l r = (None, rest1, ?r)"
      using False by (intro level_sweep [OF price _ s1]) simp
    have q1: "unat (remaining_quantity ?r) = q1"
      using sweep_left [OF s1] by simp
    have step: "match_loop lt nocross mk clk ord (e # m) r =
        match_loop lt nocross mk clk ord (if rest1 = [] then m else (best, rest1) # m) ?r"
      using False Cons.prems(1) lv
      by (subst match_loop.simps) (simp add: e word_gt_0 map_erase_head side_ok_def)
    show ?thesis
    proof (cases "rest1 = []")
      case True
      obtain fs2 where s2: "sweep (\<lambda>p. \<not> nocross ord p) q1 (side_nodes m) = (fs2, rest, q)" "fs = fs1 @ fs2"
        using Cons.prems(2) True by (auto simp: e sweep_append s1 split: prod.splits)
      then show ?thesis
        using Cons.IH [OF ok(3), of ?r fs2 rest q] step True q1
        by (auto simp: after_fills_append)
    next
      case False
      have eq: "fs = fs1" "rest = rest1 @ side_nodes m" "q = q1"
        using Cons.prems(2) False by (auto simp: e sweep_append s1)
      have "remaining_quantity ?r = 0" using match_level_done [OF lv] False by blast
      then have "match_loop lt nocross mk clk ord ((best, rest1) # m) ?r = (None, (best, rest1) # m, ?r)"
        by (subst match_loop.simps) simp
      moreover have "side_ok lt s ((best, rest1) # m)"
        using level_rest_ok [OF ok(2) s1] ok False by (simp add: side_ok_Cons)
      ultimately show ?thesis using step False eq by (auto simp: e)
    qed
  qed
qed

end

section \<open>Node identities under a sweep\<close>

lemma sweep_nodes:
  "nodes_ok a (ns @ ms) \<Longrightarrow> sweep ok q ns = (fs, rest, q') \<Longrightarrow> nodes_ok a (rest @ ms)"
  by (induction ok q ns arbitrary: fs rest q' rule: sweep.induct)
    (auto simp: Let_def nodes_ok_def split: if_splits prod.splits)

text \<open>
  A property of the index and the nodes that survives dropping a node with its entry, and a change of
  a node's quantity, survives a sweep. Both index properties of the book are of this kind.
\<close>

lemma sweep_keeps:
  assumes remove: "\<And>om ns n. P om ns \<Longrightarrow> nodes_ok a ns \<Longrightarrow> n \<in> set ns \<Longrightarrow>
      P (om(o_id (node_order n) := None)) (filter (\<lambda>x. node_addr x \<noteq> node_addr n) ns)"
    and shrunk: "\<And>om ns n q. P om (n # ns) \<Longrightarrow> P om (shrink n q # ns)"
  shows "nodes_ok a (ns @ ms) \<Longrightarrow> P om (ns @ ms) \<Longrightarrow> sweep ok q ns = (fs, rest, q') \<Longrightarrow>
     P (forget_filled fs om) (rest @ ms)"
proof (induction ok q ns arbitrary: fs rest q' om rule: sweep.induct)
  case (1 ok q)
  then show ?case by simp
next
  case (2 ok q n ns)
  consider (stop) "q = 0 \<or> \<not> ok (o_price (node_order n))"
    | (full) "0 < q" "ok (o_price (node_order n))" "node_qty n \<le> q"
    | (part) "0 < q" "ok (o_price (node_order n))" "q < node_qty n"
    by fastforce
  then show ?case
  proof cases
    case stop
    then show ?thesis using "2.prems" by auto
  next
    case full
    obtain fs' where s: "sweep ok (q - node_qty n) ns = (fs', rest, q')" "fs = (n, node_qty n) # fs'"
      using full "2.prems"(3) by (auto split: prod.splits)
    have "filter (\<lambda>x. node_addr x \<noteq> node_addr n) ns = ns" "filter (\<lambda>x. node_addr x \<noteq> node_addr n) ms = ms"
      using "2.prems"(1) by (auto simp: nodes_ok_def intro!: filter_True) (metis image_eqI)+
    then have "P (om(o_id (node_order n) := None)) (ns @ ms)"
      using remove [OF "2.prems"(2,1), of n] by simp
    moreover have "nodes_ok a (ns @ ms)" using "2.prems"(1) by (simp add: nodes_ok_def)
    ultimately show ?thesis using "2.IH" full s by simp
  next
    case part
    have "fs = [(n, q)]" "rest = shrink n q # ns" using part "2.prems"(3) by auto
    then show ?thesis using "2.prems"(2) part shrunk [of om n "ns @ ms" q] by simp
  qed
qed

lemma sweep_index:
  assumes "nodes_ok a (ns @ ms)" and "index_ok om (ns @ ms)" and "sweep ok q ns = (fs, rest, q')"
  shows "index_ok (forget_filled fs om) (rest @ ms)"
  by (rule sweep_keeps [where P = index_ok, OF _ _ assms])
    (simp add: index_ok_remove, auto simp: index_ok_def located_def)

lemma sweep_indexed:
  assumes "nodes_ok a (ns @ ms)" and "indexed om (ns @ ms)" and "sweep ok q ns = (fs, rest, q')"
  shows "indexed (forget_filled fs om) (rest @ ms)"
  by (rule sweep_keeps [where P = indexed, OF _ _ assms])
    (simp add: indexed_remove, auto simp: indexed_def)

lemma sweep_ids:
  "sweep ok q ns = (fs, rest, q') \<Longrightarrow>
     (\<lambda>n. o_id (node_order n)) ` set rest \<subseteq> (\<lambda>n. o_id (node_order n)) ` set ns"
  by (induction ok q ns arbitrary: fs rest q' rule: sweep.induct)
    (auto simp: Let_def split: if_splits prod.splits)

section \<open>Matching an order\<close>

lemma within_bid_eq: "(\<lambda>p. \<not> bid_nocross ord p) = within_bid ord"
  by (auto simp: bid_nocross_def within_bid_def not_less)

lemma within_ask_eq: "(\<lambda>p. \<not> ask_nocross ord p) = within_ask ord"
  by (auto simp: ask_nocross_def within_ask_def not_less)

definition fill_start :: "nat \<Rightarrow> orderbook \<Rightarrow> order \<Rightarrow> trade list \<Rightarrow> fill" where
  "fill_start t b ord ts =
     \<lparr>remaining_quantity = o_quantity ord, omap = order_map b, trades = ts, ticks = t\<rparr>"

lemma fill_start_simps [simp]:
  "remaining_quantity (fill_start t b ord ts) = o_quantity ord"
  "omap (fill_start t b ord ts) = order_map b"
  "trades (fill_start t b ord ts) = ts" "ticks (fill_start t b ord ts) = t"
  by (simp_all add: fill_start_def)

text \<open>The order that rests when \<open>q\<close> is left after \<open>k\<close> fills.\<close>

definition residual :: "clock \<Rightarrow> nat \<Rightarrow> order \<Rightarrow> nat \<Rightarrow> order" where
  "residual clk t ord q = ord\<lparr>o_timestamp := clk t, o_quantity := of_nat q\<rparr>"

lemma residual_simps [simp]:
  "o_id (residual clk t ord q) = o_id ord" "o_price (residual clk t ord q) = o_price ord"
  "o_side (residual clk t ord q) = o_side ord" "o_type (residual clk t ord q) = o_type ord"
  "o_quantity (residual clk t ord q) = of_nat q"
  by (simp_all add: residual_def)

lemma residual_fields:
  "residual clk t ord q = \<lparr>o_timestamp = clk t, o_id = o_id ord, o_price = o_price ord,
     o_quantity = of_nat q, o_side = o_side ord, o_type = o_type ord\<rparr>"
  by (cases ord) (simp add: residual_def)

lemma residual_valid:
  "order_valid ord \<Longrightarrow> 0 < q \<Longrightarrow> q \<le> unat (o_quantity ord) \<Longrightarrow> order_valid (residual clk t ord q)"
  by (simp add: order_valid_def word_gt_0_unat)

lemma rest_order_ok:
  assumes "order_valid ord" and "q \<le> unat (o_quantity ord)" and "remaining_quantity r = of_nat q"
  shows "rest_order clk ord b r =
    (if 0 < q \<and> o_type ord = LIMIT
     then (None, add_order b (residual clk (ticks r) ord q), r\<lparr>ticks := Suc (ticks r)\<rparr>)
     else (None, b, r))"
proof -
  have "0 < remaining_quantity r \<longleftrightarrow> 0 < q" using assms(2,3) by (simp add: word_gt_0_unat)
  then show ?thesis
    using assms by (auto simp: rest_order_def residual_fields order_valid_def make_order_ok)
qed

lemma match_bid:
  assumes wf: "book_wf b" and v: "order_valid ord" and sd: "o_side ord = BID"
    and sw: "sweep (within_bid ord) (unat (o_quantity ord)) (side_nodes (asks b)) = (fs, rest, q)"
  obtains levels b1 r where "r = after_fills bid_trade clk ord fs q (fill_start t b ord ts)"
    "b1 = b\<lparr>asks := levels, order_map := omap r\<rparr>" "book_wf b1" "side_nodes levels = rest"
    "fst ` set levels \<subseteq> fst ` set (asks b)"
    "match clk t b ord ts = (if 0 < q \<and> o_type ord = LIMIT
       then (None, add_order b1 (residual clk (ticks r) ord q), r\<lparr>ticks := Suc (ticks r)\<rparr>)
       else (None, b1, r))"
proof -
  define r where "r = after_fills bid_trade clk ord fs q (fill_start t b ord ts)"
  obtain levels where m: "match_asks clk ord (asks b) (fill_start t b ord ts) = (None, levels, r)"
    "side_ok (<) ASK levels" "side_nodes levels = rest" "fst ` set levels \<subseteq> fst ` set (asks b)"
    using ask_half.loop_sweep [of "asks b" bid_nocross ord "fill_start t b ord ts" fs rest q bid_trade clk]
      wf sw by (auto simp: book_wf_def match_asks_def within_bid_eq r_def)
  define b1 where "b1 = b\<lparr>asks := levels, order_map := omap r\<rparr>"
  let ?ns = "side_nodes (asks b) @ side_nodes (bids b)"
  have perm: "mset (all_nodes b) = mset ?ns" "mset (all_nodes b1) = mset (rest @ side_nodes (bids b))"
    by (simp_all add: all_nodes_def b1_def m(3) union_commute)
  have n: "nodes_ok (next_addr b) ?ns" and i: "index_ok (order_map b) ?ns"
    using wf nodes_ok_mset [OF perm(1)] index_ok_set [OF mset_eq_setD [OF perm(1)]]
    by (auto simp: book_wf_def)
  have "book_wf b1"
    using sweep_nodes [OF n sw] sweep_index [OF n i sw] nodes_ok_mset [OF perm(2)] m(2) wf
      index_ok_set [OF mset_eq_setD [OF perm(2)]]
    by (auto simp: book_wf_def b1_def r_def)
  moreover have "match clk t b ord ts = rest_order clk ord b1 r"
    using m(1) sd by (simp add: match_def b1_def fill_start_def Let_def)
  ultimately show ?thesis
    using that [OF r_def b1_def _ m(3,4)] rest_order_ok [OF v sweep_left [OF sw], of r clk b1]
    by (simp add: r_def)
qed

lemma match_ask:
  assumes wf: "book_wf b" and v: "order_valid ord" and sd: "o_side ord = ASK"
    and sw: "sweep (within_ask ord) (unat (o_quantity ord)) (side_nodes (bids b)) = (fs, rest, q)"
  obtains levels b1 r where "r = after_fills ask_trade clk ord fs q (fill_start t b ord ts)"
    "b1 = b\<lparr>bids := levels, order_map := omap r\<rparr>" "book_wf b1" "side_nodes levels = rest"
    "fst ` set levels \<subseteq> fst ` set (bids b)"
    "match clk t b ord ts = (if 0 < q \<and> o_type ord = LIMIT
       then (None, add_order b1 (residual clk (ticks r) ord q), r\<lparr>ticks := Suc (ticks r)\<rparr>)
       else (None, b1, r))"
proof -
  define r where "r = after_fills ask_trade clk ord fs q (fill_start t b ord ts)"
  obtain levels where m: "match_bids clk ord (bids b) (fill_start t b ord ts) = (None, levels, r)"
    "side_ok (>) BID levels" "side_nodes levels = rest" "fst ` set levels \<subseteq> fst ` set (bids b)"
    using bid_half.loop_sweep [of "bids b" ask_nocross ord "fill_start t b ord ts" fs rest q ask_trade clk]
      wf sw by (auto simp: book_wf_def match_bids_def within_ask_eq r_def)
  define b1 where "b1 = b\<lparr>bids := levels, order_map := omap r\<rparr>"
  have ns: "all_nodes b = side_nodes (bids b) @ side_nodes (asks b)"
    "all_nodes b1 = rest @ side_nodes (asks b)"
    by (simp_all add: all_nodes_def b1_def m(3))
  have n: "nodes_ok (next_addr b) (side_nodes (bids b) @ side_nodes (asks b))"
    and i: "index_ok (order_map b) (side_nodes (bids b) @ side_nodes (asks b))"
    using wf by (simp_all add: book_wf_def ns(1))
  have "book_wf b1"
    using sweep_nodes [OF n sw] sweep_index [OF n i sw] m(2) wf
    by (simp add: book_wf_def ns(2)) (simp add: b1_def r_def)
  moreover have "match clk t b ord ts = rest_order clk ord b1 r"
    using m(1) sd by (simp add: match_def b1_def fill_start_def Let_def)
  ultimately show ?thesis
    using that [OF r_def b1_def _ m(3,4)] rest_order_ok [OF v sweep_left [OF sw], of r clk b1]
    by (simp add: r_def)
qed

lemma match_other_side:
  "o_side ord \<noteq> BID \<Longrightarrow> o_side ord \<noteq> ASK \<Longrightarrow> match clk t b ord ts = (None, b, fill_start t b ord ts)"
  by (simp add: match_def fill_start_def Let_def)

end
