(* ===== verification/Matching_Props.thy ===== *)
theory Matching_Props
  imports Price_Time
begin

text \<open>
  The properties of the matching engine. \<open>match_summary\<close> gives the effect of a match in terms
  of the priority queues once for both sides; the properties are consequences of it and of facts
  about \<open>spec_sweep\<close>.
\<close>

section \<open>Both sides at once\<close>

definition within :: "order \<Rightarrow> Price \<Rightarrow> bool" where
  "within ord = (if o_side ord = BID then within_bid ord else within_ask ord)"

definition trade_of :: "order \<Rightarrow> trade_maker" where
  "trade_of ord = (if o_side ord = BID then bid_trade else ask_trade)"

definition better :: "order \<Rightarrow> Price \<Rightarrow> Price \<Rightarrow> bool" where
  "better ord = (if o_side ord = BID then (>) else (<))"

definition opposite :: "order \<Rightarrow> orderbook \<Rightarrow> order list" where
  "opposite ord b = (if o_side ord = BID then abs_side (asks b) else abs_side (bids b))"

definition own_side :: "order \<Rightarrow> orderbook \<Rightarrow> order list" where
  "own_side ord b = (if o_side ord = BID then abs_side (bids b) else abs_side (asks b))"

definition maker_id :: "order \<Rightarrow> trade \<Rightarrow> OrderId" where
  "maker_id ord tr = (if o_side ord = BID then seller_order_id tr else buyer_order_id tr)"

definition taker_id :: "order \<Rightarrow> trade \<Rightarrow> OrderId" where
  "taker_id ord tr = (if o_side ord = BID then buyer_order_id tr else seller_order_id tr)"

lemma map_insert_by: "map node_order (insert_by lt n ns) = spec_insert lt (node_order n) (map node_order ns)"
  by (simp add: insert_by_def spec_insert_def takeWhile_map dropWhile_map comp_def)

text \<open>The same two sides as list nodes.\<close>

definition opp_nodes :: "order \<Rightarrow> orderbook \<Rightarrow> lnode list" where
  "opp_nodes ord b = side_nodes (if o_side ord = BID then asks b else bids b)"

definition own_nodes :: "order \<Rightarrow> orderbook \<Rightarrow> lnode list" where
  "own_nodes ord b = side_nodes (if o_side ord = BID then bids b else asks b)"

lemma side_orders: "opposite ord b = map node_order (opp_nodes ord b)" "own_side ord b = map node_order (own_nodes ord b)"
  by (simp_all add: opposite_def own_side_def opp_nodes_def own_nodes_def abs_side_def)

lemma all_nodes_mset: "mset (all_nodes b) = mset (opp_nodes ord b @ own_nodes ord b)"
  by (simp add: all_nodes_def opp_nodes_def own_nodes_def union_commute)

text \<open>The loop of the order's side computes the sweep of the opposite side; then the remainder rests.\<close>

lemma match_nodes:
  assumes wf: "book_wf b" and v: "order_valid ord" and sd: "o_side ord \<in> {BID, ASK}"
    and sw: "sweep (within ord) (unat (o_quantity ord)) (opp_nodes ord b) = (fs, rest, q)"
  obtains b1 r where "r = after_fills (trade_of ord) clk ord fs q (fill_start t b ord ts)" "book_wf b1"
    "opp_nodes ord b1 = rest" "own_nodes ord b1 = own_nodes ord b"
    "order_map b1 = forget_filled fs (order_map b)" "q \<le> unat (o_quantity ord)" "next_addr b1 = next_addr b"
    "match clk t b ord ts = (if 0 < q \<and> o_type ord = LIMIT
       then (None, add_order b1 (residual clk (t + length fs) ord q), r\<lparr>ticks := Suc (ticks r)\<rparr>)
       else (None, b1, r))"
proof (cases "o_side ord = BID")
  case True
  then have "sweep (within_bid ord) (unat (o_quantity ord)) (side_nodes (asks b)) = (fs, rest, q)"
    using sw by (simp add: within_def opp_nodes_def)
  from match_bid [OF wf v True this] sweep_left [OF sw] True show ?thesis
    by (elim meta_allE meta_impE) (auto intro!: that simp: trade_of_def opp_nodes_def own_nodes_def)
next
  case False
  then have A: "o_side ord = ASK" using sd by auto
  then have "sweep (within_ask ord) (unat (o_quantity ord)) (side_nodes (bids b)) = (fs, rest, q)"
    using sw by (simp add: within_def opp_nodes_def)
  from match_ask [OF wf v A this] sweep_left [OF sw] A show ?thesis
    by (elim meta_allE meta_impE) (auto intro!: that simp: trade_of_def opp_nodes_def own_nodes_def)
qed

lemma add_order_sides:
  assumes "book_wf b" and "order_valid ord" and "o_type ord = LIMIT" and "o_side ord \<in> {BID, ASK}"
  shows "own_side ord (add_order b ord) = spec_insert (better ord) ord (own_side ord b)"
    and "opposite ord (add_order b ord) = opposite ord b" and "book_wf (add_order b ord)"
  using assms add_order_bid [OF assms(1-3)] add_order_ask [OF assms(1-3)] add_order_wf [OF assms(1,2)]
  by (auto simp: own_side_def opposite_def abs_side_def better_def map_insert_by)

lemma match_summary:
  assumes wf: "book_wf b" and v: "order_valid ord" and sd: "o_side ord \<in> {BID, ASK}"
  obtains fs rest q b' r where "match clk t b ord ts = (None, b', r)"
    "spec_sweep (within ord) (unat (o_quantity ord)) (opposite ord b) = (fs, rest, q)"
    "trades r = ts @ spec_trades (trade_of ord) clk ord t fs"
    "unat (remaining_quantity r) = q" "opposite ord b' = rest"
    "own_side ord b' = (if 0 < q \<and> o_type ord = LIMIT
       then spec_insert (better ord) (residual clk (t + length fs) ord q) (own_side ord b)
       else own_side ord b)"
    "book_wf b'" "q \<le> unat (o_quantity ord)"
proof -
  obtain fs rest q where sw: "sweep (within ord) (unat (o_quantity ord)) (opp_nodes ord b) = (fs, rest, q)"
    by (metis prod_cases3)
  obtain b1 r where m: "r = after_fills (trade_of ord) clk ord fs q (fill_start t b ord ts)" "book_wf b1"
    "opp_nodes ord b1 = rest" "own_nodes ord b1 = own_nodes ord b"
    "order_map b1 = forget_filled fs (order_map b)" "q \<le> unat (o_quantity ord)"
    "match clk t b ord ts = (if 0 < q \<and> o_type ord = LIMIT
       then (None, add_order b1 (residual clk (t + length fs) ord q), r\<lparr>ticks := Suc (ticks r)\<rparr>)
       else (None, b1, r))"
    by (rule match_nodes [OF wf v sd sw])
  let ?new = "residual clk (t + length fs) ord q" and ?rests = "0 < q \<and> o_type ord = LIMIT"
  have same: "own_side ?new = own_side ord" "opposite ?new = opposite ord" "better ?new = better ord"
    by (simp_all add: fun_eq_iff own_side_def opposite_def better_def)
  have new: "own_side ord (add_order b1 ?new) = spec_insert (better ord) ?new (own_side ord b1)"
    "opposite ord (add_order b1 ?new) = opposite ord b1" "book_wf (add_order b1 ?new)" if ?rests
    using add_order_sides [OF m(2) residual_valid [OF v _ m(6)], of clk "t + length fs"] that sd by (simp_all add: same)
  show ?thesis
  proof (rule that [of "if ?rests then add_order b1 ?new else b1" "if ?rests then r\<lparr>ticks := Suc (ticks r)\<rparr> else r"
        "fill_orders fs" "map node_order rest" q])
    show "spec_sweep (within ord) (unat (o_quantity ord)) (opposite ord b) = (fill_orders fs, map node_order rest, q)"
      using sweep_spec [OF sw] by (simp add: side_orders)
  qed (use m new in \<open>auto simp: side_orders\<close>)
qed

lemma match_no_exception:
  assumes "book_wf b" and "order_valid ord"
  obtains b' r where "match clk t b ord ts = (None, b', r)" "book_wf b'"
proof (cases "o_side ord \<in> {BID, ASK}")
  case True
  then show ?thesis using that match_summary [OF assms True] by metis
next
  case False
  then show ?thesis using that match_other_side [of ord clk t b ts] assms(1) by auto
qed

section \<open>Facts about the specification\<close>

abbreviation depth :: "order list \<Rightarrow> nat" where
  "depth xs \<equiv> sum_list (map (\<lambda>x. unat (o_quantity x)) xs)"

abbreviation filled :: "(order \<times> nat) list \<Rightarrow> nat" where
  "filled fs \<equiv> sum_list (map snd fs)"

lemma spec_sweep_conserves:
  "spec_sweep ok q xs = (fs, rest, q') \<Longrightarrow> filled fs + q' = q \<and> depth xs = filled fs + depth rest"
  by (induction ok q xs arbitrary: fs rest q' rule: spec_sweep.induct)
    (force simp: Let_def split: if_splits prod.splits)+

lemma spec_sweep_fills:
  "spec_sweep ok q xs = (fs, rest, q') \<Longrightarrow> (x, f) \<in> set fs \<Longrightarrow>
     x \<in> set xs \<and> ok (o_price x) \<and> f \<le> unat (o_quantity x) \<and> f \<le> q"
  by (induction ok q xs arbitrary: fs rest q' rule: spec_sweep.induct)
    (force simp: Let_def split: if_splits prod.splits)+

lemma spec_sweep_prefix:
  "spec_sweep ok q xs = (fs, rest, q') \<Longrightarrow> map fst fs = take (length fs) xs"
  by (induction ok q xs arbitrary: fs rest q' rule: spec_sweep.induct)
    (auto simp: Let_def split: if_splits prod.splits)

text \<open>Every fill but the last takes the whole order.\<close>

lemma spec_sweep_full:
  "spec_sweep ok q xs = (fs, rest, q') \<Longrightarrow> Suc i < length fs \<Longrightarrow>
     snd (fs ! i) = unat (o_quantity (fst (fs ! i)))"
  by (induction ok q xs arbitrary: fs rest q' i rule: spec_sweep.induct)
    (auto simp: Let_def nth_Cons' split: if_splits prod.splits)

lemma spec_sweep_exhausts:
  "spec_sweep ok q xs = (fs, rest, q') \<Longrightarrow> 0 < q' \<Longrightarrow> rest = [] \<or> \<not> ok (o_price (hd rest))"
  by (induction ok q xs arbitrary: fs rest q' rule: spec_sweep.induct)
    (auto simp: Let_def split: if_splits prod.splits)

lemma spec_sweep_rest_prices:
  "spec_sweep ok q xs = (fs, rest, q') \<Longrightarrow> o_price ` set rest \<subseteq> o_price ` set xs"
  by (induction ok q xs arbitrary: fs rest q' rule: spec_sweep.induct)
    (auto simp: Let_def split: if_splits prod.splits)

lemma length_spec_trades [simp]: "length (spec_trades mk clk ord t fs) = length fs"
  by (induction mk clk ord t fs rule: spec_trades.induct) auto

lemma spec_trades_nth:
  "i < length fs \<Longrightarrow> spec_trades mk clk ord t fs ! i =
     mk ord (o_price (fst (fs ! i))) (fst (fs ! i)) (of_nat (snd (fs ! i))) (clk (t + i))"
  by (induction mk clk ord t fs arbitrary: i rule: spec_trades.induct) (auto simp: nth_Cons')

lemma trade_of_simps [simp]:
  "t_price (trade_of ord ord p x q now) = p" "t_quantity (trade_of ord ord p x q now) = q"
  "maker_id ord (trade_of ord ord p x q now) = o_id x" "taker_id ord (trade_of ord ord p x q now) = o_id ord"
  "t_timestamp (trade_of ord ord p x q now) = now"
  by (simp_all add: trade_of_def bid_trade_def ask_trade_def maker_id_def taker_id_def)

lemma queue_sorted_asks: "side_ok (<) ASK m \<Longrightarrow> sorted (map o_price (abs_side m))"
proof (induction m)
  case (Cons e m)
  obtain p l where e: "e = (p, l)" by (cases e)
  have "sorted (map (\<lambda>n. o_price (node_order n)) l)"
    if "\<forall>n \<in> set l. resting_ok ASK p (node_order n)"
    using that by (induction l) (auto simp: resting_ok_def)
  then show ?case
    using Cons ask_half.node_prices_above [of m p]
    by (auto simp: e ask_half.side_ok_Cons abs_side_def sorted_append resting_ok_def comp_def less_imp_le)
qed (simp add: abs_side_def)

lemma queue_sorted_bids: "side_ok (>) BID m \<Longrightarrow> sorted_wrt (\<ge>) (map o_price (abs_side m))"
proof (induction m)
  case (Cons e m)
  obtain p l where e: "e = (p, l)" by (cases e)
  have "sorted_wrt (\<ge>) (map (\<lambda>n. o_price (node_order n)) l)"
    if "\<forall>n \<in> set l. resting_ok BID p (node_order n)"
    using that by (induction l) (auto simp: resting_ok_def)
  then show ?case
    using Cons bid_half.node_prices_above [of m p]
    by (auto simp: e bid_half.side_ok_Cons abs_side_def sorted_wrt_append resting_ok_def comp_def less_imp_le)
qed (simp add: abs_side_def)

lemma spec_sweep_positive:
  "spec_sweep ok q xs = (fs, rest, q') \<Longrightarrow> \<forall>x \<in> set xs. 0 < o_quantity x \<Longrightarrow> (x, f) \<in> set fs \<Longrightarrow> 0 < f"
  by (induction ok q xs arbitrary: fs rest q' rule: spec_sweep.induct)
    (force simp: Let_def word_gt_0_unat split: if_splits prod.splits)+

lemma opposite_resting:
  assumes "book_wf b" and "x \<in> set (opposite ord b)"
  shows "order_valid x" "o_type x = LIMIT"
  using assms bid_half.side_ok_node [of "bids b"] ask_half.side_ok_node [of "asks b"]
  by (auto simp: opposite_def abs_side_def book_wf_def resting_ok_def split: if_splits)

lemma traded_quantity:
  "spec_sweep ok q xs = (fs, rest, q') \<Longrightarrow>
     sum_list (map (\<lambda>tr. unat (t_quantity tr)) (spec_trades (trade_of ord) clk ord t fs)) = filled fs"
proof -
  assume "spec_sweep ok q xs = (fs, rest, q')"
  then have "\<forall>(x, f) \<in> set fs. f \<le> unat (o_quantity x)" using spec_sweep_fills by blast
  then show ?thesis by (induction "trade_of ord" clk ord t fs rule: spec_trades.induct) auto
qed

lemma depth_spec_insert [simp]: "depth (spec_insert lt x xs) = unat (o_quantity x) + depth xs"
proof -
  have "depth xs = depth (takeWhile P xs @ dropWhile P xs)" for P by (simp only: takeWhile_dropWhile_id)
  then show ?thesis by (simp add: spec_insert_def del: takeWhile_dropWhile_id)
qed

section \<open>A sample book\<close>

text \<open>Three resting asks, two at price 100 and one at 101, for the witnesses below.\<close>

definition limit_order :: "OrderId \<Rightarrow> Price \<Rightarrow> Quantity \<Rightarrow> Side \<Rightarrow> order" where
  "limit_order oid p q s =
     \<lparr>o_timestamp = 0, o_id = oid, o_price = p, o_quantity = q, o_side = s, o_type = LIMIT\<rparr>"

definition market_order :: "OrderId \<Rightarrow> Quantity \<Rightarrow> Side \<Rightarrow> order" where
  "market_order oid q s =
     \<lparr>o_timestamp = 0, o_id = oid, o_price = 0, o_quantity = q, o_side = s, o_type = MARKET\<rparr>"

definition sample_book :: orderbook where
  "sample_book = add_order (add_order (add_order empty_book (limit_order 1 100 50 ASK))
     (limit_order 2 100 50 ASK)) (limit_order 3 101 50 ASK)"

definition sample_clock :: clock where
  "sample_clock n = of_nat n"

lemma limit_order_simps [simp]:
  "o_id (limit_order oid p q s) = oid" "o_price (limit_order oid p q s) = p"
  "o_quantity (limit_order oid p q s) = q" "o_side (limit_order oid p q s) = s"
  "o_type (limit_order oid p q s) = LIMIT" "o_timestamp (limit_order oid p q s) = 0"
  by (simp_all add: limit_order_def)

lemma market_order_simps [simp]:
  "o_id (market_order oid q s) = oid" "o_price (market_order oid q s) = 0"
  "o_quantity (market_order oid q s) = q" "o_side (market_order oid q s) = s"
  "o_type (market_order oid q s) = MARKET"
  by (simp_all add: market_order_def)

lemma limit_order_valid [simp]: "order_valid (limit_order oid p q s) \<longleftrightarrow> 0 < p \<and> 0 < q"
  by (auto simp: limit_order_def order_valid_def)

lemma market_order_valid [simp]: "order_valid (market_order oid q s) \<longleftrightarrow> 0 < q"
  by (auto simp: market_order_def order_valid_def)

lemma sample_book_wf: "book_wf sample_book"
  by (simp add: sample_book_def add_order_wf empty_book_wf)

lemma sample_book_eq:
  "sample_book = \<lparr>bids = [], asks =
      [(100, [\<lparr>node_addr = 0, node_order = limit_order 1 100 50 ASK\<rparr>,
              \<lparr>node_addr = 1, node_order = limit_order 2 100 50 ASK\<rparr>]),
       (101, [\<lparr>node_addr = Suc (Suc 0), node_order = limit_order 3 101 50 ASK\<rparr>])],
     order_map = [1 \<mapsto> \<lparr>loc_side = ASK, loc_price = 100, list_position = 0\<rparr>,
       2 \<mapsto> \<lparr>loc_side = ASK, loc_price = 100, list_position = 1\<rparr>,
       3 \<mapsto> \<lparr>loc_side = ASK, loc_price = 101, list_position = Suc (Suc 0)\<rparr>],
     next_addr = Suc (Suc (Suc 0))\<rparr>"
  by (simp add: sample_book_def add_order_def empty_book_def limit_order_def Let_def map_at_def)

lemma sample_book_sides:
  "abs_side (bids sample_book) = []"
  "abs_side (asks sample_book) =
     [limit_order 1 100 50 ASK, limit_order 2 100 50 ASK, limit_order 3 101 50 ASK]"
  by (simp_all add: sample_book_eq abs_side_def)

definition sample_bid :: order where
  "sample_bid = limit_order 4 101 130 BID"

lemma sample_bid_valid: "order_valid sample_bid" and sample_bid_side: "o_side sample_bid = BID"
  by (simp_all add: sample_bid_def)

lemma sample_sweep:
  "spec_sweep (within sample_bid) (unat (o_quantity sample_bid)) (abs_side (asks sample_book)) =
     ([(limit_order 1 100 50 ASK, 50), (limit_order 2 100 50 ASK, 50), (limit_order 3 101 50 ASK, 30)],
      [limit_order 3 101 20 ASK], 0)"
  by (simp add: sample_book_sides within_def within_bid_def limit_order_def sample_bid_def)

lemma sample_spec_match:
  "spec_match sample_clock 0 (abs_book sample_book) sample_bid = (ts, qs, q) \<longleftrightarrow>
     ts = spec_trades bid_trade sample_clock sample_bid 0 [(limit_order 1 100 50 ASK, 50),
       (limit_order 2 100 50 ASK, 50), (limit_order 3 101 50 ASK, 30)]
     \<and> qs = \<lparr>bid_queue = [], ask_queue = [limit_order 3 101 20 ASK]\<rparr> \<and> q = 0"
  using sample_sweep
  by (auto simp: spec_match_def abs_book_def sample_bid_side within_def sample_book_sides(1))

lemma sample_trades:
  "map t_quantity (spec_trades bid_trade sample_clock sample_bid 0 [(limit_order 1 100 50 ASK, 50),
     (limit_order 2 100 50 ASK, 50), (limit_order 3 101 50 ASK, 30)]) = [50, 50, 30]"
  "map t_price (spec_trades bid_trade sample_clock sample_bid 0 [(limit_order 1 100 50 ASK, 50),
     (limit_order 2 100 50 ASK, 50), (limit_order 3 101 50 ASK, 30)]) = [100, 100, 101]"
  by (simp_all add: bid_trade_def limit_order_def)

text \<open>The match of the sample order against the sample book, computed through the specification.\<close>

lemma sample_match:
  "trades (snd (snd (match sample_clock 0 sample_book sample_bid []))) =
     spec_trades bid_trade sample_clock sample_bid 0 [(limit_order 1 100 50 ASK, 50),
       (limit_order 2 100 50 ASK, 50), (limit_order 3 101 50 ASK, 30)]"
proof -
  have sd: "o_side sample_bid \<in> {BID, ASK}" by (simp add: sample_bid_side)
  obtain fs rest q b' r where m: "match sample_clock 0 sample_book sample_bid [] = (None, b', r)"
    "spec_sweep (within sample_bid) (unat (o_quantity sample_bid)) (opposite sample_bid sample_book) = (fs, rest, q)"
    "trades r = [] @ spec_trades (trade_of sample_bid) sample_clock sample_bid 0 fs"
    by (rule match_summary [OF sample_book_wf sample_bid_valid sd])
  then show ?thesis
    using sample_sweep by (simp add: opposite_def sample_bid_side trade_of_def)
qed

section \<open>The refinement\<close>

lemma match_spec:
  assumes "book_wf b" and "order_valid ord"
  shows "case match clk t b ord ts of (e, b', r) \<Rightarrow>
    e = None \<and> take (length ts) (trades r) = ts \<and>
    spec_match clk t (abs_book b) ord =
      (drop (length ts) (trades r), abs_book b', unat (remaining_quantity r))"
proof (cases "o_side ord \<in> {BID, ASK}")
  case True
  obtain fs rest q b' r where m: "match clk t b ord ts = (None, b', r)"
    "spec_sweep (within ord) (unat (o_quantity ord)) (opposite ord b) = (fs, rest, q)"
    "trades r = ts @ spec_trades (trade_of ord) clk ord t fs"
    "unat (remaining_quantity r) = q" "opposite ord b' = rest"
    "own_side ord b' = (if 0 < q \<and> o_type ord = LIMIT
       then spec_insert (better ord) (residual clk (t + length fs) ord q) (own_side ord b)
       else own_side ord b)"
    by (rule match_summary [OF assms True])
  show ?thesis
    using m True
    by (auto simp: spec_match_def abs_book_def within_def opposite_def own_side_def trade_of_def
        better_def residual_def)
next
  case False
  then show ?thesis
    using match_other_side [of ord clk t b ts] by (auto simp: spec_match_def)
qed

section \<open>Properties\<close>

text \<open>
  C1: Matching refines price-time priority. On a well-formed book and a valid order,
  \<^verbatim>\<open>MatchingEngine::match\<close> returns without an exception; the trades it appends, the two priority
  queues of the resulting book and the quantity left over are those of the specification
  \<open>spec_match\<close>, and the trades that were in the output vector stay in front.
\<close>

theorem match_refines_price_time:
  assumes "book_wf b" and "order_valid ord"
  shows "case match clk t b ord ts of (e, b', r) \<Rightarrow>
    e = None \<and> take (length ts) (trades r) = ts \<and>
    spec_match clk t (abs_book b) ord =
      (drop (length ts) (trades r), abs_book b', unat (remaining_quantity r))"
  by (rule match_spec [OF assms])

theorem match_refines_price_time_witness:
  "book_wf sample_book \<and> order_valid sample_bid \<and>
   (case match sample_clock 0 sample_book sample_bid [] of (e, b', r) \<Rightarrow>
      e = None \<and> map t_quantity (trades r) = [50, 50, 30] \<and> map t_price (trades r) = [100, 100, 101]
      \<and> bid_queue (abs_book b') = [] \<and> ask_queue (abs_book b') = [limit_order 3 101 20 ASK])"
proof -
  obtain e b' r where m: "match sample_clock 0 sample_book sample_bid [] = (e, b', r)"
    by (metis prod_cases3)
  have "e = None \<and> spec_match sample_clock 0 (abs_book sample_book) sample_bid =
      (trades r, abs_book b', unat (remaining_quantity r))"
    using match_refines_price_time [OF sample_book_wf sample_bid_valid, where clk = sample_clock
        and t = 0 and ts = "[]"] by (simp add: m)
  then show ?thesis
    using sample_book_wf sample_bid_valid by (auto simp: m sample_spec_match sample_trades simp del: spec_trades.simps)
qed

text \<open>
  C11: Quantity is conserved. The quantities of the new trades and the quantity left over add up to
  the order's quantity, as natural numbers, so nothing wraps; the opposite side loses exactly what
  was traded, and the order's own side gains exactly what a limit order has left.
\<close>

theorem match_conserves_quantity:
  assumes "book_wf b" and "order_valid ord" and "o_side ord \<in> {BID, ASK}"
    and "match clk t b ord ts = (e, b', r)"
  shows "let traded = sum_list (map (\<lambda>tr. unat (t_quantity tr)) (drop (length ts) (trades r)));
             left = unat (remaining_quantity r)
         in traded + left = unat (o_quantity ord)
          \<and> depth (opposite ord b) = traded + depth (opposite ord b')
          \<and> depth (own_side ord b') = depth (own_side ord b) + (if o_type ord = LIMIT then left else 0)"
proof -
  obtain fs rest q b1 r1 where m: "match clk t b ord ts = (None, b1, r1)"
    "spec_sweep (within ord) (unat (o_quantity ord)) (opposite ord b) = (fs, rest, q)"
    "trades r1 = ts @ spec_trades (trade_of ord) clk ord t fs"
    "unat (remaining_quantity r1) = q" "opposite ord b1 = rest"
    "own_side ord b1 = (if 0 < q \<and> o_type ord = LIMIT
       then spec_insert (better ord) (residual clk (t + length fs) ord q) (own_side ord b)
       else own_side ord b)" "book_wf b1" "q \<le> unat (o_quantity ord)"
    by (rule match_summary [OF assms(1-3)])
  have "b1 = b'" "r1 = r" using m(1) assms(4) by auto
  then show ?thesis
    using m(3-6,8) spec_sweep_conserves [OF m(2)] traded_quantity [OF m(2), of ord clk t]
    by (auto simp: Let_def)
qed

theorem match_conserves_quantity_witness:
  "let (e, b', r) = match sample_clock 0 sample_book sample_bid []
   in sum_list (map (\<lambda>tr. unat (t_quantity tr)) (trades r)) + unat (remaining_quantity r) = 130
    \<and> 150 = sum_list (map (\<lambda>tr. unat (t_quantity tr)) (trades r)) + depth (abs_side (asks b'))"
proof -
  obtain e b' r where m: "match sample_clock 0 sample_book sample_bid [] = (e, b', r)"
    by (metis prod_cases3)
  have "o_side sample_bid \<in> {BID, ASK}" by (simp add: sample_bid_side)
  from match_conserves_quantity [OF sample_book_wf sample_bid_valid this m]
  show ?thesis
    by (simp add: m Let_def opposite_def sample_bid_side sample_book_sides)
      (simp add: sample_bid_def limit_order_def)
qed

text \<open>
  C19: No trade is worse than the limit, and every trade is at the resting order's price. Each new
  trade names the incoming order as its taker and an order that rested on the opposite side as its
  maker, is made at the maker's price, fills a positive quantity that neither of the two exceeds,
  and for a limit order is at the limit price or better.
\<close>

theorem match_respects_limit:
  assumes "book_wf b" and "order_valid ord" and "o_side ord \<in> {BID, ASK}"
    and "match clk t b ord ts = (e, b', r)" and "tr \<in> set (drop (length ts) (trades r))"
  shows "taker_id ord tr = o_id ord
    \<and> (\<exists>x \<in> set (opposite ord b). maker_id ord tr = o_id x \<and> t_price tr = o_price x
         \<and> t_quantity tr \<le> o_quantity x)
    \<and> 0 < t_quantity tr \<and> t_quantity tr \<le> o_quantity ord
    \<and> (o_type ord = LIMIT \<longrightarrow>
         (if o_side ord = BID then t_price tr \<le> o_price ord else o_price ord \<le> t_price tr))"
proof -
  obtain fs rest q b1 r1 where m: "match clk t b ord ts = (None, b1, r1)"
    "spec_sweep (within ord) (unat (o_quantity ord)) (opposite ord b) = (fs, rest, q)"
    "trades r1 = ts @ spec_trades (trade_of ord) clk ord t fs"
    by (rule match_summary [OF assms(1-3)])
  have "r1 = r" using m(1) assms(4) by simp
  then obtain i where i: "i < length fs" "tr = spec_trades (trade_of ord) clk ord t fs ! i"
    using assms(5) m(3) by (auto simp: in_set_conv_nth)
  obtain x f where xf: "fs ! i = (x, f)" by (cases "fs ! i")
  then have mem: "(x, f) \<in> set fs" using i(1) nth_mem [of i fs] by simp
  have tr: "tr = trade_of ord ord (o_price x) x (of_nat f) (clk (t + i))"
    using i by (simp add: spec_trades_nth xf)
  have f: "x \<in> set (opposite ord b)" "within ord (o_price x)" "f \<le> unat (o_quantity x)"
    "f \<le> unat (o_quantity ord)"
    using spec_sweep_fills [OF m(2) mem] by auto
  have "0 < f"
    using spec_sweep_positive [OF m(2) _ mem] opposite_resting [OF assms(1)]
    by (auto simp: order_valid_def)
  then show ?thesis
    using f by (auto simp: tr within_def within_bid_def within_ask_def word_gt_0_unat word_le_nat_alt)
qed

theorem match_respects_limit_witness:
  "let tr = hd (trades (snd (snd (match sample_clock 0 sample_book sample_bid []))))
   in 0 < t_quantity tr \<and> t_price tr \<le> 101 \<and> buyer_order_id tr = 4"
proof -
  obtain e b' r where m: "match sample_clock 0 sample_book sample_bid [] = (e, b', r)"
    by (metis prod_cases3)
  have sd: "o_side sample_bid \<in> {BID, ASK}" by (simp add: sample_bid_side)
  have "hd (trades r) \<in> set (drop (length []) (trades r))"
    using sample_match by (simp add: m)
  from match_respects_limit [OF sample_book_wf sample_bid_valid sd m this] show ?thesis
    by (simp add: m Let_def sample_bid_side taker_id_def) (simp add: sample_bid_def limit_order_def)
qed

text \<open>
  Price-time priority of the fills. The makers of the new trades are the first orders of the
  opposite queue, one after the other: the \<open>i\<close>-th trade is against the \<open>i\<close>-th order in priority,
  and only the last one can leave its maker with quantity. The queue is sorted by price, best first.
\<close>

lemma match_fills_in_priority_order:
  assumes "book_wf b" and "order_valid ord" and "o_side ord \<in> {BID, ASK}"
    and "match clk t b ord ts = (e, b', r)"
  shows "let new = drop (length ts) (trades r); queue = opposite ord b
    in length new \<le> length queue
     \<and> (\<forall>i < length new. maker_id ord (new ! i) = o_id (queue ! i) \<and> t_price (new ! i) = o_price (queue ! i))
     \<and> (\<forall>i < length new - 1. t_quantity (new ! i) = o_quantity (queue ! i))
     \<and> sorted_wrt (if o_side ord = BID then (\<le>) else (\<ge>)) (map o_price queue)"
proof -
  obtain fs rest q b1 r1 where m: "match clk t b ord ts = (None, b1, r1)"
    "spec_sweep (within ord) (unat (o_quantity ord)) (opposite ord b) = (fs, rest, q)"
    "trades r1 = ts @ spec_trades (trade_of ord) clk ord t fs"
    by (rule match_summary [OF assms(1-3)])
  have new: "drop (length ts) (trades r) = spec_trades (trade_of ord) clk ord t fs"
    using m(1,3) assms(4) by simp
  have pre: "map fst fs = take (length fs) (opposite ord b)" by (rule spec_sweep_prefix [OF m(2)])
  then have len: "length fs \<le> length (opposite ord b)"
    by (metis length_map length_take min.absorb_iff2 min.commute)
  have nth: "fst (fs ! i) = opposite ord b ! i" if "i < length fs" for i
    using that arg_cong [OF pre, of "\<lambda>xs. xs ! i"] by simp
  have "sorted_wrt (if o_side ord = BID then (\<le>) else (\<ge>)) (map o_price (opposite ord b))"
    using assms(1,3) queue_sorted_asks queue_sorted_bids by (auto simp: opposite_def book_wf_def)
  then show ?thesis
    using len spec_sweep_full [OF m(2)] by (simp add: new Let_def spec_trades_nth nth)
qed

text \<open>
  What rests after a match. Quantity is left over only when the opposite side has nothing more
  within the limit: it is empty, or its best order is beyond the limit of the limit order. The own
  side changes only then and only for a limit order: the rest is inserted behind every order at
  least as good. So a market order never rests.
\<close>

lemma match_rests_only_unmatchable:
  assumes "book_wf b" and "order_valid ord" and "o_side ord \<in> {BID, ASK}"
    and "match clk t b ord ts = (e, b', r)"
  shows "let left = unat (remaining_quantity r)
    in (0 < left \<longrightarrow> opposite ord b' = [] \<or> \<not> within ord (o_price (hd (opposite ord b'))))
     \<and> own_side ord b' =
         (if 0 < left \<and> o_type ord = LIMIT
          then spec_insert (better ord)
                 (residual clk (t + length (trades r) - length ts) ord left) (own_side ord b)
          else own_side ord b)"
proof -
  obtain fs rest q b1 r1 where m: "match clk t b ord ts = (None, b1, r1)"
    "spec_sweep (within ord) (unat (o_quantity ord)) (opposite ord b) = (fs, rest, q)"
    "trades r1 = ts @ spec_trades (trade_of ord) clk ord t fs"
    "unat (remaining_quantity r1) = q" "opposite ord b1 = rest"
    "own_side ord b1 = (if 0 < q \<and> o_type ord = LIMIT
       then spec_insert (better ord) (residual clk (t + length fs) ord q) (own_side ord b)
       else own_side ord b)"
    by (rule match_summary [OF assms(1-3)])
  have "b1 = b'" "r1 = r" using m(1) assms(4) by auto
  then show ?thesis using m(3-6) spec_sweep_exhausts [OF m(2)] by (auto simp: Let_def)
qed

section \<open>The book stays uncrossed\<close>

lemma level_keys:
  assumes "side_ok (<) ASK m \<or> side_ok (>) BID m"
  shows "fst ` set m = o_price ` set (abs_side m)"
proof -
  have lv: "snd e \<noteq> []" "\<And>n. n \<in> set (snd e) \<Longrightarrow> o_price (node_order n) = fst e" if "e \<in> set m" for e
    using assms that by (auto simp: side_ok_def resting_ok_def)
  show ?thesis
  proof (intro equalityI subsetI)
    fix p assume "p \<in> fst ` set m"
    then obtain e where e: "e \<in> set m" "p = fst e" by auto
    obtain n where "n \<in> set (snd e)" using lv(1) [OF e(1)] by (cases "snd e") auto
    then have "n \<in> set (side_nodes m)" "o_price (node_order n) = p"
      using lv(2) [OF e(1)] e by (auto simp: set_side_nodes)
    then show "p \<in> o_price ` set (abs_side m)" by (force simp: abs_side_def)
  next
    fix p assume "p \<in> o_price ` set (abs_side m)"
    then obtain e n where "e \<in> set m" "n \<in> set (snd e)" "p = o_price (node_order n)"
      by (auto simp: abs_side_def set_side_nodes)
    then show "p \<in> fst ` set m" using lv by auto
  qed
qed

lemma uncrossed_queues:
  "book_wf b \<Longrightarrow> uncrossed b \<longleftrightarrow>
     (\<forall>x \<in> set (abs_side (bids b)). \<forall>y \<in> set (abs_side (asks b)). o_price x < o_price y)"
proof -
  assume "book_wf b"
  then have "fst ` set (bids b) = o_price ` set (abs_side (bids b))"
    "fst ` set (asks b) = o_price ` set (abs_side (asks b))"
    using level_keys by (auto simp: book_wf_def)
  moreover have "uncrossed b \<longleftrightarrow> (\<forall>p \<in> fst ` set (bids b). \<forall>k \<in> fst ` set (asks b). p < k)"
    by (simp add: uncrossed_def)
  ultimately show ?thesis by simp
qed

lemma set_spec_insert [simp]: "set (spec_insert lt x xs) = insert x (set xs)"
proof -
  have "set (takeWhile P xs) \<union> set (dropWhile P xs) = set xs" for P
    by (metis set_append takeWhile_dropWhile_id)
  then show ?thesis by (simp add: spec_insert_def)
qed

lemma sorted_hd_le: "sorted_wrt R (map f xs) \<Longrightarrow> reflp R \<Longrightarrow> x \<in> set xs \<Longrightarrow> R (f (hd xs)) (f x)"
  by (cases xs) (auto simp: reflp_def)

text \<open>\<open>apart ord p k\<close>: a price \<open>p\<close> on the order's own side does not reach \<open>k\<close> on the opposite side.\<close>

definition apart :: "order \<Rightarrow> Price \<Rightarrow> Price \<Rightarrow> bool" where
  "apart ord p k \<longleftrightarrow> (if o_side ord = BID then p < k else k < p)"

lemma uncrossed_apart:
  "book_wf b \<Longrightarrow> o_side ord \<in> {BID, ASK} \<Longrightarrow> uncrossed b \<longleftrightarrow>
     (\<forall>x \<in> set (own_side ord b). \<forall>y \<in> set (opposite ord b). apart ord (o_price x) (o_price y))"
  by (auto simp: uncrossed_queues own_side_def opposite_def apart_def)

lemma beyond_limit: "\<not> within ord k \<Longrightarrow> apart ord (o_price ord) k"
  by (auto simp: within_def within_bid_def within_ask_def apart_def not_le split: if_splits)

text \<open>When quantity is left over, the whole opposite side is beyond the limit.\<close>

lemma rest_beyond_limit:
  assumes "spec_sweep (within ord) n (opposite ord b) = (fs, opposite ord b', q)" and "book_wf b'"
    and "0 < q" and "y \<in> set (opposite ord b')"
  shows "\<not> within ord (o_price y)"
proof -
  have "sorted (map o_price (abs_side (asks b')))" "sorted_wrt (\<ge>) (map o_price (abs_side (bids b')))"
    using assms(2) queue_sorted_asks queue_sorted_bids by (auto simp: book_wf_def)
  note le = sorted_hd_le [OF this(1), of y] sorted_hd_le [OF this(2), of y]
  have "\<not> within ord (o_price (hd (opposite ord b')))" using spec_sweep_exhausts [OF assms(1,3)] assms(4) by auto
  then show ?thesis
    using assms(4) le by (auto simp: within_def within_bid_def within_ask_def opposite_def reflp_def split: if_splits)
qed

lemma match_uncrossed:
  assumes "book_wf b" and "uncrossed b" and "order_valid ord" and "match clk t b ord ts = (e, b', r)"
  shows "uncrossed b'"
proof (cases "o_side ord \<in> {BID, ASK}")
  case False
  then show ?thesis using assms(2,4) match_other_side [of ord clk t b ts] by simp
next
  case True
  obtain fs rest q b1 r1 where m: "match clk t b ord ts = (None, b1, r1)"
    "spec_sweep (within ord) (unat (o_quantity ord)) (opposite ord b) = (fs, rest, q)" "opposite ord b1 = rest"
    "own_side ord b1 = (if 0 < q \<and> o_type ord = LIMIT
       then spec_insert (better ord) (residual clk (t + length fs) ord q) (own_side ord b)
       else own_side ord b)" "book_wf b1"
    by (rule match_summary [OF assms(1,3) True])
  have "apart ord (o_price x) (o_price y)" if x: "x \<in> set (own_side ord b1)" and y: "y \<in> set (opposite ord b1)" for x y
  proof -
    consider "x \<in> set (own_side ord b)" | "0 < q" "o_price x = o_price ord"
      using x m(4) by (auto split: if_splits)
    then show ?thesis
    proof cases
      case 1
      obtain y0 where "y0 \<in> set (opposite ord b)" "o_price y0 = o_price y"
        using y spec_sweep_rest_prices [OF m(2)] m(3) by force
      then show ?thesis using 1 uncrossed_apart [OF assms(1) True] assms(2) by metis
    next
      case 2
      then show ?thesis using beyond_limit rest_beyond_limit [OF m(2) [folded m(3)] m(5) 2(1) y] by metis
    qed
  qed
  then show ?thesis using uncrossed_apart [OF m(5) True] m(1) assms(4) by auto
qed

end
