(* ===== verification/Book_Reach.thy ===== *)
theory Book_Reach
  imports Matching_Props
begin

text \<open>
  The books that the exchange can reach. The processing thread changes the book in two ways only,
  by matching an order that the constructor accepted and by cancelling an id; \<open>book_reach\<close> is the
  set of books that any sequence of these operations reaches from the empty book, for any clock and
  any order ids, repeated ones included. \<open>fresh_reach\<close> restricts it to runs in which an order's
  id is not the id of a resting order.
\<close>

section \<open>Reachable books\<close>

inductive book_reach :: "orderbook \<Rightarrow> bool" where
  start: "book_reach empty_book"
| submit: "book_reach b \<Longrightarrow> order_valid ord \<Longrightarrow> match clk t b ord ts = (e, b', r) \<Longrightarrow> book_reach b'"
| cancel: "book_reach b \<Longrightarrow> cancel_order b oid = Inr b' \<Longrightarrow> book_reach b'"

inductive fresh_reach :: "orderbook \<Rightarrow> bool" where
  fresh_start: "fresh_reach empty_book"
| fresh_submit: "fresh_reach b \<Longrightarrow> order_valid ord \<Longrightarrow> o_id ord \<notin> resting_ids b \<Longrightarrow>
     match clk t b ord ts = (e, b', r) \<Longrightarrow> fresh_reach b'"
| fresh_cancel: "fresh_reach b \<Longrightarrow> cancel_order b oid = Inr b' \<Longrightarrow> fresh_reach b'"

section \<open>Lemmas\<close>

lemma match_wf:
  assumes "book_wf b" and "order_valid ord" and "match clk t b ord ts = (e, b', r)"
  shows "book_wf b'"
  using match_no_exception [OF assms(1,2), of clk t ts] assms(3) by auto

lemma empty_book_uncrossed: "uncrossed empty_book"
  by (simp add: uncrossed_def empty_book_def)

lemma cancel_uncrossed:
  assumes wf: "book_wf b" and u: "uncrossed b" and c: "cancel_order b oid = Inr b'"
  shows "uncrossed b'"
proof -
  obtain loc where "order_map b oid = Some loc"
    using c by (cases "order_map b oid") (simp_all add: cancel_order_def)
  then obtain b1 n where "cancel_order b oid = Inr b1"
    "fst ` set (bids b1) \<subseteq> fst ` set (bids b)" "fst ` set (asks b1) \<subseteq> fst ` set (asks b)"
    by (rule cancel_order_found [OF wf])
  then have sub: "fst ` set (bids b') \<subseteq> fst ` set (bids b)" "fst ` set (asks b') \<subseteq> fst ` set (asks b)"
    using c by auto
  have "\<forall>p \<in> fst ` set (bids b). \<forall>k \<in> fst ` set (asks b). p < k" using u by (simp add: uncrossed_def)
  then have "\<forall>p \<in> fst ` set (bids b'). \<forall>k \<in> fst ` set (asks b'). p < k" using sub by blast
  then show ?thesis by (simp add: uncrossed_def)
qed

lemma book_reach_inv: "book_reach b \<Longrightarrow> book_wf b \<and> uncrossed b"
proof (induction rule: book_reach.induct)
  case start
  show ?case by (simp add: empty_book_wf empty_book_uncrossed)
next
  case (submit b ord clk t ts e b' r)
  then show ?case using match_wf match_uncrossed by blast
next
  case (cancel b oid b')
  then show ?case using cancel_order_wf cancel_uncrossed by blast
qed

text \<open>With fresh ids the index stays complete.\<close>

lemma residual_indexed:
  assumes "book_wf b" and "index_full b" and "order_valid ord" and "o_id ord \<notin> resting_ids b"
  shows "index_full (add_order b ord)"
proof (cases "o_type ord = LIMIT \<and> o_side ord \<in> {BID, ASK}")
  case False
  then show ?thesis using assms(2) add_order_ignored [of ord b] by auto
next
  case True
  have "mset (all_nodes (add_order b ord)) = mset (new_node b ord # all_nodes b)"
    using add_order_mset [OF assms(1,3)] True by simp
  moreover have "n \<in> set (all_nodes b) \<Longrightarrow> o_id (node_order n) \<noteq> o_id ord" for n
    using assms(4) unfolding resting_ids_def by (metis image_eqI)
  then have "indexed (order_map (add_order b ord)) (new_node b ord # all_nodes b)"
    using indexed_add [of "order_map b" "all_nodes b" ord "next_addr b"] add_order_index [of ord b] True
      assms(2) by (simp add: index_full_def)
  ultimately show ?thesis
    unfolding index_full_def using indexed_set [OF mset_eq_setD] by blast
qed

lemma match_index_full:
  assumes wf: "book_wf b" and ix: "index_full b" and v: "order_valid ord"
    and fresh: "o_id ord \<notin> resting_ids b" and m: "match clk t b ord ts = (e, b', r)"
  shows "index_full b'"
proof (cases "o_side ord \<in> {BID, ASK}")
  case False
  then show ?thesis using match_other_side [of ord clk t b ts] m ix by auto
next
  case True
  obtain fs rest q where sw: "sweep (within ord) (unat (o_quantity ord)) (opp_nodes ord b) = (fs, rest, q)"
    by (metis prod_cases3)
  obtain b1 r1 where h: "book_wf b1" "opp_nodes ord b1 = rest" "own_nodes ord b1 = own_nodes ord b"
    "order_map b1 = forget_filled fs (order_map b)" "q \<le> unat (o_quantity ord)"
    "match clk t b ord ts = (if 0 < q \<and> o_type ord = LIMIT
       then (None, add_order b1 (residual clk (t + length fs) ord q), r1\<lparr>ticks := Suc (ticks r1)\<rparr>)
       else (None, b1, r1))"
    by (rule match_nodes [OF wf v True sw])
  note perm = all_nodes_mset [of b ord] all_nodes_mset [of b1 ord]
  have ix1: "index_full b1"
    using sweep_indexed [OF _ _ sw, of "next_addr b" "own_nodes ord b" "order_map b"] wf ix
      nodes_ok_mset [OF perm(1)] indexed_set [OF mset_eq_setD [OF perm(1)]] indexed_set [OF mset_eq_setD [OF perm(2)]]
    by (simp add: index_full_def book_wf_def h(2-4))
  have "resting_ids b1 \<subseteq> resting_ids b"
    using sweep_ids [OF sw] mset_eq_setD [OF perm(1)] mset_eq_setD [OF perm(2)] by (auto simp: resting_ids_def h(2,3))
  then have "index_full (add_order b1 (residual clk (t + length fs) ord q))" if "0 < q"
    using residual_indexed [OF h(1) ix1 residual_valid [OF v that h(5)]] fresh by auto
  then show ?thesis using ix1 h(6) m by (auto split: if_splits)
qed

lemma cancel_index_full:
  assumes wf: "book_wf b" and ix: "index_full b" and c: "cancel_order b oid = Inr b'"
  shows "index_full b'"
proof -
  obtain loc where "order_map b oid = Some loc"
    using c by (cases "order_map b oid") (simp_all add: cancel_order_def)
  then obtain b1 n where h: "cancel_order b oid = Inr b1" "n \<in> set (all_nodes b)"
    "node_addr n = list_position loc" "o_id (node_order n) = oid"
    "side_ok (>) BID (bids b1)" "side_ok (<) ASK (asks b1)"
    "side_nodes (bids b1) = filter (\<lambda>x. node_addr x \<noteq> node_addr n) (side_nodes (bids b))"
    "side_nodes (asks b1) = filter (\<lambda>x. node_addr x \<noteq> node_addr n) (side_nodes (asks b))"
    "order_map b1 = (order_map b)(oid := None)"
    by (rule cancel_order_found [OF wf])
  have "b1 = b'" using h(1) c by simp
  then show ?thesis
    using indexed_remove [of "order_map b" "all_nodes b" "next_addr b" n] ix wf h(2,4,7-9)
    by (simp add: index_full_def book_wf_def all_nodes_def)
qed

lemma fresh_reach_inv: "fresh_reach b \<Longrightarrow> book_reach b \<and> index_full b"
proof (induction rule: fresh_reach.induct)
  case fresh_start
  have "index_full empty_book" by (simp add: index_full_def indexed_def empty_book_def all_nodes_def)
  then show ?case using book_reach.start by simp
next
  case (fresh_submit b ord clk t ts e b' r)
  then show ?case using match_index_full book_reach_inv book_reach.submit by blast
next
  case (fresh_cancel b oid b')
  then show ?case using cancel_index_full book_reach_inv book_reach.cancel by blast
qed

lemma filter_node_remove1:
  assumes "nodes_ok a ns" and "n \<in> set ns"
  shows "filter (\<lambda>x. node_addr x \<noteq> node_addr n) ns = remove1 n ns"
proof -
  have "distinct ns" using assms(1) by (simp add: nodes_ok_def distinct_map)
  moreover have "filter (\<lambda>x. node_addr x \<noteq> node_addr n) ns = filter (\<lambda>x. x \<noteq> n) ns"
    using nodes_ok_inj [OF assms(1) _ assms(2)] by (intro filter_cong) auto
  ultimately show ?thesis by (simp add: distinct_remove1_removeAll removeAll_filter_not_eq neq_commute)
qed

text \<open>A successful cancellation, in terms of the list of all resting nodes.\<close>

lemma cancel_order_nodes:
  assumes wf: "book_wf b" and at: "order_map b oid = Some loc"
  obtains b' n where "cancel_order b oid = Inr b'" "n \<in> set (all_nodes b)" "o_id (node_order n) = oid"
    "all_nodes b' = remove1 n (all_nodes b)" "order_map b' = (order_map b)(oid := None)"
    "side_nodes (bids b') = filter (\<lambda>x. node_addr x \<noteq> list_position loc) (side_nodes (bids b))"
    "side_nodes (asks b') = filter (\<lambda>x. node_addr x \<noteq> list_position loc) (side_nodes (asks b))"
    "node_addr n = list_position loc" "book_wf b'"
proof -
  obtain b' n where h: "cancel_order b oid = Inr b'" "n \<in> set (all_nodes b)"
    "node_addr n = list_position loc" "o_id (node_order n) = oid"
    "side_ok (>) BID (bids b')" "side_ok (<) ASK (asks b')"
    "side_nodes (bids b') = filter (\<lambda>x. node_addr x \<noteq> node_addr n) (side_nodes (bids b))"
    "side_nodes (asks b') = filter (\<lambda>x. node_addr x \<noteq> node_addr n) (side_nodes (asks b))"
    "order_map b' = (order_map b)(oid := None)"
    by (rule cancel_order_found [OF wf at])
  have "all_nodes b' = filter (\<lambda>x. node_addr x \<noteq> node_addr n) (all_nodes b)"
    by (simp add: all_nodes_def h(7,8))
  also have "\<dots> = remove1 n (all_nodes b)"
    using wf by (intro filter_node_remove1 [where a = "next_addr b", OF _ h(2)]) (simp add: book_wf_def)
  finally show ?thesis
    using that h cancel_order_wf [OF wf h(1)] by simp
qed

lemma cancel_is_safe:
  assumes "book_reach b"
  shows "case cancel_order b oid of
      Inl f \<Rightarrow> f = Throw (Invalid_argument ''order id not found in the book'') \<and> order_map b oid = None
    | Inr b' \<Rightarrow> (\<exists>n \<in> set (all_nodes b). o_id (node_order n) = oid
        \<and> all_nodes b' = remove1 n (all_nodes b)) \<and> order_map b' = (order_map b)(oid := None)"
proof (cases "order_map b oid")
  case None
  then show ?thesis by (simp add: cancel_order_missing)
next
  case (Some loc)
  have "book_wf b" using book_reach_inv [OF assms] by simp
  then obtain b' n where "cancel_order b oid = Inr b'" "n \<in> set (all_nodes b)" "o_id (node_order n) = oid"
    "all_nodes b' = remove1 n (all_nodes b)" "order_map b' = (order_map b)(oid := None)"
    using Some by (rule cancel_order_nodes)
  then show ?thesis by auto
qed

section \<open>Orders that the index has lost\<close>

text \<open>The books that matches and cancellations lead to from \<open>b\<close> on.\<close>

inductive book_later :: "orderbook \<Rightarrow> orderbook \<Rightarrow> bool" for b where
  now: "book_later b b"
| submit_later: "book_later b b1 \<Longrightarrow> order_valid ord \<Longrightarrow> match clk t b1 ord ts = (e, b2, r) \<Longrightarrow> book_later b b2"
| cancel_later: "book_later b b1 \<Longrightarrow> cancel_order b1 oid = Inr b2 \<Longrightarrow> book_later b b2"

text \<open>A node that was allocated and that no entry of the index points to, whatever its id.\<close>

definition orphaned :: "nat \<Rightarrow> orderbook \<Rightarrow> bool" where
  "orphaned a b \<longleftrightarrow> a < next_addr b \<and> (\<forall>i loc. order_map b i = Some loc \<longrightarrow> list_position loc \<noteq> a)"

lemma orphaned_submap:
  assumes "orphaned a b" and "next_addr b \<le> next_addr b'" and "order_map b' \<subseteq>\<^sub>m order_map b"
  shows "orphaned a b'"
  using assms unfolding orphaned_def map_le_def by (metis domI order_less_le_trans)

lemma forget_filled_submap: "forget_filled fs om \<subseteq>\<^sub>m om"
  by (induction fs om rule: forget_filled.induct) (auto intro: map_le_trans [OF _ upd_None_map_le] split: if_splits)

lemma add_order_orphaned:
  assumes "orphaned a b"
  shows "orphaned a (add_order b ord)"
  using assms by (auto simp: orphaned_def add_order_def Let_def)

lemma match_orphaned:
  assumes "book_wf b" and "orphaned a b" and "order_valid ord" and "match clk t b ord ts = (e, b', r)"
  shows "orphaned a b'"
proof (cases "o_side ord \<in> {BID, ASK}")
  case False
  then show ?thesis using match_other_side [of ord clk t b ts] assms(2,4) by auto
next
  case True
  obtain fs rest q where sw: "sweep (within ord) (unat (o_quantity ord)) (opp_nodes ord b) = (fs, rest, q)"
    by (metis prod_cases3)
  obtain b1 r1 where h: "order_map b1 = forget_filled fs (order_map b)" "next_addr b1 = next_addr b"
    "match clk t b ord ts = (if 0 < q \<and> o_type ord = LIMIT
       then (None, add_order b1 (residual clk (t + length fs) ord q), r1\<lparr>ticks := Suc (ticks r1)\<rparr>)
       else (None, b1, r1))"
    by (rule match_nodes [OF assms(1,3) True sw])
  have "orphaned a b1" using orphaned_submap [OF assms(2), of b1] forget_filled_submap h(1,2) by simp
  then show ?thesis using add_order_orphaned h(3) assms(4) by (auto split: if_splits)
qed

lemma cancel_orphaned:
  assumes "orphaned a b" and "cancel_order b i = Inr b'"
  shows "orphaned a b'"
  using assms by (intro orphaned_submap [OF assms(1)])
    (auto simp: cancel_order_def map_le_def split: option.splits if_splits)

lemma later_orphaned: "book_later b b' \<Longrightarrow> book_wf b \<Longrightarrow> orphaned a b \<Longrightarrow> book_wf b' \<and> orphaned a b'"
proof (induction rule: book_later.induct)
  case (submit_later b1 ord clk t ts e b2 r)
  then show ?case using match_wf match_orphaned by blast
next
  case (cancel_later b1 oid b2)
  then show ?case using cancel_order_wf cancel_orphaned by blast
qed simp

text \<open>No cancellation removes such a node.\<close>

lemma cancel_keeps_orphan:
  assumes "book_wf b" and "orphaned a b" and "cancel_order b i = Inr b'" and "n \<in> set (all_nodes b)" and "node_addr n = a"
  shows "n \<in> set (all_nodes b')"
proof -
  obtain loc where loc: "order_map b i = Some loc"
    using assms(3) by (cases "order_map b i") (simp_all add: cancel_order_def)
  obtain b1 m where "cancel_order b i = Inr b1" "all_nodes b1 = remove1 m (all_nodes b)" "node_addr m = list_position loc"
    by (rule cancel_order_nodes [OF assms(1) loc])
  moreover have "list_position loc \<noteq> a" using assms(2) loc by (auto simp: orphaned_def)
  ultimately have "n \<noteq> m" "all_nodes b' = remove1 m (all_nodes b)" using assms(3,5) by auto
  then show ?thesis using assms(4) by (simp add: in_set_remove1)
qed

section \<open>Sample runs\<close>

definition sample_reached :: orderbook where
  "sample_reached = fst (snd (match sample_clock 0 empty_book (limit_order 1 100 50 ASK) []))"

lemma sample_reached_fresh: "fresh_reach sample_reached"
proof -
  obtain e b r where m: "match sample_clock 0 empty_book (limit_order 1 100 50 ASK) [] = (e, b, r)"
    by (metis prod_cases3)
  have "o_id (limit_order 1 100 50 ASK) \<notin> resting_ids empty_book"
    by (simp add: resting_ids_def all_nodes_def empty_book_def)
  then have "fresh_reach b" using fresh_reach.fresh_submit [OF fresh_start _ _ m] by simp
  then show ?thesis by (simp add: sample_reached_def m)
qed

lemma sample_reached_eq:
  "sample_reached = \<lparr>bids = [],
     asks = [(100, [\<lparr>node_addr = 0, node_order = (limit_order 1 100 50 ASK)\<lparr>o_timestamp := 0\<rparr>\<rparr>])],
     order_map = [1 \<mapsto> \<lparr>loc_side = ASK, loc_price = 100, list_position = 0\<rparr>], next_addr = Suc 0\<rparr>"
  by (simp add: sample_reached_def match_def match_bids_def match_loop.simps rest_order_def
      make_order_def add_order_def empty_book_def Let_def map_at_def limit_order_def sample_clock_def)

section \<open>Properties\<close>

text \<open>
  C10: Every reachable book is well formed and uncrossed. In every state that any sequence of matches
  and cancellations reaches, prices are in order and no level is empty, every resting order is a
  valid limit order at its level's price and side, every index entry points to a live node with that
  id, and the best bid is below the best ask.
\<close>

theorem reachable_book_invariant:
  assumes "book_reach b"
  shows "book_wf b \<and> uncrossed b
    \<and> (case (best_bid b, best_ask b) of (Some p, Some k) \<Rightarrow> p < k | _ \<Rightarrow> True)"
proof -
  have inv: "book_wf b" "uncrossed b" using book_reach_inv [OF assms] by simp_all
  have "p < k" if "best_bid b = Some p" "best_ask b = Some k" for p k
    using that inv(2) hd_in_set [of "bids b"] hd_in_set [of "asks b"]
    by (auto simp: best_bid_def best_ask_def uncrossed_def split: if_splits)
  then show ?thesis using inv by (auto split: option.splits)
qed

theorem reachable_book_invariant_witness:
  "book_reach sample_reached \<and> book_wf sample_reached \<and> uncrossed sample_reached"
  using reachable_book_invariant [of sample_reached] fresh_reach_inv [OF sample_reached_fresh] by simp

text \<open>
  C16: Cancelling is memory safe and exact. On a reachable book, whatever ids were used,
  \<^verbatim>\<open>cancel_order\<close> never uses a dangling iterator: it throws the documented exception when the id
  is not indexed, and otherwise removes one resting order with that id, and its index entry, and
  changes nothing else.
\<close>

theorem cancel_is_safe_and_exact:
  assumes "book_reach b"
  shows "case cancel_order b oid of
      Inl f \<Rightarrow> f = Throw (Invalid_argument ''order id not found in the book'') \<and> order_map b oid = None
    | Inr b' \<Rightarrow> (\<exists>n \<in> set (all_nodes b). o_id (node_order n) = oid
        \<and> all_nodes b' = remove1 n (all_nodes b)) \<and> order_map b' = (order_map b)(oid := None)"
  using cancel_is_safe [OF assms] .

theorem cancel_is_safe_and_exact_witness:
  "\<exists>b'. cancel_order sample_reached 1 = Inr b' \<and> all_nodes b' = [] \<and> order_map b' 1 = None"
proof -
  have "book_reach sample_reached" using fresh_reach_inv [OF sample_reached_fresh] by simp
  from cancel_is_safe_and_exact [OF this, of 1] show ?thesis
    by (auto simp: sample_reached_eq all_nodes_def split: sum.splits)
qed

text \<open>
  C20: With order ids that are not reused while they rest, every resting order can be cancelled. No
  two resting orders share an id; \<^verbatim>\<open>cancel_order\<close> succeeds exactly for the ids of resting orders,
  and removes the one order with that id.
\<close>

theorem every_resting_order_cancellable:
  assumes "fresh_reach b"
  shows "distinct (map (\<lambda>n. o_id (node_order n)) (all_nodes b))
    \<and> (case cancel_order b oid of
         Inl f \<Rightarrow> oid \<notin> resting_ids b
       | Inr b' \<Rightarrow> oid \<in> resting_ids b \<and> resting_ids b' = resting_ids b - {oid})"
proof -
  have inv: "book_wf b" "index_full b" using fresh_reach_inv [OF assms] book_reach_inv by auto
  then have ok: "nodes_ok (next_addr b) (all_nodes b)" "indexed (order_map b) (all_nodes b)"
    by (simp_all add: book_wf_def index_full_def)
  have inj: "inj_on (\<lambda>n. o_id (node_order n)) (set (all_nodes b))"
    using indexed_inj [OF ok(2,1)] by (auto intro: inj_onI)
  have dist: "distinct (all_nodes b)" using ok(1) by (simp add: nodes_ok_def distinct_map)
  show ?thesis
  proof (cases "order_map b oid")
    case None
    then have "oid \<notin> resting_ids b" using ok(2) by (auto simp: indexed_def resting_ids_def)
    then show ?thesis using None inj dist by (simp add: cancel_order_missing distinct_map)
  next
    case (Some loc)
    obtain b' n where h: "cancel_order b oid = Inr b'" "n \<in> set (all_nodes b)" "o_id (node_order n) = oid"
      "all_nodes b' = remove1 n (all_nodes b)"
      by (rule cancel_order_nodes [OF inv(1) Some])
    have "resting_ids b' = resting_ids b - {oid}"
      using inj_on_image_set_diff [OF inj, of "set (all_nodes b)" "{n}"] h(2,3) dist
      by (simp add: resting_ids_def h(4))
    then show ?thesis using h(1-3) inj dist by (auto simp: distinct_map resting_ids_def)
  qed
qed

theorem every_resting_order_cancellable_witness:
  "resting_ids sample_reached = {1} \<and> (\<exists>b'. cancel_order sample_reached 1 = Inr b' \<and> resting_ids b' = {})"
proof -
  have "resting_ids sample_reached = {1}"
    by (simp add: resting_ids_def all_nodes_def sample_reached_eq limit_order_def)
  then show ?thesis
    using every_resting_order_cancellable [OF sample_reached_fresh, of 1] by (auto split: sum.splits)
qed

text \<open>
  C28: A reused id makes an order uncancellable for good. When two resting orders have the same id, a
  cancellation of that id removes one of them and forgets the id: the other order \<open>z\<close> stays in the book
  and can still trade, and cancelling its id again is refused. Nothing repairs this: in every book that
  matches and cancellations, with any ids, lead to later, as long as the node of \<open>z\<close> is there, no
  cancellation of any id removes it.
\<close>

theorem duplicate_id_orphans_order:
  assumes "book_reach b" and "x \<in> set (all_nodes b)" and "y \<in> set (all_nodes b)" and "x \<noteq> y"
    and "o_id (node_order x) = oid" and "o_id (node_order y) = oid" and "cancel_order b oid = Inr b'"
  shows "\<exists>z \<in> {x, y}. z \<in> set (all_nodes b')
    \<and> cancel_order b' oid = Inl (Throw (Invalid_argument ''order id not found in the book''))
    \<and> (\<forall>b1 i b2. book_later b' b1 \<and> cancel_order b1 i = Inr b2 \<longrightarrow>
        (\<forall>n \<in> set (all_nodes b1). node_addr n = node_addr z \<longrightarrow> n \<in> set (all_nodes b2)))"
proof -
  obtain n where n: "n \<in> set (all_nodes b)" "all_nodes b' = remove1 n (all_nodes b)"
    "order_map b' = (order_map b)(oid := None)"
    using cancel_is_safe [OF assms(1), of oid] assms(7) by auto
  obtain z where z: "z \<in> {x, y}" "z \<noteq> n" using assms(4) by auto
  then have zb: "z \<in> set (all_nodes b')" and id: "o_id (node_order z) = oid"
    using assms(2,3,5,6) n(2) by (auto simp: in_set_remove1)
  have wf: "book_wf b'" using cancel_order_wf [OF _ assms(7)] book_reach_inv [OF assms(1)] by blast
  then have ok: "nodes_ok (next_addr b') (all_nodes b')" "index_ok (order_map b') (all_nodes b')"
    by (simp_all add: book_wf_def)
  have "list_position loc \<noteq> node_addr z" if at: "order_map b' i = Some loc" for i loc
  proof
    assume "list_position loc = node_addr z"
    then obtain m where m: "m \<in> set (all_nodes b')" "node_addr m = node_addr z" "o_id (node_order m) = i"
      using ok(2) at by (fastforce simp: index_ok_def located_def)
    have "m = z" by (rule nodes_ok_inj [OF ok(1) m(1) zb m(2)])
    then show False using at id m(3) n(3) by simp
  qed
  then have "orphaned (node_addr z) b'" using ok(1) zb by (auto simp: orphaned_def nodes_ok_def)
  then have "n \<in> set (all_nodes b2)"
    if "book_later b' b1" "cancel_order b1 i = Inr b2" "n \<in> set (all_nodes b1)" "node_addr n = node_addr z" for b1 i b2 n
    using later_orphaned [OF that(1) wf] cancel_keeps_orphan [OF _ _ that(2-4)] by blast
  then show ?thesis using z(1) zb n(3) by (intro bexI [of _ z]) (auto simp: cancel_order_missing)
qed

definition sample_twice :: orderbook where
  "sample_twice = fst (snd (match sample_clock 0 sample_reached (limit_order 1 105 30 ASK) []))"

lemma sample_twice_eq:
  "sample_twice = \<lparr>bids = [],
     asks = [(100, [\<lparr>node_addr = 0, node_order = limit_order 1 100 50 ASK\<rparr>]),
             (105, [\<lparr>node_addr = Suc 0, node_order = limit_order 1 105 30 ASK\<rparr>])],
     order_map = [1 \<mapsto> \<lparr>loc_side = ASK, loc_price = 105, list_position = Suc 0\<rparr>],
     next_addr = Suc (Suc 0)\<rparr>"
  by (simp add: sample_twice_def sample_reached_eq match_def match_bids_def match_loop.simps rest_order_def
      make_order_def add_order_def Let_def map_at_def limit_order_def sample_clock_def)

theorem duplicate_id_orphans_order_witness:
  "\<exists>b'. cancel_order sample_twice 1 = Inr b' \<and> all_nodes b' = [\<lparr>node_addr = 0, node_order = limit_order 1 100 50 ASK\<rparr>]
     \<and> cancel_order b' 1 = Inl (Throw (Invalid_argument ''order id not found in the book''))
     \<and> (\<forall>b1 i b2. book_later b' b1 \<and> cancel_order b1 i = Inr b2 \<longrightarrow>
          (\<forall>n \<in> set (all_nodes b1). node_addr n = 0 \<longrightarrow> n \<in> set (all_nodes b2)))"
proof -
  obtain e b r where m: "match sample_clock 0 sample_reached (limit_order 1 105 30 ASK) [] = (e, b, r)"
    by (metis prod_cases3)
  have "book_reach sample_reached" using fresh_reach_inv [OF sample_reached_fresh] by simp
  then have reach: "book_reach sample_twice"
    using book_reach.submit [OF _ _ m] by (simp add: sample_twice_def m)
  let ?x = "\<lparr>node_addr = 0, node_order = limit_order 1 100 50 ASK\<rparr>"
  let ?y = "\<lparr>node_addr = Suc 0, node_order = limit_order 1 105 30 ASK\<rparr>"
  have xy: "?x \<in> set (all_nodes sample_twice)" "?y \<in> set (all_nodes sample_twice)" "?x \<noteq> ?y"
    by (simp_all add: sample_twice_eq all_nodes_def)
  obtain b' where c: "cancel_order sample_twice 1 = Inr b'" "all_nodes b' = [?x]"
    by (simp add: sample_twice_eq cancel_order_def map_at_def map_erase_def all_nodes_def)
  obtain z where z: "z \<in> set (all_nodes b')" "cancel_order b' 1 = Inl (Throw (Invalid_argument ''order id not found in the book''))"
    "\<forall>b1 i b2. book_later b' b1 \<and> cancel_order b1 i = Inr b2 \<longrightarrow>
        (\<forall>n \<in> set (all_nodes b1). node_addr n = node_addr z \<longrightarrow> n \<in> set (all_nodes b2))"
    using duplicate_id_orphans_order [OF reach xy _ _ c(1)] by auto
  then have "node_addr z = 0" using c(2) by simp
  then show ?thesis using c z(2,3) by simp
qed

text \<open>
  Adding and then cancelling an order restores the book. For an order whose id is not indexed,
  both sides of the book and the index are what they were, levels included.
\<close>

lemma add_cancel_roundtrip:
  assumes "book_wf b" and "order_valid ord" and "o_type ord = LIMIT" and "o_side ord \<in> {BID, ASK}"
    and "order_map b (o_id ord) = None"
  shows "\<exists>b'. cancel_order (add_order b ord) (o_id ord) = Inr b'
    \<and> bids b' = bids b \<and> asks b' = asks b \<and> order_map b' = order_map b"
proof -
  let ?b = "add_order b ord"
  have wf: "book_wf ?b" by (rule add_order_wf [OF assms(1,2)])
  have idx: "order_map ?b = (order_map b)(o_id ord \<mapsto>
       \<lparr>loc_side = o_side ord, loc_price = o_price ord, list_position = next_addr b\<rparr>)"
    using add_order_index [OF assms(3,4)] by simp
  define loc where
    "loc = \<lparr>loc_side = o_side ord, loc_price = o_price ord, list_position = next_addr b\<rparr>"
  have at: "order_map ?b (o_id ord) = Some loc" and lp: "list_position loc = next_addr b"
    using idx by (simp_all add: loc_def)
  obtain b' n where c: "cancel_order ?b (o_id ord) = Inr b'" "n \<in> set (all_nodes ?b)"
    "o_id (node_order n) = o_id ord" "all_nodes b' = remove1 n (all_nodes ?b)"
    "order_map b' = (order_map ?b)(o_id ord := None)"
    "side_nodes (bids b') = filter (\<lambda>x. node_addr x \<noteq> list_position loc) (side_nodes (bids ?b))"
    "side_nodes (asks b') = filter (\<lambda>x. node_addr x \<noteq> list_position loc) (side_nodes (asks ?b))"
    "node_addr n = list_position loc" "book_wf b'"
    by (rule cancel_order_nodes [OF wf at])
  have old: "\<forall>n \<in> set (side_nodes (bids b)). node_addr n \<noteq> next_addr b"
    "\<forall>n \<in> set (side_nodes (asks b)). node_addr n \<noteq> next_addr b"
    using assms(1) by (auto simp: book_wf_def nodes_ok_def all_nodes_def ball_Un)
  have ins: "filter (\<lambda>x. node_addr x \<noteq> next_addr b) (insert_by lt (new_node b ord) ns) = ns"
    if "\<forall>n \<in> set ns. node_addr n \<noteq> next_addr b" for lt ns
  proof -
    have "filter (\<lambda>x. node_addr x \<noteq> next_addr b) (takeWhile P ns @ dropWhile P ns) = ns" for P
      using that by (simp only: takeWhile_dropWhile_id) simp
    then show ?thesis by (simp add: insert_by_def del: takeWhile_dropWhile_id)
  qed
  have sides: "side_nodes (bids b') = side_nodes (bids b)" "side_nodes (asks b') = side_nodes (asks b)"
    using assms(4) c(6,7) add_order_bid(2,3) [OF assms(1-3)] add_order_ask(2,3) [OF assms(1-3)]
      old ins by (auto simp: lp)
  have "bids b' = bids b" "asks b' = asks b"
    using sides c(9) assms(1) bid_half.side_nodes_inj ask_half.side_nodes_inj by (auto simp: book_wf_def)
  moreover have "order_map b' = order_map b" using c(5) idx assms(5) by (auto simp: fun_eq_iff)
  ultimately show ?thesis using c(1) by blast
qed

text \<open>
  \<^verbatim>\<open>best_bid\<close> and \<^verbatim>\<open>best_ask\<close> are the best prices. On a well-formed book they are the greatest
  price of a resting bid and the least price of a resting ask, and empty exactly when the side is.
\<close>

lemma best_prices_are_extremal:
  assumes "book_wf b"
  shows "best_bid b = (if abs_side (bids b) = [] then None else Some (Max (o_price ` set (abs_side (bids b)))))
    \<and> best_ask b = (if abs_side (asks b) = [] then None else Some (Min (o_price ` set (abs_side (asks b)))))"
proof -
  have ok: "side_ok (>) BID (bids b)" "side_ok (<) ASK (asks b)" using assms by (simp_all add: book_wf_def)
  have "abs_side m = [] \<longleftrightarrow> m = []" if "side_ok (>) BID m \<or> side_ok (<) ASK m" for m
    using that by (cases m) (auto simp: abs_side_def side_ok_def)
  moreover have "fst (hd (bids b)) = Max (fst ` set (bids b))" if "bids b \<noteq> []"
    using that ok(1) by (cases "bids b") (auto simp: side_ok_def less_imp_le intro!: Max_eqI [symmetric])
  moreover have "fst (hd (asks b)) = Min (fst ` set (asks b))" if "asks b \<noteq> []"
    using that ok(2) by (cases "asks b") (auto simp: side_ok_def less_imp_le intro!: Min_eqI [symmetric])
  ultimately show ?thesis using ok level_keys by (simp add: best_bid_def best_ask_def)
qed

end
