(* ===== verification/Bytes.thy ===== *)
theory Bytes
  imports Prelude
begin

text \<open>
  Bytes of objects in memory, as far as \<^verbatim>\<open>memcpy\<close>, \<^verbatim>\<open>htonl\<close> and \<^verbatim>\<open>std::vector::resize\<close>
  show them to the program. The byte order of the host is a parameter, since the serializer copies
  the host representation of its fields. A copy that leaves the buffer is undefined behaviour.
\<close>

section \<open>Definitions\<close>

datatype endian = LE | BE

primrec nat_bytes :: "nat \<Rightarrow> nat \<Rightarrow> byte list" where
  "nat_bytes 0 v = []"
| "nat_bytes (Suc n) v = of_nat (v mod 256) # nat_bytes n (v div 256)"

primrec bytes_nat :: "byte list \<Rightarrow> nat" where
  "bytes_nat [] = 0"
| "bytes_nat (b # bs) = unat b + 256 * bytes_nat bs"

definition host_order :: "endian \<Rightarrow> byte list \<Rightarrow> byte list" where
  "host_order e bs = (case e of LE \<Rightarrow> bs | BE \<Rightarrow> rev bs)"

text \<open>The representation of an integer object, and the integer that a representation stands for.\<close>

definition object_bytes :: "endian \<Rightarrow> 'a::len word \<Rightarrow> byte list" where
  "object_bytes e w = host_order e (nat_bytes (LENGTH('a) div 8) (unat w))"

definition object_value :: "endian \<Rightarrow> byte list \<Rightarrow> 'a::len word" where
  "object_value e bs = of_nat (bytes_nat (host_order e bs))"

definition htonl :: "endian \<Rightarrow> 32 word \<Rightarrow> 32 word" where
  "htonl e w = (case e of BE \<Rightarrow> w | LE \<Rightarrow> object_value LE (rev (object_bytes LE w)))"

definition ntohl :: "endian \<Rightarrow> 32 word \<Rightarrow> 32 word" where
  "ntohl e w = htonl e w"

definition vec_resize :: "nat \<Rightarrow> byte list \<Rightarrow> byte list" where
  "vec_resize n bs = take n bs @ replicate (n - length bs) 0"

definition mem_write :: "nat \<Rightarrow> byte list \<Rightarrow> byte list \<Rightarrow> byte list result" where
  "mem_write off bs buf =
     (if off + length bs \<le> length buf
      then Inr (take off buf @ bs @ drop (off + length bs) buf) else Inl UB)"

definition mem_read :: "nat \<Rightarrow> nat \<Rightarrow> byte list \<Rightarrow> byte list result" where
  "mem_read off n buf = (if off + n \<le> length buf then Inr (take n (drop off buf)) else Inl UB)"

text \<open>A run of copies, each at the offset where the one before ended.\<close>

fun write_all :: "nat \<Rightarrow> byte list list \<Rightarrow> byte list \<Rightarrow> byte list result" where
  "write_all off [] buf = Inr buf"
| "write_all off (bs # bss) buf = result_bind (mem_write off bs buf) (write_all (off + length bs) bss)"

declare write_all.simps [simp del]

text \<open>Reading an integer object: \<^verbatim>\<open>memcpy(&x, buf.data() + off, sizeof x)\<close>.\<close>

definition read_object :: "endian \<Rightarrow> nat \<Rightarrow> byte list \<Rightarrow> 'a::len word result" where
  "read_object e off buf =
     result_bind (mem_read off (LENGTH('a) div 8) buf) (\<lambda>bs. Inr (object_value e bs))"

section \<open>Lemmas\<close>

lemma nat_bytes_numeral:
  "nat_bytes (numeral n) v = of_nat (v mod 256) # nat_bytes (pred_numeral n) (v div 256)"
  by (simp add: numeral_eq_Suc [of n])

lemma length_nat_bytes [simp]: "length (nat_bytes n v) = n"
  by (induction n arbitrary: v) auto

lemma nat_bytes_add: "nat_bytes (m + n) v = nat_bytes m v @ nat_bytes n (v div 256 ^ m)"
  by (induction m arbitrary: v) (simp_all add: div_mult2_eq)

lemma bytes_nat_less: "bytes_nat bs < 256 ^ length bs"
proof (induction bs)
  case (Cons b bs)
  have "unat b < 256" using unsigned_less [of b, where 'a = nat] by simp
  then show ?case using Cons by simp
qed simp

lemma bytes_nat_of_nat: "bytes_nat (nat_bytes n v) = v mod 256 ^ n"
proof (induction n arbitrary: v)
  case (Suc n)
  have "unat (of_nat (v mod 256) :: byte) = v mod 256" by (simp add: unat_of_nat)
  then show ?case using Suc by (simp add: mod_mult2_eq)
qed simp

lemma nat_bytes_of_bytes: "nat_bytes (length bs) (bytes_nat bs) = bs"
proof (induction bs)
  case (Cons b bs)
  have b: "unat b < 256" using unsigned_less [of b, where 'a = nat] by simp
  then have "(unat b + 256 * bytes_nat bs) div 256 = bytes_nat bs" by simp
  moreover have "(unat b + 256 * bytes_nat bs) mod 256 = unat b" using b by simp
  ultimately show ?case using Cons by simp
qed simp

lemma length_host_order [simp]: "length (host_order e bs) = length bs"
  by (simp add: host_order_def split: endian.split)

lemma host_order_twice [simp]: "host_order e (host_order e bs) = bs"
  by (simp add: host_order_def split: endian.split)

lemma length_object_bytes [simp]: "length (object_bytes e (w :: 'a::len word)) = LENGTH('a) div 8"
  by (simp add: object_bytes_def)

lemma pow_256: "8 dvd n \<Longrightarrow> (256::nat) ^ (n div 8) = 2 ^ n"
  using power_mult [of "2::nat" 8 "n div 8"] by simp

lemma object_value_bytes [simp]:
  assumes "8 dvd LENGTH('a)"
  shows "object_value e (object_bytes e w) = (w :: 'a::len word)"
proof -
  have "(256::nat) ^ (LENGTH('a) div 8) = 2 ^ LENGTH('a)"
    using assms by (rule pow_256)
  then show ?thesis
    using unsigned_less [of w, where 'a = nat] by (simp add: object_value_def object_bytes_def bytes_nat_of_nat)
qed

lemma object_bytes_value:
  assumes "8 dvd LENGTH('a)" and "length bs = LENGTH('a) div 8"
  shows "object_bytes e (object_value e bs :: 'a::len word) = bs"
proof -
  have "(256::nat) ^ (LENGTH('a) div 8) = 2 ^ LENGTH('a)"
    using assms(1) by (rule pow_256)
  then have "bytes_nat (host_order e bs) < 2 ^ LENGTH('a)"
    using bytes_nat_less [of "host_order e bs"] assms(2) by simp
  then have "unat (of_nat (bytes_nat (host_order e bs)) :: 'a word) = bytes_nat (host_order e bs)"
    by (simp add: unat_of_nat)
  then show ?thesis
    using nat_bytes_of_bytes [of "host_order e bs"] assms(2) by (simp add: object_value_def object_bytes_def)
qed

text \<open>\<^verbatim>\<open>htonl\<close> gives the integer whose host representation is big-endian.\<close>

lemma object_bytes_htonl: "object_bytes e (htonl e w) = object_bytes BE w"
proof (cases e)
  case LE
  have "object_bytes LE (htonl LE w) = rev (object_bytes LE w)"
    by (simp add: htonl_def object_bytes_value)
  then show ?thesis by (simp add: LE) (simp add: object_bytes_def host_order_def)
qed (simp add: htonl_def)

lemma ntohl_htonl: "ntohl e (htonl e w) = w"
proof (cases e)
  case LE
  have "object_bytes LE (htonl LE w) = rev (object_bytes LE w)"
    by (simp add: object_bytes_htonl) (simp add: object_bytes_def host_order_def)
  then show ?thesis by (simp add: LE ntohl_def htonl_def)
qed (simp add: ntohl_def htonl_def)

lemma ntohl_network [wire_simps]: "ntohl e (object_value e (object_bytes BE w)) = w"
proof -
  have "object_value e (object_bytes BE w) = htonl e w"
    using object_value_bytes [of e "htonl e w"] by (simp add: object_bytes_htonl)
  then show ?thesis by (simp add: ntohl_htonl)
qed

lemma length_vec_resize [simp]: "length (vec_resize n bs) = n"
  by (simp add: vec_resize_def)

lemma vec_resize_grow: "vec_resize (length bs + n) bs = bs @ replicate n 0"
  by (simp add: vec_resize_def)

text \<open>Copies that fit into what \<^verbatim>\<open>resize\<close> appended replace it and leave the front alone.\<close>

lemma write_all_append:
  "length new = length (concat bss) \<Longrightarrow> write_all (length pre) bss (pre @ new) = Inr (pre @ concat bss)"
proof (induction bss arbitrary: pre new)
  case (Cons bs bss)
  have "mem_write (length pre) bs (pre @ new) = Inr ((pre @ bs) @ drop (length bs) new)"
    using Cons.prems by (simp add: mem_write_def)
  then show ?case
    using Cons.IH [of "drop (length bs) new" "pre @ bs"] Cons.prems by (simp add: write_all.simps)
qed (simp add: write_all.simps)

lemma write_all_resized [wire_simps]:
  "length (concat bss) = n \<Longrightarrow> write_all (length buf) bss (vec_resize (length buf + n) buf) = Inr (buf @ concat bss)"
  by (simp add: vec_resize_grow write_all_append)

lemma mem_read_append [wire_simps]:
  "length pre = off \<Longrightarrow> length bs = n \<Longrightarrow> mem_read off n (pre @ bs @ post) = Inr bs"
  by (auto simp: mem_read_def)

lemma mem_read_short: "length buf < off + n \<Longrightarrow> mem_read off n buf = Inl UB"
  by (simp add: mem_read_def)

lemma read_object_short: "length buf < off + LENGTH('a) div 8 \<Longrightarrow> read_object e off buf = (Inl UB :: 'a::len word result)"
  by (simp add: read_object_def mem_read_short)

lemma object_value_byte [simp]: "object_value e [b] = b"
  by (simp add: object_value_def host_order_def split: endian.split)

text \<open>A read at a fixed offset, computed from the fields in front of it.\<close>

lemma read_object_compute [wire_simps]:
  "off + LENGTH('a) div 8 \<le> length buf \<Longrightarrow>
     read_object e off buf = (Inr (object_value e (take (LENGTH('a) div 8) (drop off buf))) :: 'a::len word result)"
  by (simp add: read_object_def mem_read_def)

end
