(* ===== verification/Serializer.thy ===== *)
theory Serializer
  imports Bytes Orders
begin

text \<open>
  The wire format: \<^verbatim>\<open>include/message.hpp\<close>, the payload structs, and the whole of
  \<^verbatim>\<open>src/binary_serializer.cpp\<close>. A serializer appends a frame to a buffer: one byte of message
  type, the payload's length in network byte order, the payload. The fields of the payload are in
  the byte order of the host, which is a parameter. Deserializers read a payload at fixed offsets
  and do not look at its size.

  The locale \<open>codec\<close> is the contract of the abstract class \<^verbatim>\<open>Serializer\<close> for one kind of
  message; the six pairs of operations are six interpretations.
\<close>

section \<open>Messages\<close>

type_synonym MessageType = byte

definition NEW_ORDER :: MessageType where "NEW_ORDER = 1"
definition CANCEL_ORDER :: MessageType where "CANCEL_ORDER = 2"
definition ORDER_ACK :: MessageType where "ORDER_ACK = 3"
definition REJECT :: MessageType where "REJECT = 4"
definition TRADE :: MessageType where "TRADE = 5"
definition CANCEL_ACK :: MessageType where "CANCEL_ACK = 6"

lemmas message_types = NEW_ORDER_def CANCEL_ORDER_def ORDER_ACK_def REJECT_def TRADE_def CANCEL_ACK_def

record Message =
  msg_type :: MessageType
  payload :: "byte list"

record Acknowledgement =
  ack_id :: OrderId

record Rejection =
  rej_id :: OrderId
  reason :: string

section \<open>Operations\<close>

definition serialize_order :: "endian \<Rightarrow> order \<Rightarrow> byte list \<Rightarrow> byte list result" where
  "serialize_order e ord buffer =
     (let PAYLOAD_SIZE = 8 + 8 + 4 + 1 + 1; offset = length buffer
      in write_all offset
           [[NEW_ORDER], object_bytes e (htonl e (of_nat PAYLOAD_SIZE)),
            object_bytes e (o_id ord), object_bytes e (o_price ord), object_bytes e (o_quantity ord),
            [o_side ord], [o_type ord]]
           (vec_resize (offset + 5 + PAYLOAD_SIZE) buffer))"

text \<open>\<open>now\<close> is the clock reading of the constructor at the end.\<close>

definition deserialize_order :: "endian \<Rightarrow> Timestamp \<Rightarrow> Message \<Rightarrow> order result" where
  "deserialize_order e now message =
     result_bind (read_object e 0 (payload message)) (\<lambda>oid.
     result_bind (read_object e 8 (payload message)) (\<lambda>price.
     result_bind (read_object e 16 (payload message)) (\<lambda>quantity.
     result_bind (read_object e 20 (payload message)) (\<lambda>side.
     result_bind (read_object e 21 (payload message)) (\<lambda>otype.
       (case make_order now oid price quantity side otype of Inl x \<Rightarrow> Inl (Throw x) | Inr ord \<Rightarrow> Inr ord))))))"

definition serialize_cancel :: "endian \<Rightarrow> OrderId \<Rightarrow> byte list \<Rightarrow> byte list result" where
  "serialize_cancel e oid buffer =
     (let PAYLOAD_SIZE = 8; offset = length buffer
      in write_all offset
           [[CANCEL_ORDER], object_bytes e (htonl e (of_nat PAYLOAD_SIZE)), object_bytes e oid]
           (vec_resize (offset + 5 + PAYLOAD_SIZE) buffer))"

definition deserialize_cancel :: "endian \<Rightarrow> Message \<Rightarrow> OrderId result" where
  "deserialize_cancel e message = read_object e 0 (payload message)"

definition serialize_acknowledgement :: "endian \<Rightarrow> Acknowledgement \<Rightarrow> byte list \<Rightarrow> byte list result" where
  "serialize_acknowledgement e a buffer =
     (let PAYLOAD_SIZE = 8; offset = length buffer
      in write_all offset
           [[ORDER_ACK], object_bytes e (htonl e (of_nat PAYLOAD_SIZE)), object_bytes e (ack_id a)]
           (vec_resize (offset + 5 + PAYLOAD_SIZE) buffer))"

definition deserialize_acknowledgement :: "endian \<Rightarrow> Message \<Rightarrow> Acknowledgement result" where
  "deserialize_acknowledgement e message =
     result_bind (read_object e 0 (payload message)) (\<lambda>oid. Inr \<lparr>ack_id = oid\<rparr>)"

text \<open>
  The length of the reason is a \<^verbatim>\<open>size_t\<close> object, of which the first four bytes are copied.
\<close>

definition serialize_rejection :: "endian \<Rightarrow> Rejection \<Rightarrow> byte list \<Rightarrow> byte list result" where
  "serialize_rejection e rejection buffer =
     (let reason_length = length (reason rejection); PAYLOAD_SIZE = 8 + 4 + reason_length;
          offset = length buffer
      in write_all offset
           [[REJECT], object_bytes e (htonl e (of_nat PAYLOAD_SIZE)), object_bytes e (rej_id rejection),
            take 4 (object_bytes e (of_nat reason_length :: size_t)),
            map of_char (reason rejection)]
           (vec_resize (offset + 5 + PAYLOAD_SIZE) buffer))"

definition deserialize_rejection :: "endian \<Rightarrow> Message \<Rightarrow> Rejection result" where
  "deserialize_rejection e message =
     result_bind (read_object e 0 (payload message)) (\<lambda>oid.
     result_bind (read_object e 8 (payload message)) (\<lambda>reason_length :: 32 word.
     result_bind (mem_read 12 (unat reason_length) (payload message)) (\<lambda>bs.
       Inr \<lparr>rej_id = oid, reason = map (\<lambda>b. char_of (unat b)) bs\<rparr>)))"

definition serialize_trade :: "endian \<Rightarrow> trade \<Rightarrow> byte list \<Rightarrow> byte list result" where
  "serialize_trade e tr buffer =
     (let PAYLOAD_SIZE = 8 + 8 + 8 + 4 + 8; offset = length buffer
      in write_all offset
           [[TRADE], object_bytes e (htonl e (of_nat PAYLOAD_SIZE)),
            object_bytes e (t_price tr), object_bytes e (buyer_order_id tr),
            object_bytes e (seller_order_id tr), object_bytes e (t_quantity tr),
            object_bytes e (t_timestamp tr)]
           (vec_resize (offset + 5 + PAYLOAD_SIZE) buffer))"

definition deserialize_trade :: "endian \<Rightarrow> Message \<Rightarrow> trade result" where
  "deserialize_trade e message =
     result_bind (read_object e 0 (payload message)) (\<lambda>price.
     result_bind (read_object e 8 (payload message)) (\<lambda>buyer.
     result_bind (read_object e 16 (payload message)) (\<lambda>seller.
     result_bind (read_object e 24 (payload message)) (\<lambda>quantity.
     result_bind (read_object e 28 (payload message)) (\<lambda>timestamp.
       Inr \<lparr>t_price = price, buyer_order_id = buyer, seller_order_id = seller,
             t_quantity = quantity, t_timestamp = timestamp\<rparr>)))))"

definition serialize_cancel_ack :: "endian \<Rightarrow> Acknowledgement \<Rightarrow> byte list \<Rightarrow> byte list result" where
  "serialize_cancel_ack e a buffer =
     (let PAYLOAD_SIZE = 8; offset = length buffer
      in write_all offset
           [[CANCEL_ACK], object_bytes e (htonl e (of_nat PAYLOAD_SIZE)), object_bytes e (ack_id a)]
           (vec_resize (offset + 5 + PAYLOAD_SIZE) buffer))"

definition deserialize_cancel_ack :: "endian \<Rightarrow> Message \<Rightarrow> Acknowledgement result" where
  "deserialize_cancel_ack e message =
     result_bind (read_object e 0 (payload message)) (\<lambda>oid. Inr \<lparr>ack_id = oid\<rparr>)"

section \<open>Frames\<close>

text \<open>A frame as the protocol has it, and the payload of each kind of message.\<close>

definition frame :: "MessageType \<Rightarrow> byte list \<Rightarrow> byte list" where
  "frame t p = t # object_bytes BE (of_nat (length p) :: 32 word) @ p"

definition order_payload :: "endian \<Rightarrow> order \<Rightarrow> byte list" where
  "order_payload e ord = object_bytes e (o_id ord) @ object_bytes e (o_price ord)
     @ object_bytes e (o_quantity ord) @ [o_side ord, o_type ord]"

definition id_payload :: "endian \<Rightarrow> OrderId \<Rightarrow> byte list" where
  "id_payload e oid = object_bytes e oid"

definition rejection_payload :: "endian \<Rightarrow> Rejection \<Rightarrow> byte list" where
  "rejection_payload e rej = object_bytes e (rej_id rej)
     @ take 4 (object_bytes e (of_nat (length (reason rej)) :: size_t)) @ map of_char (reason rej)"

definition trade_payload :: "endian \<Rightarrow> trade \<Rightarrow> byte list" where
  "trade_payload e tr = object_bytes e (t_price tr) @ object_bytes e (buyer_order_id tr)
     @ object_bytes e (seller_order_id tr) @ object_bytes e (t_quantity tr) @ object_bytes e (t_timestamp tr)"

section \<open>The contract of a serializer\<close>

text \<open>
  \<open>encode\<close> is the payload of a value, \<open>view\<close> what a receiver makes of it. \<open>serialize\<close> appends the
  frame of the payload and \<open>deserialize\<close> takes the payload back, whatever the frame's type byte.
\<close>

locale codec =
  fixes tag :: MessageType
    and valid :: "'a \<Rightarrow> bool"
    and encode :: "'a \<Rightarrow> byte list"
    and view :: "'a \<Rightarrow> 'b"
    and serialize :: "'a \<Rightarrow> byte list \<Rightarrow> byte list result"
    and deserialize :: "Message \<Rightarrow> 'b result"
  assumes appends_frame: "valid x \<Longrightarrow> serialize x buf = Inr (buf @ frame tag (encode x))"
    and decodes: "valid x \<Longrightarrow> payload m = encode x \<Longrightarrow> deserialize m = Inr (view x)"
    and encode_size: "valid x \<Longrightarrow> length (encode x) < 2 ^ 32"
begin

text \<open>Serializing a list of values into one buffer, as the client does, concatenates the frames.\<close>

primrec serialize_list :: "'a list \<Rightarrow> byte list \<Rightarrow> byte list result" where
  "serialize_list [] buf = Inr buf"
| "serialize_list (x # xs) buf = result_bind (serialize x buf) (serialize_list xs)"

lemma serialize_list_frames:
  "\<forall>x \<in> set xs. valid x \<Longrightarrow>
     serialize_list xs buf = Inr (buf @ concat (map (\<lambda>x. frame tag (encode x)) xs))"
  by (induction xs arbitrary: buf) (simp_all add: appends_frame)

lemma encode_inj: "valid x \<Longrightarrow> valid y \<Longrightarrow> encode x = encode y \<Longrightarrow> view x = view y"
  using decodes [of x "\<lparr>msg_type = tag, payload = encode x\<rparr>"]
    decodes [of y "\<lparr>msg_type = tag, payload = encode x\<rparr>"] by simp

lemma round_trip: "valid x \<Longrightarrow> deserialize \<lparr>msg_type = t, payload = encode x\<rparr> = Inr (view x)"
  by (rule decodes) simp_all

end

section \<open>The six codecs\<close>

lemma length_frame [simp]: "length (frame t p) = 5 + length p"
  by (simp add: frame_def)

lemma length_payloads [simp]:
  "length (order_payload e ord) = 22" "length (id_payload e oid) = 8" "length (trade_payload e tr) = 36"
  "length (rejection_payload e rej) = 12 + length (reason rej)"
  by (simp_all add: order_payload_def id_payload_def trade_payload_def rejection_payload_def)

lemma serialize_order_frame: "serialize_order e ord buf = Inr (buf @ frame NEW_ORDER (order_payload e ord))"
  by (simp add: serialize_order_def Let_def wire_simps object_bytes_htonl frame_def order_payload_def add.assoc)

lemma serialize_cancel_frame: "serialize_cancel e oid buf = Inr (buf @ frame CANCEL_ORDER (id_payload e oid))"
  by (simp add: serialize_cancel_def Let_def wire_simps object_bytes_htonl frame_def id_payload_def add.assoc)

lemma serialize_acknowledgement_frame:
  "serialize_acknowledgement e a buf = Inr (buf @ frame ORDER_ACK (id_payload e (ack_id a)))"
  by (simp add: serialize_acknowledgement_def Let_def wire_simps object_bytes_htonl frame_def id_payload_def add.assoc)

lemma serialize_cancel_ack_frame:
  "serialize_cancel_ack e a buf = Inr (buf @ frame CANCEL_ACK (id_payload e (ack_id a)))"
  by (simp add: serialize_cancel_ack_def Let_def wire_simps object_bytes_htonl frame_def id_payload_def add.assoc)

lemma serialize_trade_frame: "serialize_trade e tr buf = Inr (buf @ frame TRADE (trade_payload e tr))"
  by (simp add: serialize_trade_def Let_def wire_simps object_bytes_htonl frame_def trade_payload_def add.assoc)

lemma serialize_rejection_frame:
  "serialize_rejection e rej buf = Inr (buf @ frame REJECT (rejection_payload e rej))"
  by (simp add: serialize_rejection_def Let_def wire_simps object_bytes_htonl frame_def rejection_payload_def add.assoc)

lemmas serialize_frames = serialize_order_frame serialize_cancel_frame serialize_acknowledgement_frame
  serialize_cancel_ack_frame serialize_trade_frame serialize_rejection_frame

lemma deserialize_order_payload:
  "payload m = order_payload e ord \<Longrightarrow> order_valid ord \<Longrightarrow>
     deserialize_order e now m = Inr (ord\<lparr>o_timestamp := now\<rparr>)"
  by (simp add: deserialize_order_def wire_simps) (simp add: order_payload_def make_order_ok order_valid_def)

lemma deserialize_id_payload:
  "payload m = id_payload e oid \<Longrightarrow> deserialize_cancel e m = Inr oid"
  "payload m = id_payload e oid \<Longrightarrow> deserialize_acknowledgement e m = Inr \<lparr>ack_id = oid\<rparr>"
  "payload m = id_payload e oid \<Longrightarrow> deserialize_cancel_ack e m = Inr \<lparr>ack_id = oid\<rparr>"
  by (simp_all add: deserialize_cancel_def deserialize_acknowledgement_def deserialize_cancel_ack_def
      wire_simps) (simp_all add: id_payload_def)

lemma deserialize_trade_payload:
  "payload m = trade_payload e tr \<Longrightarrow> deserialize_trade e m = Inr tr"
  by (simp add: deserialize_trade_def wire_simps) (simp add: trade_payload_def)

text \<open>
  On a little-endian host the first four bytes of the \<^verbatim>\<open>size_t\<close> are the low half of the length.
\<close>

lemma nat_bytes_take: "k \<le> n \<Longrightarrow> take k (nat_bytes n v) = nat_bytes k v"
proof (induction k arbitrary: n v)
  case (Suc k)
  then show ?case by (cases n) auto
qed simp

lemma reason_length_LE:
  "n < 2 ^ 32 \<Longrightarrow> object_value LE (take 4 (object_bytes LE (of_nat n :: size_t))) = (of_nat n :: 32 word)"
  by (simp add: object_bytes_def object_value_def host_order_def nat_bytes_take bytes_nat_of_nat unat_of_nat)

lemma char_of_byte [simp]: "char_of (unat (of_char c :: byte)) = c"
proof -
  have "unat (of_nat (of_char c) :: byte) = (of_char c :: nat)" by (simp add: unat_of_nat)
  then show ?thesis by (simp add: of_nat_of_char)
qed

lemma deserialize_rejection_payload:
  assumes "payload m = rejection_payload LE rej" and "length (reason rej) < 2 ^ 32"
  shows "deserialize_rejection LE m = Inr rej"
  using assms
  by (simp add: deserialize_rejection_def wire_simps)
    (simp add: rejection_payload_def reason_length_LE unat_of_nat mem_read_def comp_def)

interpretation order_codec: codec NEW_ORDER order_valid "order_payload e"
  "\<lambda>ord. ord\<lparr>o_timestamp := now\<rparr>" "serialize_order e" "deserialize_order e now" for e now
  by unfold_locales (simp_all add: serialize_frames deserialize_order_payload)

interpretation cancel_codec: codec CANCEL_ORDER "\<lambda>_. True" "id_payload e" "\<lambda>oid. oid"
  "serialize_cancel e" "deserialize_cancel e" for e
  by unfold_locales (simp_all add: serialize_frames deserialize_id_payload)

interpretation ack_codec: codec ORDER_ACK "\<lambda>_. True" "\<lambda>a. id_payload e (ack_id a)" "\<lambda>a. a"
  "serialize_acknowledgement e" "deserialize_acknowledgement e" for e
  by unfold_locales (simp_all add: serialize_frames deserialize_id_payload)

interpretation cancel_ack_codec: codec CANCEL_ACK "\<lambda>_. True" "\<lambda>a. id_payload e (ack_id a)" "\<lambda>a. a"
  "serialize_cancel_ack e" "deserialize_cancel_ack e" for e
  by unfold_locales (simp_all add: serialize_frames deserialize_id_payload)

interpretation trade_codec: codec TRADE "\<lambda>_. True" "trade_payload e" "\<lambda>tr. tr"
  "serialize_trade e" "deserialize_trade e" for e
  by unfold_locales (simp_all add: serialize_frames deserialize_trade_payload)

interpretation rejection_codec: codec REJECT "\<lambda>rej. length (reason rej) < 2 ^ 32 - 12"
  "rejection_payload LE" "\<lambda>rej. rej" "serialize_rejection LE" "deserialize_rejection LE"
  by unfold_locales (simp_all add: serialize_frames deserialize_rejection_payload)

text \<open>
  On a big-endian host the reason of a rejection is lost. The first four bytes of the
  \<^verbatim>\<open>size_t\<close> are its high half there, which is zero for every reason shorter than \<open>2 ^ 32\<close> bytes:
  the receiver reads an empty reason.
\<close>

lemma rejection_reason_lost_on_BE:
  assumes "length (reason rej) < 2 ^ 32"
  shows "deserialize_rejection BE \<lparr>msg_type = REJECT, payload = rejection_payload BE rej\<rparr> =
    Inr (rej\<lparr>reason := []\<rparr>)"
proof -
  let ?n = "length (reason rej)"
  have "nat_bytes 8 ?n = nat_bytes 4 ?n @ nat_bytes 4 (?n div 256 ^ 4)"
    using nat_bytes_add [of 4 4 ?n] by simp
  also have "?n div 256 ^ 4 = 0" using assms by simp
  finally have bytes: "take 4 (object_bytes BE (of_nat ?n :: size_t)) = rev (nat_bytes 4 0)"
    using assms by (simp add: object_bytes_def host_order_def unat_of_nat take_rev)
  have "(object_value BE (rev (nat_bytes 4 0)) :: 32 word) = 0"
    by (simp add: object_value_def host_order_def bytes_nat_of_nat)
  then show ?thesis
    by (simp add: deserialize_rejection_def wire_simps)
      (simp add: rejection_payload_def bytes mem_read_def)
qed

section \<open>Properties\<close>

text \<open>
  C23: Orders survive the wire. Serializing an order appends one frame to the buffer and leaves the
  bytes in front alone, with no access outside the buffer, on hosts of either byte order;
  deserializing the frame's payload gives the order back, with the timestamp of the receiver, when
  the order is one that the constructor accepts, and throws the constructor's exception otherwise.
\<close>

theorem order_wire_roundtrip:
  "serialize_order e ord buf = Inr (buf @ frame NEW_ORDER (order_payload e ord))
   \<and> deserialize_order e now \<lparr>msg_type = NEW_ORDER, payload = order_payload e ord\<rparr> =
       (case make_order now (o_id ord) (o_price ord) (o_quantity ord) (o_side ord) (o_type ord) of
          Inl x \<Rightarrow> Inl (Throw x) | Inr _ \<Rightarrow> Inr (ord\<lparr>o_timestamp := now\<rparr>))"
proof -
  have "deserialize_order e now \<lparr>msg_type = NEW_ORDER, payload = order_payload e ord\<rparr> =
      (case make_order now (o_id ord) (o_price ord) (o_quantity ord) (o_side ord) (o_type ord) of
         Inl x \<Rightarrow> Inl (Throw x) | Inr y \<Rightarrow> Inr y)"
    by (simp add: deserialize_order_def wire_simps) (simp add: order_payload_def)
  moreover have "y = ord\<lparr>o_timestamp := now\<rparr>"
    if "make_order now (o_id ord) (o_price ord) (o_quantity ord) (o_side ord) (o_type ord) = Inr y" for y
    using that by (simp add: make_order_Inr_iff)
  ultimately show ?thesis by (auto simp: serialize_order_frame split: sum.split)
qed

text \<open>
  C26: The answers of the exchange survive the wire. A serialized trade, deserialized on a host of the
  same byte order, is the same trade in every field; so is the id in the three messages that consist of
  one, cancellations, acknowledgements and acknowledgements of cancellations. A rejection survives
  between little-endian hosts when its reason is shorter than \<open>2 ^ 32 - 12\<close> bytes, which is when the
  payload's length fits the frame's length field. The frames differ in their type byte.
\<close>

theorem message_wire_roundtrips:
  "serialize_trade e tr buf = Inr (buf @ frame TRADE (trade_payload e tr))
   \<and> deserialize_trade e \<lparr>msg_type = TRADE, payload = trade_payload e tr\<rparr> = Inr tr
   \<and> serialize_cancel e oid buf = Inr (buf @ frame CANCEL_ORDER (id_payload e oid))
   \<and> deserialize_cancel e \<lparr>msg_type = CANCEL_ORDER, payload = id_payload e oid\<rparr> = Inr oid
   \<and> serialize_acknowledgement e \<lparr>ack_id = oid\<rparr> buf = Inr (buf @ frame ORDER_ACK (id_payload e oid))
   \<and> deserialize_acknowledgement e \<lparr>msg_type = ORDER_ACK, payload = id_payload e oid\<rparr> = Inr \<lparr>ack_id = oid\<rparr>
   \<and> serialize_cancel_ack e \<lparr>ack_id = oid\<rparr> buf = Inr (buf @ frame CANCEL_ACK (id_payload e oid))
   \<and> deserialize_cancel_ack e \<lparr>msg_type = CANCEL_ACK, payload = id_payload e oid\<rparr> = Inr \<lparr>ack_id = oid\<rparr>
   \<and> (length (reason rej) < 2 ^ 32 - 12 \<longrightarrow>
        serialize_rejection LE rej buf = Inr (buf @ frame REJECT (rejection_payload LE rej))
      \<and> deserialize_rejection LE \<lparr>msg_type = REJECT, payload = rejection_payload LE rej\<rparr> = Inr rej)
   \<and> distinct [NEW_ORDER, CANCEL_ORDER, TRADE, ORDER_ACK, CANCEL_ACK, REJECT]"
proof -
  have "serialize_rejection LE rej buf = Inr (buf @ frame REJECT (rejection_payload LE rej))
      \<and> deserialize_rejection LE \<lparr>msg_type = REJECT, payload = rejection_payload LE rej\<rparr> = Inr rej"
    if "length (reason rej) < 2 ^ 32 - 12"
    using rejection_codec.appends_frame [OF that] rejection_codec.round_trip [OF that] by blast
  then show ?thesis
    by (simp add: serialize_frames deserialize_id_payload trade_codec.round_trip message_types)
qed

theorem message_wire_roundtrips_witness:
  "deserialize_rejection LE \<lparr>msg_type = REJECT,
     payload = rejection_payload LE \<lparr>rej_id = 7, reason = ''order id not found in the book''\<rparr>\<rparr> =
   Inr \<lparr>rej_id = 7, reason = ''order id not found in the book''\<rparr>"
  using message_wire_roundtrips [of LE undefined "[]" 0 "\<lparr>rej_id = 7, reason = ''order id not found in the book''\<rparr>"]
  by simp

text \<open>
  C30: Deserializers trust the payload's size. Each of them reads outside the payload, which is
  undefined behaviour, exactly when the payload is shorter than its fixed fields, and for a
  rejection also when it is shorter than the reason that its length field announces.
\<close>

theorem short_payload_is_UB:
  "(deserialize_order e now m = Inl UB \<longleftrightarrow> length (payload m) < 22)
   \<and> (deserialize_cancel e m = Inl UB \<longleftrightarrow> length (payload m) < 8)
   \<and> (deserialize_acknowledgement e m = Inl UB \<longleftrightarrow> length (payload m) < 8)
   \<and> (deserialize_cancel_ack e m = Inl UB \<longleftrightarrow> length (payload m) < 8)
   \<and> (deserialize_trade e m = Inl UB \<longleftrightarrow> length (payload m) < 36)
   \<and> (deserialize_rejection e m = Inl UB \<longleftrightarrow> length (payload m) < 12
        \<or> length (payload m) < 12 + unat (object_value e (take 4 (drop 8 (payload m))) :: 32 word))"
proof (intro conjI)
  show "deserialize_order e now m = Inl UB \<longleftrightarrow> length (payload m) < 22"
    by (auto simp: deserialize_order_def read_object_def mem_read_def split: sum.split)
  show "deserialize_trade e m = Inl UB \<longleftrightarrow> length (payload m) < 36"
    by (auto simp: deserialize_trade_def read_object_def mem_read_def)
  show "deserialize_rejection e m = Inl UB \<longleftrightarrow> length (payload m) < 12
        \<or> length (payload m) < 12 + unat (object_value e (take 4 (drop 8 (payload m))) :: 32 word)"
    by (auto simp: deserialize_rejection_def read_object_def mem_read_def)
qed (auto simp: deserialize_cancel_def deserialize_acknowledgement_def deserialize_cancel_ack_def
    read_object_def mem_read_def)

end
