(* ===== verification/Queues.thy ===== *)
theory Queues
  imports Prelude
begin

text \<open>
  The contract of the queues between the threads. The server thread and the processing thread see
  a queue only through \<^verbatim>\<open>try_push\<close> and \<^verbatim>\<open>try_pop\<close>; the locale \<open>bounded_queue\<close> says what a
  bounded first-in first-out queue promises of them and derives what a client can rely on over any
  sequence of calls.
\<close>

section \<open>Sequences of calls\<close>

text \<open>
  A sequence of calls: \<open>Some x\<close> pushes, \<open>None\<close> pops. The result lists what was accepted and what
  came out. \<open>queue_drain\<close> pops until nothing comes out, at most \<open>n\<close> times.
\<close>

fun queue_calls ::
  "('a \<Rightarrow> 'q \<Rightarrow> bool \<times> 'q) \<Rightarrow> ('q \<Rightarrow> 'a option \<times> 'q) \<Rightarrow> 'a option list \<Rightarrow> 'q \<Rightarrow> 'a list \<times> 'a list \<times> 'q" where
  "queue_calls push pop [] q = ([], [], q)"
| "queue_calls push pop (Some x # cs) q =
     (case push x q of (ok, q') \<Rightarrow>
      case queue_calls push pop cs q' of (ins, outs, q'') \<Rightarrow> ((if ok then [x] else []) @ ins, outs, q''))"
| "queue_calls push pop (None # cs) q =
     (case pop q of (y, q') \<Rightarrow>
      case queue_calls push pop cs q' of (ins, outs, q'') \<Rightarrow>
        (ins, (case y of None \<Rightarrow> [] | Some x \<Rightarrow> [x]) @ outs, q''))"

fun queue_drain :: "('q \<Rightarrow> 'a option \<times> 'q) \<Rightarrow> nat \<Rightarrow> 'q \<Rightarrow> 'a list \<times> 'q" where
  "queue_drain pop 0 q = ([], q)"
| "queue_drain pop (Suc n) q =
     (case pop q of (None, q') \<Rightarrow> ([], q')
      | (Some x, q') \<Rightarrow> (case queue_drain pop n q' of (xs, q'') \<Rightarrow> (x # xs, q'')))"

section \<open>The contract\<close>

locale bounded_queue =
  fixes push :: "'a \<Rightarrow> 'q \<Rightarrow> bool \<times> 'q"
    and pop :: "'q \<Rightarrow> 'a option \<times> 'q"
    and contents :: "'q \<Rightarrow> 'a list"
    and inv :: "'q \<Rightarrow> bool"
    and room :: nat
  assumes push_room: "inv q \<Longrightarrow> length (contents q) < room \<Longrightarrow>
      \<exists>q'. push x q = (True, q') \<and> inv q' \<and> contents q' = contents q @ [x]"
    and push_full: "inv q \<Longrightarrow> \<not> length (contents q) < room \<Longrightarrow> push x q = (False, q)"
    and pop_empty: "inv q \<Longrightarrow> contents q = [] \<Longrightarrow> pop q = (None, q)"
    and pop_next: "inv q \<Longrightarrow> contents q = x # xs \<Longrightarrow>
      \<exists>q'. pop q = (Some x, q') \<and> inv q' \<and> contents q' = xs"
    and bounded: "inv q \<Longrightarrow> length (contents q) \<le> room"
begin

lemma push_cases:
  assumes "inv q"
  obtains (accepted) q' where "push x q = (True, q')" "inv q'" "contents q' = contents q @ [x]"
      "length (contents q) < room"
    | (refused) "push x q = (False, q)" "length (contents q) = room"
  using push_room [OF assms] push_full [OF assms] bounded [OF assms] by (metis le_neq_implies_less)

lemma pop_cases:
  assumes "inv q"
  obtains (nothing) "pop q = (None, q)" "contents q = []"
    | (item) x q' where "pop q = (Some x, q')" "inv q'" "contents q = x # contents q'"
  using pop_empty [OF assms] pop_next [OF assms] by (metis list.exhaust)

text \<open>
  First in, first out: what comes out, followed by what is still queued, is what was queued at the
  start followed by what was accepted.
\<close>

lemma fifo:
  "inv q \<Longrightarrow> queue_calls push pop cs q = (ins, outs, q') \<Longrightarrow>
     inv q' \<and> outs @ contents q' = contents q @ ins"
proof (induction cs arbitrary: q ins outs q')
  case (Cons c cs)
  show ?case
  proof (cases c)
    case None
    obtain y q1 where p: "pop q = (y, q1)" by (cases "pop q")
    obtain i o' q2 where c: "queue_calls push pop cs q1 = (i, o', q2)" by (metis prod_cases3)
    show ?thesis
      using Cons.IH [OF _ c] Cons.prems
      by (cases rule: pop_cases [OF Cons.prems(1)]) (auto simp: None p c)
  next
    case (Some x)
    obtain ok q1 where p: "push x q = (ok, q1)" by (cases "push x q")
    obtain i o' q2 where c: "queue_calls push pop cs q1 = (i, o', q2)" by (metis prod_cases3)
    show ?thesis
      using Cons.IH [OF _ c] Cons.prems
      by (cases rule: push_cases [OF Cons.prems(1), of x]) (auto simp: Some p c)
  qed
qed auto

text \<open>Popping \<open>n\<close> times takes out the first \<open>n\<close> items, or all of them when there are fewer.\<close>

lemma drain_take:
  "inv q \<Longrightarrow> \<exists>q'. queue_drain pop n q = (take n (contents q), q') \<and> inv q' \<and> contents q' = drop n (contents q)"
proof (induction n arbitrary: q)
  case (Suc n)
  from Suc.prems show ?case
  proof (cases rule: pop_cases)
    case nothing
    then show ?thesis using Suc.prems by simp
  next
    case (item x q1)
    then show ?thesis using Suc.IH [of q1] by auto
  qed
qed simp

end

end
