(* ===== verification/Ring_Buffer.thy ===== *)
theory Ring_Buffer
  imports Queues
begin

unbundle bit_operations_syntax

text \<open>
  \<^verbatim>\<open>SPSCRingBuffer\<close> of \<^verbatim>\<open>include/spsc_ring_buffer.hpp\<close>: an array of \<^verbatim>\<open>Capacity\<close> slots and two
  counters that only ever grow and wrap at \<open>2 ^ 64\<close>. A counter's slot is found by masking with
  \<^verbatim>\<open>Capacity - 1\<close>, which is right when the capacity is a power of two.

  Here each call runs alone; the interleaving of the two threads is the subject of the theory
  \<open>Ring_Concurrent\<close>. \<open>moved\<close> is what \<^verbatim>\<open>std::move\<close> leaves behind in the slot, which depends on
  the element type and is never read again.
\<close>

section \<open>Definitions\<close>

definition DEFAULT_RING_CAPACITY :: size_t where
  "DEFAULT_RING_CAPACITY = 8192"

record 'a ring =
  slots :: "'a list"
  head :: size_t
  tail :: size_t

definition slot :: "size_t \<Rightarrow> size_t \<Rightarrow> nat" where
  "slot Capacity i = unat (i AND (Capacity - 1))"

definition try_push :: "size_t \<Rightarrow> 'a \<Rightarrow> 'a ring \<Rightarrow> bool \<times> 'a ring" where
  "try_push Capacity item r =
     (if head r - tail r = Capacity then (False, r)
      else (True, r\<lparr>slots := (slots r)[slot Capacity (head r) := item], head := head r + 1\<rparr>))"

definition try_pop :: "('a \<Rightarrow> 'a) \<Rightarrow> size_t \<Rightarrow> 'a ring \<Rightarrow> 'a option \<times> 'a ring" where
  "try_pop moved Capacity r =
     (if tail r = head r then (None, r)
      else let i = slot Capacity (tail r); item = slots r ! i
           in (Some item, r\<lparr>slots := (slots r)[i := moved item], tail := tail r + 1\<rparr>))"

text \<open>A new ring: the slots hold default-constructed elements, both counters are zero.\<close>

definition new_ring :: "size_t \<Rightarrow> 'a \<Rightarrow> 'a ring" where
  "new_ring Capacity d = \<lparr>slots = replicate (unat Capacity) d, head = 0, tail = 0\<rparr>"

section \<open>Abstraction\<close>

definition ring_ok :: "size_t \<Rightarrow> 'a ring \<Rightarrow> bool" where
  "ring_ok Capacity r \<longleftrightarrow> length (slots r) = unat Capacity \<and> unat (head r - tail r) \<le> unat Capacity"

definition ring_list :: "size_t \<Rightarrow> 'a ring \<Rightarrow> 'a list" where
  "ring_list Capacity r =
     map (\<lambda>i. slots r ! slot Capacity (tail r + of_nat i)) [0..<unat (head r - tail r)]"

section \<open>Slots\<close>

lemma slot_pow2 [ring_simps]: "k < 64 \<Longrightarrow> slot (2 ^ k) w = unat w mod 2 ^ k"
proof -
  have "w AND (2 ^ k - 1) = take_bit k w" by (simp add: take_bit_eq_mask mask_eq_exp_minus_1)
  then have "slot (2 ^ k) w = take_bit k (unat w)" by (simp only: slot_def unsigned_take_bit_eq)
  then show ?thesis by (simp only: take_bit_eq_mod)
qed

lemma unat_pow2 [ring_simps]: "k < 64 \<Longrightarrow> unat (2 ^ k :: size_t) = 2 ^ k"
  using unat_of_nat [of "2 ^ k", where 'a = 64] power_strict_increasing [of k 64 "2 :: nat"] by simp

lemma slot_of_nat [ring_simps]:
  assumes "k < 64"
  shows "slot (2 ^ k) (of_nat n) = n mod 2 ^ k"
proof -
  have "(2 :: nat) ^ k dvd 2 ^ 64" using assms by (intro le_imp_power_dvd) simp
  then have "n mod 2 ^ 64 mod 2 ^ k = n mod 2 ^ k" by (rule mod_mod_cancel)
  then show ?thesis using assms by (simp add: slot_pow2 unat_of_nat)
qed

lemma slot_less: "0 < c \<Longrightarrow> slot c w < unat c"
proof -
  assume "0 < c"
  then have "slot c w \<le> unat (c - 1)"
    unfolding slot_def by (metis and.commute word_and_le1 word_le_nat_alt)
  then show ?thesis using \<open>0 < c\<close> by (simp add: unat_minus_one word_gt_0_unat)
qed

text \<open>Counters that are less than the capacity apart have different slots.\<close>

lemma mod_inj_window:
  assumes "i mod m = j mod m" and "i \<le> j" and "j < i + m"
  shows "i = (j :: nat)"
proof -
  have "m dvd j - i" using assms(1,2) by (metis mod_eq_dvd_iff_nat)
  then have "j - i = 0" using assms(2,3) nat_dvd_not_less [of "j - i" m] by linarith
  then show ?thesis using assms(2) by simp
qed

section \<open>Refinement of a bounded queue\<close>

lemma unat_suc_diff:
  fixes a b c :: size_t
  assumes "unat (a - b) < unat c"
  shows "unat (a + 1 - b) = Suc (unat (a - b))"
proof -
  have "Suc (unat (a - b)) < 2 ^ 64" using assms unsigned_less [of c, where 'a = nat] by simp
  then have "unat ((a - b) + 1) = Suc (unat (a - b))" by (simp add: unat_word_ariths)
  moreover have "a + 1 - b = (a - b) + 1" by (simp only: algebra_simps)
  ultimately show ?thesis by (simp only:)
qed

lemma unat_pred_diff:
  fixes a b :: size_t
  assumes "a \<noteq> b"
  shows "unat (a - (b + 1)) = unat (a - b) - 1" and "0 < unat (a - b)"
proof -
  have "a - b \<noteq> 0" using assms by simp
  then show "0 < unat (a - b)" by (simp add: unat_gt_0)
  have "a - (b + 1) = (a - b) - 1" by (simp only: algebra_simps)
  then show "unat (a - (b + 1)) = unat (a - b) - 1"
    by (simp only: unat_minus_one [OF \<open>a - b \<noteq> 0\<close>])
qed

text \<open>The slots of the queued items and of the next item are pairwise different.\<close>

lemma slots_differ:
  assumes "k < 64" and "i \<noteq> j" and "i < 2 ^ k" and "j < 2 ^ k"
  shows "slot (2 ^ k) (t + of_nat i) \<noteq> slot (2 ^ k) (t + of_nat j)"
proof -
  have s: "slot (2 ^ k) (t + of_nat n) = (unat t + n) mod 2 ^ k" for n
    using slot_of_nat [OF assms(1), of "unat t + n"] by simp
  have "(unat t + i) mod 2 ^ k \<noteq> (unat t + j) mod 2 ^ k" if "i < j" "j < 2 ^ k" for i j :: nat
    using mod_inj_window [of "unat t + i" "2 ^ k" "unat t + j"] that by auto
  then show ?thesis
    using assms(2-4) unfolding s by (metis linorder_neqE_nat)
qed

lemma try_push_room:
  assumes k: "k < 64" and ok: "ring_ok (2 ^ k) r" and room: "length (ring_list (2 ^ k) r) < 2 ^ k"
  shows "\<exists>r'. try_push (2 ^ k) x r = (True, r') \<and> ring_ok (2 ^ k) r'
    \<and> ring_list (2 ^ k) r' = ring_list (2 ^ k) r @ [x]"
proof -
  let ?n = "unat (head r - tail r)"
  have n: "?n < 2 ^ k" using room by (simp add: ring_list_def)
  then have ne: "head r - tail r \<noteq> 2 ^ k" using unat_pow2 [OF k] by auto
  have suc: "unat (head r + 1 - tail r) = Suc ?n"
    using unat_suc_diff [of "head r" "tail r" "2 ^ k"] n by (simp add: unat_pow2 [OF k])
  let ?b = "(slots r)[slot (2 ^ k) (head r) := x]"
  have "?b ! slot (2 ^ k) (tail r + of_nat i) = slots r ! slot (2 ^ k) (tail r + of_nat i)" if "i < ?n" for i
    using slots_differ [OF k, of ?n i "tail r"] that n by simp
  moreover have "?b ! slot (2 ^ k) (head r) = x"
    using slot_less [of "2 ^ k" "head r"] ok k by (simp add: ring_ok_def word_gt_0_unat unat_pow2)
  ultimately have "ring_list (2 ^ k) (r\<lparr>slots := ?b, head := head r + 1\<rparr>) = ring_list (2 ^ k) r @ [x]"
    by (simp add: ring_list_def suc)
  then show ?thesis
    using ok n ne k by (simp add: try_push_def ring_ok_def suc unat_pow2)
qed

lemma try_push_full:
  assumes k: "k < 64" and ok: "ring_ok (2 ^ k) r" and full: "\<not> length (ring_list (2 ^ k) r) < 2 ^ k"
  shows "try_push (2 ^ k) x r = (False, r)"
proof -
  have "unat (head r - tail r) = unat (2 ^ k :: size_t)"
    using ok full k by (simp add: ring_ok_def ring_list_def unat_pow2)
  then have "head r - tail r = 2 ^ k" by (simp only: word_unat_eq_iff)
  then show ?thesis by (simp add: try_push_def)
qed

lemma try_pop_next:
  assumes k: "k < 64" and ok: "ring_ok (2 ^ k) r" and c: "ring_list (2 ^ k) r = x # xs"
  shows "\<exists>r'. try_pop moved (2 ^ k) r = (Some x, r') \<and> ring_ok (2 ^ k) r' \<and> ring_list (2 ^ k) r' = xs"
proof -
  let ?n = "unat (head r - tail r)"
  have ne: "head r \<noteq> tail r" using c by (auto simp: ring_list_def)
  have n: "?n \<le> 2 ^ k" using ok k by (simp add: ring_ok_def unat_pow2)
  obtain m where m: "?n = Suc m" using unat_pred_diff(2) [OF ne] gr0_implies_Suc by blast
  have pre: "unat (head r - (tail r + 1)) = m" using unat_pred_diff(1) [OF ne] m by simp
  let ?s = "slot (2 ^ k) (tail r)"
  let ?b = "(slots r)[?s := moved (slots r ! ?s)]"
  have rest: "?b ! slot (2 ^ k) (tail r + 1 + of_nat i) = slots r ! slot (2 ^ k) (tail r + of_nat (Suc i))"
    if "i < m" for i
    using slots_differ [OF k, of 0 "Suc i" "tail r"] that n m by (simp add: add.assoc)
  have "x # xs = slots r ! ?s # map (\<lambda>i. slots r ! slot (2 ^ k) (tail r + of_nat (Suc i))) [0..<m]"
    using c unfolding ring_list_def m by (simp only: upt_conv_Cons map_Suc_upt [symmetric] list.map map_map)
      (simp add: comp_def)
  then have "slots r ! ?s = x" "ring_list (2 ^ k) (r\<lparr>slots := ?b, tail := tail r + 1\<rparr>) = xs"
    by (simp_all add: ring_list_def pre rest)
  then show ?thesis
    using ok ne k n m by (simp add: try_pop_def ring_ok_def Let_def pre unat_pow2)
qed

lemma try_pop_empty:
  "ring_list c r = [] \<Longrightarrow> try_pop moved c r = (None, r)"
  using unat_pred_diff(2) [of "head r" "tail r"] by (auto simp: ring_list_def try_pop_def)

lemma ring_list_bounded: "k < 64 \<Longrightarrow> ring_ok (2 ^ k) r \<Longrightarrow> length (ring_list (2 ^ k) r) \<le> 2 ^ k"
  by (simp add: ring_list_def ring_ok_def unat_pow2)

lemma new_ring_ok [simp]: "ring_ok c (new_ring c d)" "ring_list c (new_ring c d) = []"
  by (simp_all add: ring_ok_def ring_list_def new_ring_def)

lemma DEFAULT_RING_CAPACITY_pow2: "DEFAULT_RING_CAPACITY = 2 ^ 13"
  by (simp add: DEFAULT_RING_CAPACITY_def)

text \<open>The inbound and the outbound queue of the exchange.\<close>

interpretation ring_queue: bounded_queue "try_push DEFAULT_RING_CAPACITY"
  "try_pop moved DEFAULT_RING_CAPACITY" "ring_list DEFAULT_RING_CAPACITY"
  "ring_ok DEFAULT_RING_CAPACITY" "2 ^ 13" for moved :: "'a \<Rightarrow> 'a"
  unfolding DEFAULT_RING_CAPACITY_pow2
  by unfold_locales (rule try_push_room try_push_full try_pop_empty try_pop_next ring_list_bounded; simp)+

text \<open>
  First in, first out over any sequence of calls on a queue of the exchange: the items that
  came out, followed by the items still queued, are the items that were accepted, in order. Nothing
  is lost, duplicated or reordered, however often the buffer went round.
\<close>

lemma ring_fifo:
  assumes "queue_calls (try_push DEFAULT_RING_CAPACITY) (try_pop moved DEFAULT_RING_CAPACITY) cs
      (new_ring DEFAULT_RING_CAPACITY d) = (ins, outs, r)"
  shows "outs @ ring_list DEFAULT_RING_CAPACITY r = ins \<and> length (ring_list DEFAULT_RING_CAPACITY r) \<le> 8192"
  using ring_queue.fifo [OF _ assms] ring_queue.bounded [of r] by simp

section \<open>Properties\<close>

text \<open>
  C17: The ring buffer implements a bounded queue. For every power-of-two capacity that fits a
  \<^verbatim>\<open>size_t\<close> and every position of the two counters, wrapped ones included: \<^verbatim>\<open>try_push\<close> appends
  the item and returns true when fewer than \<^verbatim>\<open>Capacity\<close> items are queued, and returns false and
  changes nothing when it is full; \<^verbatim>\<open>try_pop\<close> takes out the oldest item, or returns nothing and
  changes nothing when it is empty. The invariant is kept.
\<close>

theorem ring_refines_bounded_queue:
  assumes "k < 64" and "ring_ok (2 ^ k) r"
  shows "(case try_push (2 ^ k) x r of (ok, r') \<Rightarrow>
      ok = (length (ring_list (2 ^ k) r) < 2 ^ k) \<and> ring_ok (2 ^ k) r'
      \<and> ring_list (2 ^ k) r' = (if ok then ring_list (2 ^ k) r @ [x] else ring_list (2 ^ k) r))
   \<and> (case try_pop moved (2 ^ k) r of (y, r') \<Rightarrow>
      ring_ok (2 ^ k) r' \<and> ring_list (2 ^ k) r = (case y of None \<Rightarrow> [] | Some z \<Rightarrow> [z]) @ ring_list (2 ^ k) r'
      \<and> (y = None \<longleftrightarrow> ring_list (2 ^ k) r = []))"
proof
  show "case try_push (2 ^ k) x r of (ok, r') \<Rightarrow>
      ok = (length (ring_list (2 ^ k) r) < 2 ^ k) \<and> ring_ok (2 ^ k) r'
      \<and> ring_list (2 ^ k) r' = (if ok then ring_list (2 ^ k) r @ [x] else ring_list (2 ^ k) r)"
    using try_push_room [OF assms, of x] try_push_full [OF assms, of x] assms(2)
    by (cases "length (ring_list (2 ^ k) r) < 2 ^ k") auto
  show "case try_pop moved (2 ^ k) r of (y, r') \<Rightarrow>
      ring_ok (2 ^ k) r' \<and> ring_list (2 ^ k) r = (case y of None \<Rightarrow> [] | Some z \<Rightarrow> [z]) @ ring_list (2 ^ k) r'
      \<and> (y = None \<longleftrightarrow> ring_list (2 ^ k) r = [])"
  proof (cases "ring_list (2 ^ k) r")
    case Nil
    then show ?thesis using try_pop_empty [OF Nil, of moved] assms(2) by simp
  next
    case (Cons z zs)
    then show ?thesis using try_pop_next [OF assms Cons, of moved] by auto
  qed
qed

text \<open>The counters of this ring are about to wrap: one item is queued, in the last slot.\<close>

theorem ring_refines_bounded_queue_witness:
  "fst (try_push 2 CHR ''b'' \<lparr>slots = [CHR ''x'', CHR ''a''], head = 0, tail = - 1\<rparr>)
   \<and> ring_list 2 (snd (try_push 2 CHR ''b'' \<lparr>slots = [CHR ''x'', CHR ''a''], head = 0, tail = - 1\<rparr>)) =
       [CHR ''a'', CHR ''b'']"
proof -
  let ?r = "\<lparr>slots = [CHR ''x'', CHR ''a''], head = 0, tail = - 1\<rparr>"
  have ok: "ring_ok (2 ^ 1) ?r" by (simp add: ring_ok_def)
  have l: "ring_list 2 ?r = [CHR ''a'']" by (simp add: ring_list_def slot_def)
  show ?thesis
    using ring_refines_bounded_queue [OF _ ok, of "CHR ''b''" "\<lambda>c. c"] l by (auto split: prod.splits)
qed

end
