(* ===== verification/Order_Processor.thy ===== *)
theory Order_Processor
  imports Book_Reach Serializer Ring_Buffer
begin

text \<open>
  The processing thread: \<^verbatim>\<open>src/order_processor.cpp\<close>. \<^verbatim>\<open>process\<close> takes one inbound message,
  drives the matching engine or the book, and pushes outbound messages; \<open>process\<close> here returns
  them in the order of the pushes, and \<open>push_wait\<close> is the loop that pushes one of them into the
  ring buffer.

  An exception inside the \<^verbatim>\<open>try\<close> blocks becomes a rejection. What leaves \<^verbatim>\<open>process\<close> is the
  exception for an unknown message type, and undefined behaviour where a payload is too short.
\<close>

section \<open>State and messages\<close>

record InboundMessage =
  in_fd :: fd
  in_type :: MessageType
  in_payload :: "byte list"

record OutboundMessage =
  out_fd :: fd
  out_payload :: "byte list"

text \<open>\<open>reads\<close> is the number of clock readings taken so far.\<close>

record processor =
  book :: orderbook
  order_to_client_fd :: "OrderId \<rightharpoonup> fd"
  reads :: nat

definition new_processor :: processor where
  "new_processor = \<lparr>book = empty_book, order_to_client_fd = Map.empty, reads = 0\<rparr>"

section \<open>Operations\<close>

text \<open>\<^verbatim>\<open>operator[]\<close> of an \<^verbatim>\<open>unordered_map<OrderId, int>\<close>: a missing key is inserted with value 0.\<close>

definition map_index :: "(OrderId \<rightharpoonup> fd) \<Rightarrow> OrderId \<Rightarrow> fd \<times> (OrderId \<rightharpoonup> fd)" where
  "map_index m k = (case m k of Some v \<Rightarrow> (v, m) | None \<Rightarrow> (0, m(k \<mapsto> 0)))"

definition counterparty :: "order \<Rightarrow> trade \<Rightarrow> OrderId" where
  "counterparty ord tr = (if o_side ord = ASK then buyer_order_id tr else seller_order_id tr)"

text \<open>The loop over the trades: the taker's buffer, the map, and the messages pushed.\<close>

fun report_trades ::
  "endian \<Rightarrow> order \<Rightarrow> trade list \<Rightarrow> (OrderId \<rightharpoonup> fd) \<Rightarrow> byte list \<Rightarrow>
     (byte list \<times> (OrderId \<rightharpoonup> fd) \<times> OutboundMessage list) result" where
  "report_trades e ord [] m buffer = Inr (buffer, m, [])"
| "report_trades e ord (tr # trs) m buffer =
     result_bind (serialize_trade e tr buffer) (\<lambda>buffer.
     result_bind (serialize_trade e tr []) (\<lambda>cp_buffer.
       case map_index m (counterparty ord tr) of (cp_fd, m) \<Rightarrow>
       result_bind (report_trades e ord trs m buffer) (\<lambda>(buffer, m, outs).
         Inr (buffer, m, \<lparr>out_fd = cp_fd, out_payload = cp_buffer\<rparr> # outs))))"

definition reply :: "InboundMessage \<Rightarrow> byte list \<Rightarrow> OutboundMessage" where
  "reply i_message buffer = \<lparr>out_fd = in_fd i_message, out_payload = buffer\<rparr>"

text \<open>The handler \<^verbatim>\<open>catch(const std::exception& e)\<close> of both cases, and the push after the switch.\<close>

definition reject :: "endian \<Rightarrow> InboundMessage \<Rightarrow> OrderId \<Rightarrow> exn \<Rightarrow> byte list \<Rightarrow> processor \<Rightarrow>
    (processor \<times> OutboundMessage list) result" where
  "reject e i_message raw_id x buffer p =
     result_bind (serialize_rejection e \<lparr>rej_id = raw_id, reason = what x\<rparr> buffer)
       (\<lambda>buffer. Inr (p, [reply i_message buffer]))"

definition process_new ::
  "endian \<Rightarrow> clock \<Rightarrow> InboundMessage \<Rightarrow> processor \<Rightarrow> (processor \<times> OutboundMessage list) result" where
  "process_new e clk i_message p =
     result_bind (read_object e 0 (in_payload i_message)) (\<lambda>raw_id.
       case deserialize_order e (clk (reads p)) \<lparr>msg_type = NEW_ORDER, payload = in_payload i_message\<rparr> of
         Inl (Throw x) \<Rightarrow> reject e i_message raw_id x [] (p\<lparr>reads := Suc (reads p)\<rparr>)
       | Inl f \<Rightarrow> Inl f
       | Inr ord \<Rightarrow>
           (case match clk (Suc (reads p)) (book p) ord [] of
              (Some x, b, r) \<Rightarrow> reject e i_message raw_id x [] (p\<lparr>book := b, reads := ticks r\<rparr>)
            | (None, b, r) \<Rightarrow>
                result_bind
                  (report_trades e ord (trades r) ((order_to_client_fd p)(o_id ord \<mapsto> in_fd i_message)) [])
                  (\<lambda>(buffer, m, outs).
                    result_bind (serialize_acknowledgement e \<lparr>ack_id = o_id ord\<rparr> buffer) (\<lambda>buffer.
                      Inr (p\<lparr>book := b, order_to_client_fd := m, reads := ticks r\<rparr>,
                           outs @ [reply i_message buffer])))))"

definition process_cancel ::
  "endian \<Rightarrow> InboundMessage \<Rightarrow> processor \<Rightarrow> (processor \<times> OutboundMessage list) result" where
  "process_cancel e i_message p =
     result_bind (read_object e 0 (in_payload i_message)) (\<lambda>raw_id.
       case deserialize_cancel e \<lparr>msg_type = CANCEL_ORDER, payload = in_payload i_message\<rparr> of
         Inl (Throw x) \<Rightarrow> reject e i_message raw_id x [] p
       | Inl f \<Rightarrow> Inl f
       | Inr oid \<Rightarrow>
           result_bind (serialize_cancel_ack e \<lparr>ack_id = oid\<rparr> []) (\<lambda>buffer.
             case cancel_order (book p) oid of
               Inl (Throw x) \<Rightarrow> reject e i_message raw_id x buffer p
             | Inl f \<Rightarrow> Inl f
             | Inr b \<Rightarrow>
                 Inr (p\<lparr>book := b, order_to_client_fd := (order_to_client_fd p)(oid := None)\<rparr>,
                      [reply i_message buffer])))"

definition process ::
  "endian \<Rightarrow> clock \<Rightarrow> InboundMessage \<Rightarrow> processor \<Rightarrow> (processor \<times> OutboundMessage list) result" where
  "process e clk i_message p =
     (if in_type i_message = NEW_ORDER then process_new e clk i_message p
      else if in_type i_message = CANCEL_ORDER then process_cancel e i_message p
      else Inl (Throw (Runtime_error ''unknown message type'')))"

text \<open>
  \<^verbatim>\<open>run\<close>: one turn of the loop, and the loop over what is queued. A fault ends the thread. The
  outbound messages are those of all messages processed.
\<close>

definition run_turn ::
  "endian \<Rightarrow> clock \<Rightarrow> (InboundMessage \<Rightarrow> InboundMessage) \<Rightarrow> InboundMessage ring \<Rightarrow> processor \<Rightarrow>
     (InboundMessage ring \<times> processor \<times> OutboundMessage list) result" where
  "run_turn e clk moved inbound p =
     (case try_pop moved DEFAULT_RING_CAPACITY inbound of
        (None, inbound) \<Rightarrow> Inr (inbound, p, [])
      | (Some message, inbound) \<Rightarrow>
          result_bind (process e clk message p) (\<lambda>(p, outs). Inr (inbound, p, outs)))"

fun process_all ::
  "endian \<Rightarrow> clock \<Rightarrow> InboundMessage list \<Rightarrow> processor \<Rightarrow> (processor \<times> OutboundMessage list) result" where
  "process_all e clk [] p = Inr (p, [])"
| "process_all e clk (m # ms) p =
     result_bind (process e clk m p) (\<lambda>(p, outs).
     result_bind (process_all e clk ms p) (\<lambda>(p, outs'). Inr (p, outs @ outs')))"

text \<open>
  The loop \<^verbatim>\<open>while(!outbound_queue_.try_push(o_message)) yield()\<close>. While the thread yields, the
  server thread may pop: the list says how many items it takes out during each yield, and the loop
  has no result when the list runs out. The items taken out meanwhile are part of the result.
\<close>

fun push_wait ::
  "('a \<Rightarrow> 'a) \<Rightarrow> size_t \<Rightarrow> 'a \<Rightarrow> nat list \<Rightarrow> 'a ring \<Rightarrow> ('a list \<times> 'a ring \<times> nat list) option" where
  "push_wait moved c x yields r =
     (case try_push c x r of
        (True, r') \<Rightarrow> Some ([], r', yields)
      | (False, r') \<Rightarrow>
          (case yields of
             [] \<Rightarrow> None
           | n # yields' \<Rightarrow>
               (case queue_drain (try_pop moved c) n r' of
                  (got, r'') \<Rightarrow>
                    (case push_wait moved c x yields' r'' of
                       None \<Rightarrow> None
                     | Some (got', rest) \<Rightarrow> Some (got @ got', rest)))))"

fun push_all ::
  "('a \<Rightarrow> 'a) \<Rightarrow> size_t \<Rightarrow> 'a list \<Rightarrow> nat list \<Rightarrow> 'a ring \<Rightarrow> ('a list \<times> 'a ring \<times> nat list) option" where
  "push_all moved c [] yields r = Some ([], r, yields)"
| "push_all moved c (x # xs) yields r =
     (case push_wait moved c x yields r of
        None \<Rightarrow> None
      | Some (got, r', yields') \<Rightarrow>
          (case push_all moved c xs yields' r' of
             None \<Rightarrow> None
           | Some (got', rest) \<Rightarrow> Some (got @ got', rest)))"

end
