(* ===== verification/Exchange_Server.thy ===== *)
theory Exchange_Server
  imports Order_Processor
begin

text \<open>
  The server thread: \<^verbatim>\<open>src/exchange_server.cpp\<close>, \<^verbatim>\<open>include/exchange_server.hpp\<close> and
  \<^verbatim>\<open>include/client_state.hpp\<close>. The operating system is a parameter: a record \<open>os\<close> of the calls
  that the server makes, each on an unknown kernel state. What the properties rely on is stated as
  predicates on that record (\<open>recv_ok\<close>, \<open>send_ok\<close>).

  \<^verbatim>\<open>clients_\<close> is a vector indexed by descriptor; an index outside it is undefined behaviour. The
  loops that depend on the kernel take fuel, which counts their rounds; \<open>None\<close> is a loop that has
  not ended yet.
\<close>

section \<open>The operating system\<close>

datatype recv_result = Recv_data "byte list" | Recv_closed | Recv_again | Recv_error
datatype send_result = Sent nat | Send_again | Send_error | Send_pipe
datatype accept_result = Accepted fd | Accept_again | Accept_error

text \<open>
  Calls that only succeed or fail return a flag. \<open>epoll_mod\<close> takes whether writability is of
  interest; readability always is. \<open>bind\<close> and \<open>connect\<close> take the parts of the address that vary. An
  event is a descriptor with its readable and writable flags. \<open>Send_pipe\<close> is a \<^verbatim>\<open>send\<close> on a connection
  that the peer has closed: the call is made without \<^verbatim>\<open>MSG_NOSIGNAL\<close>, so the kernel raises \<^verbatim>\<open>SIGPIPE\<close>, whose
  default action ends the process; other errors are \<open>Send_error\<close>.
\<close>

record 'k os =
  os_socket :: "'k \<Rightarrow> fd \<times> 'k"
  os_reuseaddr :: "fd \<Rightarrow> 'k \<Rightarrow> 'k"
  os_bind :: "fd \<Rightarrow> 16 word \<Rightarrow> 'k \<Rightarrow> bool \<times> 'k"
  os_listen :: "fd \<Rightarrow> 'k \<Rightarrow> bool \<times> 'k"
  os_nonblock :: "fd \<Rightarrow> 'k \<Rightarrow> bool \<times> 'k"
  os_nodelay :: "fd \<Rightarrow> 'k \<Rightarrow> 'k"
  os_epoll_create :: "'k \<Rightarrow> fd \<times> 'k"
  os_epoll_add :: "fd \<Rightarrow> 'k \<Rightarrow> bool \<times> 'k"
  os_epoll_mod :: "fd \<Rightarrow> bool \<Rightarrow> 'k \<Rightarrow> 'k"
  os_epoll_del :: "fd \<Rightarrow> 'k \<Rightarrow> 'k"
  os_epoll_wait :: "'k \<Rightarrow> (fd \<times> bool \<times> bool) list \<times> 'k"
  os_connect :: "fd \<Rightarrow> string \<Rightarrow> 16 word \<Rightarrow> 'k \<Rightarrow> bool \<times> 'k"
  os_accept :: "fd \<Rightarrow> 'k \<Rightarrow> accept_result \<times> 'k"
  os_recv :: "fd \<Rightarrow> nat \<Rightarrow> 'k \<Rightarrow> recv_result \<times> 'k"
  os_send :: "fd \<Rightarrow> byte list \<Rightarrow> 'k \<Rightarrow> send_result \<times> 'k"
  os_close :: "fd \<Rightarrow> 'k \<Rightarrow> 'k"

section \<open>State\<close>

datatype ReadPhase = HEADER | PAYLOAD

text \<open>
  The three counters are \<^verbatim>\<open>size_t\<close> in the code; natural numbers stand for them because they never exceed
  the length of a buffer (\<open>reader_ok\<close>, \<open>writer_ok\<close>).
\<close>

record ClientState =
  read_phase :: ReadPhase
  message_type :: MessageType
  header_buffer :: "byte list"
  read_buffer :: "byte list"
  write_buffer :: "byte list"
  payload_length :: "32 word"
  bytes_read :: nat
  bytes_sent :: nat
  send_size :: nat
  active :: bool

text \<open>\<^verbatim>\<open>ClientState{}\<close>: members without an initializer are zero.\<close>

definition empty_client :: ClientState where
  "empty_client = \<lparr>read_phase = HEADER, message_type = 0, header_buffer = replicate 5 0, read_buffer = [],
     write_buffer = [], payload_length = 0, bytes_read = 0, bytes_sent = 0, send_size = 0, active = False\<rparr>"

record 'k server =
  server_fd :: fd
  epoll_fd :: fd
  clients :: "ClientState list"
  pending_writes :: "fd list"
  port :: "16 word"
  inbound :: "InboundMessage ring"
  outbound :: "OutboundMessage ring"
  kernel :: 'k

text \<open>
  The constructor, on two new rings. The descriptors have no initializer: their first values are
  arguments, and \<open>start\<close> sets both.
\<close>

definition new_server ::
  "fd \<Rightarrow> fd \<Rightarrow> 16 word \<Rightarrow> InboundMessage ring \<Rightarrow> OutboundMessage ring \<Rightarrow> 'k \<Rightarrow> 'k server" where
  "new_server sfd efd p iq oq k = \<lparr>server_fd = sfd, epoll_fd = efd, clients = [], pending_writes = [],
     port = p, inbound = iq, outbound = oq, kernel = k\<rparr>"

definition client_at :: "fd \<Rightarrow> 'k server \<Rightarrow> ClientState result" where
  "client_at f s = (if 0 \<le> f \<and> nat f < length (clients s) then Inr (clients s ! nat f) else Inl UB)"

definition set_client :: "fd \<Rightarrow> ClientState \<Rightarrow> 'k server \<Rightarrow> 'k server" where
  "set_client f c s = s\<lparr>clients := (clients s)[nat f := c]\<rparr>"

section \<open>Reading\<close>

definition disconnect_client :: "'k os \<Rightarrow> fd \<Rightarrow> 'k server \<Rightarrow> 'k server result" where
  "disconnect_client os f s =
     (let s = s\<lparr>kernel := os_close os f (os_epoll_del os f (kernel s))\<rparr>
      in result_bind (client_at f s) (\<lambda>_. Inr (set_client f empty_client s)))"

text \<open>How a part of the read loop ends: the loop goes on, the handler returns, or the client is dropped.\<close>

datatype 'k read_outcome =
    Next ClientState "InboundMessage ring" 'k
  | Stop ClientState "InboundMessage ring" 'k
  | Drop "InboundMessage ring" 'k

definition parse_header :: "endian \<Rightarrow> ClientState \<Rightarrow> ClientState result" where
  "parse_header e c =
     result_bind (read_object e 1 (header_buffer c)) (\<lambda>net_length.
       let len = ntohl e net_length
       in Inr (c\<lparr>message_type := hd (header_buffer c), payload_length := len,
                 read_buffer := vec_resize (unat len) (read_buffer c), bytes_read := 0,
                 read_phase := (if len \<noteq> 0 then PAYLOAD else HEADER)\<rparr>))"

definition header_part ::
  "endian \<Rightarrow> 'k os \<Rightarrow> fd \<Rightarrow> ClientState \<Rightarrow> InboundMessage ring \<Rightarrow> 'k \<Rightarrow> 'k read_outcome result" where
  "header_part e os f c q k =
     (if read_phase c = HEADER then
        (case os_recv os f (5 - bytes_read c) k of
           (Recv_data bs, k) \<Rightarrow>
             result_bind (mem_write (bytes_read c) bs (header_buffer c)) (\<lambda>hb.
               let c = c\<lparr>header_buffer := hb, bytes_read := bytes_read c + length bs\<rparr>
               in if bytes_read c < 5 then Inr (Stop c q k)
                  else result_bind (parse_header e c) (\<lambda>c. Inr (Next c q k)))
         | (Recv_closed, k) \<Rightarrow> Inr (Drop q k)
         | (Recv_again, k) \<Rightarrow> Inr (Stop c q k)
         | (Recv_error, k) \<Rightarrow> Inr (Drop q k))
      else Inr (Next c q k))"

text \<open>The end of the loop body: the message is pushed, and the client reset when there was room.\<close>

definition push_message :: "fd \<Rightarrow> ClientState \<Rightarrow> InboundMessage ring \<Rightarrow> 'k \<Rightarrow> 'k read_outcome" where
  "push_message f c q k =
     (case try_push DEFAULT_RING_CAPACITY
             \<lparr>in_fd = f, in_type = message_type c, in_payload = read_buffer c\<rparr> q of
        (False, q) \<Rightarrow> Stop c q k
      | (True, q) \<Rightarrow> Next (c\<lparr>read_phase := HEADER, bytes_read := 0\<rparr>) q k)"

definition payload_part ::
  "'k os \<Rightarrow> fd \<Rightarrow> ClientState \<Rightarrow> InboundMessage ring \<Rightarrow> 'k \<Rightarrow> 'k read_outcome result" where
  "payload_part os f c q k =
     (if read_phase c = PAYLOAD then
        if bytes_read c < unat (payload_length c) then
          (case os_recv os f (unat (payload_length c) - bytes_read c) k of
             (Recv_data bs, k) \<Rightarrow>
               result_bind (mem_write (bytes_read c) bs (read_buffer c)) (\<lambda>rb.
                 let c = c\<lparr>read_buffer := rb, bytes_read := bytes_read c + length bs\<rparr>
                 in if bytes_read c < unat (payload_length c) then Inr (Stop c q k)
                    else Inr (push_message f c q k))
           | (Recv_closed, k) \<Rightarrow> Inr (Drop q k)
           | (Recv_again, k) \<Rightarrow> Inr (Stop c q k)
           | (Recv_error, k) \<Rightarrow> Inr (Drop q k))
        else Inr (push_message f c q k)
      else Inr (Next c q k))"

definition read_round ::
  "endian \<Rightarrow> 'k os \<Rightarrow> fd \<Rightarrow> ClientState \<Rightarrow> InboundMessage ring \<Rightarrow> 'k \<Rightarrow> 'k read_outcome result" where
  "read_round e os f c q k =
     result_bind (header_part e os f c q k) (\<lambda>out.
       case out of Next c q k \<Rightarrow> payload_part os f c q k | _ \<Rightarrow> Inr out)"

fun read_loop ::
  "endian \<Rightarrow> 'k os \<Rightarrow> fd \<Rightarrow> nat \<Rightarrow> ClientState \<Rightarrow> InboundMessage ring \<Rightarrow> 'k \<Rightarrow>
     'k read_outcome result option" where
  "read_loop e os f 0 c q k = None"
| "read_loop e os f (Suc fuel) c q k =
     (case read_round e os f c q k of
        Inr (Next c q k) \<Rightarrow> read_loop e os f fuel c q k
      | out \<Rightarrow> Some out)"

definition handle_read :: "endian \<Rightarrow> 'k os \<Rightarrow> nat \<Rightarrow> fd \<Rightarrow> 'k server \<Rightarrow> 'k server result option" where
  "handle_read e os fuel f s =
     (case client_at f s of
        Inl x \<Rightarrow> Some (Inl x)
      | Inr c \<Rightarrow>
          if \<not> active c then Some (Inr s)
          else
            (case read_loop e os f fuel c (inbound s) (kernel s) of
               None \<Rightarrow> None
             | Some (Inl x) \<Rightarrow> Some (Inl x)
             | Some (Inr (Next c q k)) \<Rightarrow> None
             | Some (Inr (Stop c q k)) \<Rightarrow> Some (Inr (set_client f c (s\<lparr>inbound := q, kernel := k\<rparr>)))
             | Some (Inr (Drop q k)) \<Rightarrow> Some (disconnect_client os f (s\<lparr>inbound := q, kernel := k\<rparr>))))"

section \<open>Writing\<close>

definition queue_output :: "OutboundMessage \<Rightarrow> 'k server \<Rightarrow> 'k server" where
  "queue_output message s =
     (case client_at (out_fd message) s of
        Inl _ \<Rightarrow> s
      | Inr c \<Rightarrow>
          if \<not> active c then s
          else (set_client (out_fd message) (c\<lparr>write_buffer := write_buffer c @ out_payload message\<rparr>) s)
                 \<lparr>pending_writes := pending_writes s @ [out_fd message]\<rparr>)"

text \<open>The loop ends when the outbound ring is empty; the fuel bounds the number of messages.\<close>

fun drain_outbound_queue ::
  "(OutboundMessage \<Rightarrow> OutboundMessage) \<Rightarrow> nat \<Rightarrow> 'k server \<Rightarrow> 'k server option" where
  "drain_outbound_queue moved 0 s = None"
| "drain_outbound_queue moved (Suc fuel) s =
     (case try_pop moved DEFAULT_RING_CAPACITY (outbound s) of
        (None, q) \<Rightarrow> Some (s\<lparr>outbound := q\<rparr>)
      | (Some message, q) \<Rightarrow> drain_outbound_queue moved fuel (queue_output message (s\<lparr>outbound := q\<rparr>)))"

definition set_epoll_write :: "'k os \<Rightarrow> fd \<Rightarrow> bool \<Rightarrow> 'k server \<Rightarrow> 'k server" where
  "set_epoll_write os f enable s = s\<lparr>kernel := os_epoll_mod os f enable (kernel s)\<rparr>"

definition try_send :: "'k os \<Rightarrow> fd \<Rightarrow> 'k server \<Rightarrow> 'k server result" where
  "try_send os f s =
     result_bind (client_at f s) (\<lambda>c.
       if \<not> active c then Inr s
       else if write_buffer c = [] then Inr s
       else (case os_send os f (drop (bytes_sent c) (write_buffer c)) (kernel s) of
               (Sent n, k) \<Rightarrow>
                 if n > 0 then
                   let c = c\<lparr>bytes_sent := bytes_sent c + n\<rparr>
                   in if bytes_sent c = length (write_buffer c)
                      then Inr (set_client f (c\<lparr>write_buffer := [], bytes_sent := 0\<rparr>) (s\<lparr>kernel := k\<rparr>))
                      else Inr (set_epoll_write os f True (set_client f c (s\<lparr>kernel := k\<rparr>)))
                 else disconnect_client os f (s\<lparr>kernel := k\<rparr>)
             | (Send_again, k) \<Rightarrow> Inr (s\<lparr>kernel := k\<rparr>)
             | (Send_error, k) \<Rightarrow> disconnect_client os f (s\<lparr>kernel := k\<rparr>)
             | (Send_pipe, k) \<Rightarrow> Inl Sigpipe))"

definition handle_write :: "'k os \<Rightarrow> fd \<Rightarrow> 'k server \<Rightarrow> 'k server result" where
  "handle_write os f s =
     result_bind (client_at f s) (\<lambda>c.
       if \<not> active c then Inr s
       else (case os_send os f (drop (bytes_sent c) (write_buffer c)) (kernel s) of
               (Sent n, k) \<Rightarrow>
                 if n > 0 then
                   let c = c\<lparr>bytes_sent := bytes_sent c + n\<rparr>
                   in if bytes_sent c < length (write_buffer c)
                      then Inr (set_client f c (s\<lparr>kernel := k\<rparr>))
                      else Inr (set_epoll_write os f False
                             (set_client f (c\<lparr>write_buffer := [], bytes_sent := 0\<rparr>) (s\<lparr>kernel := k\<rparr>)))
                 else disconnect_client os f (s\<lparr>kernel := k\<rparr>)
             | (Send_again, k) \<Rightarrow> Inr (s\<lparr>kernel := k\<rparr>)
             | (Send_error, k) \<Rightarrow> disconnect_client os f (s\<lparr>kernel := k\<rparr>)
             | (Send_pipe, k) \<Rightarrow> Inl Sigpipe))"

fun send_each :: "'k os \<Rightarrow> fd list \<Rightarrow> 'k server \<Rightarrow> 'k server result" where
  "send_each os [] s = Inr s"
| "send_each os (f # fs) s = result_bind (try_send os f s) (send_each os fs)"

definition flush_pending_writes :: "'k os \<Rightarrow> 'k server \<Rightarrow> 'k server result" where
  "flush_pending_writes os s =
     result_bind (send_each os (pending_writes s) s) (\<lambda>s. Inr (s\<lparr>pending_writes := []\<rparr>))"

section \<open>Connecting\<close>

text \<open>
  Registering an accepted descriptor: the vector grows to twice its size, or to hold the descriptor,
  and the descriptor's entry becomes a new active client.
\<close>

definition add_client :: "fd \<Rightarrow> 'k server \<Rightarrow> 'k server" where
  "add_client f s =
     (let cs = (if nat f \<ge> length (clients s)
                then clients s @ replicate (max (length (clients s) * 2) (nat (f + 1)) - length (clients s)) empty_client
                else clients s)
      in s\<lparr>clients := cs[nat f := empty_client\<lparr>active := True\<rparr>]\<rparr>)"

text \<open>
  One round of the accept loop: \<open>None\<close> when no connection is left, else the descriptor that was
  accepted and registered.
\<close>

definition accept_one :: "'k os \<Rightarrow> 'k server \<Rightarrow> (fd option \<times> 'k server) result" where
  "accept_one os s =
     (case os_accept os (server_fd s) (kernel s) of
        (Accept_again, k) \<Rightarrow> Inr (None, s\<lparr>kernel := k\<rparr>)
      | (Accept_error, k) \<Rightarrow> Inl (Throw (Runtime_error ''accept failed''))
      | (Accepted f, k) \<Rightarrow>
          (case os_nonblock os f k of
             (False, k) \<Rightarrow> Inl (Throw (Runtime_error ''failed to set socket to non blocking''))
           | (True, k) \<Rightarrow>
               (case os_epoll_add os f k of
                  (False, k) \<Rightarrow> Inl (Throw (Runtime_error ''failed to register client with epoll''))
                | (True, k) \<Rightarrow> Inr (Some f, add_client f (s\<lparr>kernel := os_nodelay os f k\<rparr>)))))"

fun accept_client :: "'k os \<Rightarrow> nat \<Rightarrow> 'k server \<Rightarrow> 'k server result option" where
  "accept_client os 0 s = None"
| "accept_client os (Suc fuel) s =
     (case accept_one os s of
        Inl x \<Rightarrow> Some (Inl x)
      | Inr (None, s) \<Rightarrow> Some (Inr s)
      | Inr (Some f, s) \<Rightarrow> accept_client os fuel s)"

text \<open>\<^verbatim>\<open>start\<close>: the calls in the order of the source; \<open>-1\<close> is a failed call that returns a descriptor.\<close>

definition start :: "'k os \<Rightarrow> 'k server \<Rightarrow> 'k server result" where
  "start os s =
     (case os_socket os (kernel s) of (f, k) \<Rightarrow>
      let k = os_reuseaddr os f k
      in if f = - 1 then Inl (Throw (Runtime_error ''socket creation failed''))
      else case os_bind os f (port s) k of
        (False, k) \<Rightarrow> Inl (Throw (Runtime_error ''bind failed''))
      | (True, k) \<Rightarrow>
      (case os_listen os f k of
        (False, k) \<Rightarrow> Inl (Throw (Runtime_error ''listen failed''))
      | (True, k) \<Rightarrow>
      (case os_nonblock os f k of
        (False, k) \<Rightarrow> Inl (Throw (Runtime_error ''failed to set socket to non blocking''))
      | (True, k) \<Rightarrow>
      (case os_epoll_create os k of (ep, k) \<Rightarrow>
      if ep = - 1 then Inl (Throw (Runtime_error ''epoll creation failed''))
      else (case os_epoll_add os f k of
        (False, k) \<Rightarrow> Inl (Throw (Runtime_error ''failed to register server with epoll''))
      | (True, k) \<Rightarrow>
          Inr (s\<lparr>server_fd := f, epoll_fd := ep, kernel := os_nodelay os f k,
                 clients := take 1024 (clients s) @ replicate (1024 - length (clients s)) empty_client\<rparr>))))))"

section \<open>The event loop\<close>

text \<open>
  \<open>opt_bind\<close> composes operations that may fault or not end. An event is handled as in \<^verbatim>\<open>run\<close>;
  \<open>server_turn\<close> is one round of its loop. One fuel serves all inner loops.
\<close>

definition opt_bind :: "'a result option \<Rightarrow> ('a \<Rightarrow> 'b result option) \<Rightarrow> 'b result option" where
  "opt_bind x g = (case x of None \<Rightarrow> None | Some (Inl f) \<Rightarrow> Some (Inl f) | Some (Inr y) \<Rightarrow> g y)"

definition handle_event ::
  "endian \<Rightarrow> 'k os \<Rightarrow> nat \<Rightarrow> fd \<times> bool \<times> bool \<Rightarrow> 'k server \<Rightarrow> 'k server result option" where
  "handle_event e os fuel ev s =
     (case ev of (f, readable, writable) \<Rightarrow>
        if f = server_fd s then accept_client os fuel s
        else opt_bind (if readable then handle_read e os fuel f s else Some (Inr s))
               (\<lambda>s. if writable then Some (handle_write os f s) else Some (Inr s)))"

fun handle_events ::
  "endian \<Rightarrow> 'k os \<Rightarrow> nat \<Rightarrow> (fd \<times> bool \<times> bool) list \<Rightarrow> 'k server \<Rightarrow> 'k server result option" where
  "handle_events e os fuel [] s = Some (Inr s)"
| "handle_events e os fuel (ev # evs) s =
     opt_bind (handle_event e os fuel ev s) (handle_events e os fuel evs)"

definition server_turn ::
  "endian \<Rightarrow> 'k os \<Rightarrow> (OutboundMessage \<Rightarrow> OutboundMessage) \<Rightarrow> nat \<Rightarrow> 'k server \<Rightarrow> 'k server result option" where
  "server_turn e os moved fuel s =
     (case drain_outbound_queue moved fuel s of
        None \<Rightarrow> None
      | Some s \<Rightarrow>
          opt_bind (Some (flush_pending_writes os s)) (\<lambda>s.
            case os_epoll_wait os (kernel s) of (evs, k) \<Rightarrow>
              handle_events e os fuel (take 64 evs) (s\<lparr>kernel := k\<rparr>)))"

section \<open>What is assumed of the operating system\<close>

text \<open>
  \<^verbatim>\<open>recv\<close> on a stream socket: \<open>left k f\<close> are the bytes that the peer of \<open>f\<close> has sent or will
  send and that are not yet received. A successful call returns the next bytes of the stream, at
  least one and at most the number asked for; a call that returns no data takes nothing.
\<close>

definition recv_ok :: "'k os \<Rightarrow> ('k \<Rightarrow> fd \<Rightarrow> byte list) \<Rightarrow> bool" where
  "recv_ok os left \<longleftrightarrow> (\<forall>f n k. 0 < n \<longrightarrow>
     (case os_recv os f n k of
        (Recv_data bs, k') \<Rightarrow> bs \<noteq> [] \<and> length bs \<le> n \<and> left k f = bs @ left k' f
      | (_, k') \<Rightarrow> left k' f = left k f))"

text \<open>
  \<^verbatim>\<open>send\<close> on a stream socket: \<open>wire k f\<close> are the bytes handed to the kernel for \<open>f\<close> so far. A
  successful call takes a prefix of the bytes offered; no call hands over bytes for another
  descriptor.
\<close>

definition send_ok :: "'k os \<Rightarrow> ('k \<Rightarrow> fd \<Rightarrow> byte list) \<Rightarrow> bool" where
  "send_ok os wire \<longleftrightarrow>
     (\<forall>f bs k g. case os_send os f bs k of
        (Sent n, k') \<Rightarrow> n \<le> length bs \<and> wire k' g = wire k g @ (if g = f then take n bs else [])
      | (_, k') \<Rightarrow> wire k' g = wire k g)
     \<and> (\<forall>f b k. wire (os_epoll_mod os f b k) = wire k)
     \<and> (\<forall>f k. wire (os_epoll_del os f k) = wire k) \<and> (\<forall>f k. wire (os_close os f k) = wire k)"

text \<open>
  \<open>watched k\<close> are the descriptors registered with the epoll instance: only \<^verbatim>\<open>EPOLL_CTL_ADD\<close> adds one,
  and \<^verbatim>\<open>epoll_wait\<close> reports only these.
\<close>

definition watch_ok :: "'k os \<Rightarrow> ('k \<Rightarrow> fd set) \<Rightarrow> bool" where
  "watch_ok os watched \<longleftrightarrow>
     (\<forall>k. watched (snd (os_socket os k)) \<subseteq> watched k \<and> watched (snd (os_epoll_create os k)) \<subseteq> watched k
        \<and> watched (snd (os_epoll_wait os k)) \<subseteq> watched k \<and> fst ` set (fst (os_epoll_wait os k)) \<subseteq> watched k)
     \<and> (\<forall>f k. watched (os_reuseaddr os f k) \<subseteq> watched k \<and> watched (snd (os_listen os f k)) \<subseteq> watched k
        \<and> watched (snd (os_nonblock os f k)) \<subseteq> watched k \<and> watched (os_nodelay os f k) \<subseteq> watched k
        \<and> watched (snd (os_epoll_add os f k)) \<subseteq> insert f (watched k)
        \<and> watched (os_epoll_del os f k) \<subseteq> watched k \<and> watched (os_close os f k) \<subseteq> watched k
        \<and> watched (snd (os_accept os f k)) \<subseteq> watched k)
     \<and> (\<forall>f p k. watched (snd (os_bind os f p k)) \<subseteq> watched k)
     \<and> (\<forall>f b k. watched (os_epoll_mod os f b k) \<subseteq> watched k)
     \<and> (\<forall>f n k. watched (snd (os_recv os f n k)) \<subseteq> watched k)
     \<and> (\<forall>f bs k. watched (snd (os_send os f bs k)) \<subseteq> watched k)"

text \<open>
  The streams of different descriptors are separate, and only \<^verbatim>\<open>recv\<close>, \<^verbatim>\<open>send\<close>, \<^verbatim>\<open>close\<close> and a new
  connection touch them: a call on one descriptor leaves the streams of the others, and the other
  calls leave all of them.
\<close>

definition streams_ok :: "'k os \<Rightarrow> ('k \<Rightarrow> fd \<Rightarrow> byte list) \<Rightarrow> ('k \<Rightarrow> fd \<Rightarrow> byte list) \<Rightarrow> bool" where
  "streams_ok os left wire \<longleftrightarrow>
     (\<forall>f n k. wire (snd (os_recv os f n k)) = wire k \<and> (\<forall>g. g \<noteq> f \<longrightarrow> left (snd (os_recv os f n k)) g = left k g))
     \<and> (\<forall>f bs k. left (snd (os_send os f bs k)) = left k)
     \<and> (\<forall>f b k. left (os_epoll_mod os f b k) = left k)
     \<and> (\<forall>f k. left (os_epoll_del os f k) = left k \<and> (\<forall>g. g \<noteq> f \<longrightarrow> left (os_close os f k) g = left k g))
     \<and> (\<forall>k. left (snd (os_epoll_wait os k)) = left k \<and> wire (snd (os_epoll_wait os k)) = wire k)
     \<and> (\<forall>f k. left (snd (os_nonblock os f k)) = left k \<and> wire (snd (os_nonblock os f k)) = wire k
        \<and> left (snd (os_epoll_add os f k)) = left k \<and> wire (snd (os_epoll_add os f k)) = wire k
        \<and> left (os_nodelay os f k) = left k \<and> wire (os_nodelay os f k) = wire k)
     \<and> (\<forall>f k g. fst (os_accept os f k) \<noteq> Accepted g \<longrightarrow>
          left (snd (os_accept os f k)) g = left k g \<and> wire (snd (os_accept os f k)) g = wire k g)"

end
