(* ===== verification/Server_Props.thy ===== *)
theory Server_Props
  imports Exchange_Server
begin

text \<open>
  What the server thread guarantees. Reading: whatever pieces the kernel delivers a byte stream in,
  the messages pushed are the frames of the stream, in order. Writing: the bytes on the wire are the
  payloads queued for a client, in order. Both are stated with a ghost view of the kernel's stream.
\<close>

section \<open>Reading\<close>

abbreviation queued :: "'a ring \<Rightarrow> 'a list" where
  "queued \<equiv> ring_list DEFAULT_RING_CAPACITY"

abbreviation queue_ok :: "'a ring \<Rightarrow> bool" where
  "queue_ok \<equiv> ring_ok DEFAULT_RING_CAPACITY"

definition frames :: "(MessageType \<times> byte list) list \<Rightarrow> byte list" where
  "frames fs = concat (map (\<lambda>(t, p). frame t p) fs)"

text \<open>The messages that the frames stand for; empty payloads are keep-alive pings.\<close>

definition messages :: "fd \<Rightarrow> (MessageType \<times> byte list) list \<Rightarrow> InboundMessage list" where
  "messages f fs = map (\<lambda>(t, p). \<lparr>in_fd = f, in_type = t, in_payload = p\<rparr>) (filter (\<lambda>(t, p). p \<noteq> []) fs)"

text \<open>Frames whose length field can be right.\<close>

definition fits :: "(MessageType \<times> byte list) list \<Rightarrow> bool" where
  "fits fs \<longleftrightarrow> list_all (\<lambda>(t, p). length p < 2 ^ 32) fs"

text \<open>The bytes of the frame that a client state has received so far.\<close>

definition held :: "ClientState \<Rightarrow> byte list" where
  "held c = (case read_phase c of
       HEADER \<Rightarrow> take (bytes_read c) (header_buffer c)
     | PAYLOAD \<Rightarrow> header_buffer c @ take (bytes_read c) (read_buffer c))"

definition reader_ok :: "ClientState \<Rightarrow> bool" where
  "reader_ok c \<longleftrightarrow> (case read_phase c of
       HEADER \<Rightarrow> length (header_buffer c) = 5 \<and> bytes_read c < 5
     | PAYLOAD \<Rightarrow> header_buffer c = message_type c # object_bytes BE (payload_length c)
         \<and> payload_length c \<noteq> 0 \<and> length (read_buffer c) = unat (payload_length c)
         \<and> bytes_read c \<le> unat (payload_length c))"

lemma frames_simps [simp]:
  "frames [] = []" "frames ((t, p) # fs) = frame t p @ frames fs" "frames (fs @ gs) = frames fs @ frames gs"
  by (simp_all add: frames_def)

lemma messages_simps [simp]:
  "messages f [] = []"
  "messages f ((t, p) # fs) = (if p = [] then [] else [\<lparr>in_fd = f, in_type = t, in_payload = p\<rparr>]) @ messages f fs"
  "messages f (fs @ gs) = messages f fs @ messages f gs"
  by (simp_all add: messages_def)

lemma fits_simps [simp]:
  "fits []" "fits ((t, p) # fs) \<longleftrightarrow> length p < 2 ^ 32 \<and> fits fs" "fits (fs @ gs) \<longleftrightarrow> fits fs \<and> fits gs"
  by (simp_all add: fits_def)

lemma network_length:
  assumes "length bs = 4"
  shows "object_bytes BE (ntohl e (object_value e bs)) = bs"
proof -
  have "object_bytes BE (ntohl e (object_value e bs)) = object_bytes e (htonl e (ntohl e (object_value e bs)))"
    by (simp add: object_bytes_htonl)
  also have "htonl e (ntohl e (object_value e bs)) = object_value e bs"
    using ntohl_htonl [of e "object_value e bs"] by (simp add: ntohl_def)
  finally show ?thesis using assms by (simp add: object_bytes_value)
qed

text \<open>A complete header: the client is at the start of the payload, or behind an empty frame.\<close>

lemma parse_header_ok:
  assumes "length (header_buffer c) = 5"
  obtains c' where "parse_header e c = Inr c'" "reader_ok c'" "active c' = active c"
    "write_buffer c' = write_buffer c" "bytes_sent c' = bytes_sent c" "bytes_read c' = 0"
    "read_phase c' = PAYLOAD \<and> held c' = header_buffer c \<or>
     read_phase c' = HEADER \<and> held c' = [] \<and> header_buffer c = frame (hd (header_buffer c)) []"
proof -
  let ?hb = "header_buffer c"
  define len where "len = ntohl e (object_value e (take 4 (drop 1 ?hb)) :: 32 word)"
  have hb: "?hb = hd ?hb # take 4 (drop 1 ?hb)" using assms by (cases ?hb) simp_all
  have bytes: "object_bytes BE len = take 4 (drop 1 ?hb)"
    unfolding len_def using assms by (intro network_length) simp
  let ?c = "c\<lparr>message_type := hd ?hb, payload_length := len, read_buffer := vec_resize (unat len) (read_buffer c),
      bytes_read := 0, read_phase := (if len \<noteq> 0 then PAYLOAD else HEADER)\<rparr>"
  have "parse_header e c = Inr ?c"
    using assms by (simp add: parse_header_def read_object_compute len_def Let_def)
  moreover have "reader_ok ?c" using hb bytes assms by (simp add: reader_ok_def)
  moreover have "?hb = frame (hd ?hb) []" if "len = 0"
    using hb bytes that by (simp add: frame_def)
  ultimately show ?thesis
    by (intro that [of ?c]) (auto simp: held_def)
qed

lemma mem_write_fill:
  assumes "i + length bs \<le> length buf"
  shows "\<exists>buf'. mem_write i bs buf = Inr buf' \<and> length buf' = length buf
    \<and> take (i + length bs) buf' = take i buf @ bs"
  using assms by (simp add: mem_write_def)

text \<open>What a round of the loop, or several, does to a client, the inbound ring and the stream.\<close>

definition progress ::
  "('k \<Rightarrow> fd \<Rightarrow> byte list) \<Rightarrow> fd \<Rightarrow> ClientState \<Rightarrow> InboundMessage ring \<Rightarrow> 'k \<Rightarrow> ClientState \<Rightarrow>
     InboundMessage ring \<Rightarrow> 'k \<Rightarrow> bool" where
  "progress left f c q k c' q' k' \<longleftrightarrow> (\<exists>fs. fits fs \<and> queued q' = queued q @ messages f fs
     \<and> held c @ left k f = frames fs @ held c' @ left k' f)
     \<and> reader_ok c' \<and> queue_ok q' \<and> active c' = active c \<and> write_buffer c' = write_buffer c
     \<and> bytes_sent c' = bytes_sent c"

text \<open>A client that waits with a complete message waits for room in the ring.\<close>

definition blocked :: "ClientState \<Rightarrow> bool" where
  "blocked c \<longleftrightarrow> read_phase c = PAYLOAD \<and> bytes_read c = unat (payload_length c)"

definition outcome_ok ::
  "('k \<Rightarrow> fd \<Rightarrow> byte list) \<Rightarrow> fd \<Rightarrow> ClientState \<Rightarrow> InboundMessage ring \<Rightarrow> 'k \<Rightarrow> 'k read_outcome \<Rightarrow> bool" where
  "outcome_ok left f c q k out \<longleftrightarrow> (case out of
       Next c' q' k' \<Rightarrow> progress left f c q k c' q' k'
     | Stop c' q' k' \<Rightarrow> progress left f c q k c' q' k' \<and> (blocked c' \<longrightarrow> length (queued q') = 8192)
     | Drop q' k' \<Rightarrow> queue_ok q' \<and> (\<exists>fs rest. fits fs \<and> queued q' = queued q @ messages f fs
         \<and> held c @ left k f = frames fs @ rest))"

lemma progress_refl: "reader_ok c \<Longrightarrow> queue_ok q \<Longrightarrow> left k' f = left k f \<Longrightarrow> progress left f c q k c q k'"
  unfolding progress_def by (auto intro!: exI [of _ "[]"])

lemma progress_trans:
  assumes "progress left f c q k c' q' k'" and "progress left f c' q' k' c'' q'' k''"
  shows "progress left f c q k c'' q'' k''"
proof -
  obtain fs gs where "fits fs" "fits gs" "queued q' = queued q @ messages f fs" "held c @ left k f = frames fs @ held c' @ left k' f"
    "queued q'' = queued q' @ messages f gs" "held c' @ left k' f = frames gs @ held c'' @ left k'' f"
    using assms unfolding progress_def by blast
  then have "fits (fs @ gs) \<and> queued q'' = queued q @ messages f (fs @ gs)
      \<and> held c @ left k f = frames (fs @ gs) @ held c'' @ left k'' f" by simp
  then show ?thesis using assms unfolding progress_def by metis
qed

lemma outcome_trans:
  assumes "progress left f c q k c' q' k'" and "outcome_ok left f c' q' k' out"
  shows "outcome_ok left f c q k out"
proof (cases out)
  case (Drop q'' k'')
  obtain fs gs rest where "fits fs" "fits gs" "queued q' = queued q @ messages f fs" "held c @ left k f = frames fs @ held c' @ left k' f"
    "queued q'' = queued q' @ messages f gs" "held c' @ left k' f = frames gs @ rest"
    using assms unfolding progress_def outcome_ok_def Drop by auto
  then have "fits (fs @ gs) \<and> queued q'' = queued q @ messages f (fs @ gs) \<and> held c @ left k f = frames (fs @ gs) @ rest" by simp
  moreover have "queue_ok q''" using assms(2) by (simp add: outcome_ok_def Drop)
  ultimately show ?thesis unfolding outcome_ok_def Drop by (simp only: read_outcome.case) blast
qed (use assms progress_trans in \<open>auto simp: outcome_ok_def\<close>)

text \<open>Such a client holds a complete frame.\<close>

lemma blocked_held:
  assumes "reader_ok c" and "blocked c"
  shows "held c = frame (message_type c) (read_buffer c)" and "read_buffer c \<noteq> []" and "length (read_buffer c) < 2 ^ 32"
proof -
  have "unat (payload_length c) < 2 ^ 32" using unsigned_less [of "payload_length c", where 'a = nat] by simp
  then show "held c = frame (message_type c) (read_buffer c)" "read_buffer c \<noteq> []" "length (read_buffer c) < 2 ^ 32"
    using assms by (auto simp: reader_ok_def blocked_def held_def frame_def unat_eq_zero)
qed

lemma push_message_ok:
  assumes c: "reader_ok c" "blocked c" and q: "queue_ok q"
  shows "outcome_ok left f c q k (push_message f c q k)"
    and "push_message f c q k = Next c' q' k' \<Longrightarrow> read_phase c' = HEADER \<and> k' = k"
proof -
  let ?m = "\<lparr>in_fd = f, in_type = message_type c, in_payload = read_buffer c\<rparr>"
  note held = blocked_held(1) [OF c] and ne = blocked_held(2) [OF c] and fit = blocked_held(3) [OF c]
  consider (room) q' where "try_push DEFAULT_RING_CAPACITY ?m q = (True, q')" "queue_ok q'" "queued q' = queued q @ [?m]"
    | (full) "try_push DEFAULT_RING_CAPACITY ?m q = (False, q)" "length (queued q) = 8192"
    using ring_queue.push_cases [OF q, of ?m thesis] by simp
  then show "outcome_ok left f c q k (push_message f c q k)"
  proof cases
    case room
    have "progress left f c q k (c\<lparr>read_phase := HEADER, bytes_read := 0\<rparr>) q' k"
      unfolding progress_def
      using room(2,3) held ne c fit by (intro conjI exI [of _ "[(message_type c, read_buffer c)]"])
        (auto simp: held_def reader_ok_def blocked_def)
    then show ?thesis by (simp add: push_message_def room(1) outcome_ok_def)
  next
    case full
    then show ?thesis using progress_refl [OF c(1) q, of left k f k] by (simp add: push_message_def outcome_ok_def)
  qed
  show "push_message f c q k = Next c' q' k' \<Longrightarrow> read_phase c' = HEADER \<and> k' = k"
    by (auto simp: push_message_def split: prod.splits bool.splits)
qed

lemma recv_cases:
  assumes "recv_ok os left" and "0 < n"
  obtains (data) bs k' where "os_recv os f n k = (Recv_data bs, k')" "bs \<noteq> []" "length bs \<le> n"
      "left k f = bs @ left k' f"
    | (closed) k' where "os_recv os f n k = (Recv_closed, k')" "left k' f = left k f"
    | (again) k' where "os_recv os f n k = (Recv_again, k')" "left k' f = left k f"
    | (error) k' where "os_recv os f n k = (Recv_error, k')" "left k' f = left k f"
proof -
  obtain r k' where r: "os_recv os f n k = (r, k')" by (cases "os_recv os f n k")
  have "case os_recv os f n k of
        (Recv_data bs, k') \<Rightarrow> bs \<noteq> [] \<and> length bs \<le> n \<and> left k f = bs @ left k' f
      | (_, k') \<Rightarrow> left k' f = left k f"
    using assms unfolding recv_ok_def by (elim allE impE) assumption+
  then have spec: "case r of Recv_data bs \<Rightarrow> bs \<noteq> [] \<and> length bs \<le> n \<and> left k f = bs @ left k' f
      | _ \<Rightarrow> left k' f = left k f"
    unfolding r by (cases r) simp_all
  show ?thesis
  proof (cases r)
    case (Recv_data bs)
    show ?thesis by (rule data [of bs k']) (use spec r Recv_data in simp_all)
  next
    case Recv_closed
    show ?thesis by (rule closed [of k']) (use spec r Recv_closed in simp_all)
  next
    case Recv_again
    show ?thesis by (rule again [of k']) (use spec r Recv_again in simp_all)
  next
    case Recv_error
    show ?thesis by (rule error [of k']) (use spec r Recv_error in simp_all)
  qed
qed

lemma drop_outcome: "queue_ok q \<Longrightarrow> outcome_ok left f c q k (Drop q k')"
proof -
  assume "queue_ok q"
  moreover have "fits [] \<and> queued q = queued q @ messages f [] \<and> held c @ left k f = frames [] @ held c @ left k f" by simp
  ultimately show ?thesis unfolding outcome_ok_def by (simp only: read_outcome.case) blast
qed

text \<open>A complete header is parsed: the client goes on to its payload, or has read an empty frame.\<close>

lemma parse_header_progress:
  assumes len: "length (header_buffer c) = 5" and q: "queue_ok q"
    and got: "held c0 @ left k0 f = header_buffer c @ left k f"
    and same: "active c = active c0" "write_buffer c = write_buffer c0" "bytes_sent c = bytes_sent c0"
  obtains c' where "parse_header e c = Inr c'" "progress left f c0 q k0 c' q k" "read_phase c' = PAYLOAD \<longrightarrow> \<not> blocked c'"
proof -
  obtain c' where c': "parse_header e c = Inr c'" "reader_ok c'" "active c' = active c"
    "write_buffer c' = write_buffer c" "bytes_sent c' = bytes_sent c" "bytes_read c' = 0"
    "read_phase c' = PAYLOAD \<and> held c' = header_buffer c \<or>
     read_phase c' = HEADER \<and> held c' = [] \<and> header_buffer c = frame (hd (header_buffer c)) []"
    using parse_header_ok [of c e thesis] len by simp
  have "\<exists>fs. fits fs \<and> messages f fs = [] \<and> header_buffer c = frames fs @ held c'"
    using c'(7)
  proof
    assume "read_phase c' = PAYLOAD \<and> held c' = header_buffer c"
    then show ?thesis by (intro exI [of _ "[]"]) simp
  next
    assume "read_phase c' = HEADER \<and> held c' = [] \<and> header_buffer c = frame (hd (header_buffer c)) []"
    then show ?thesis by (intro exI [of _ "[(hd (header_buffer c), [])]"]) simp
  qed
  then obtain fs where fs: "fits fs" "messages f fs = []" "header_buffer c = frames fs @ held c'" by blast
  have "progress left f c0 q k0 c' q k"
    unfolding progress_def using c'(2-5) q got same fs by (intro conjI exI [of _ fs]) simp_all
  moreover have "read_phase c' = PAYLOAD \<longrightarrow> \<not> blocked c'"
    using c'(2,6) by (auto simp: reader_ok_def blocked_def unat_eq_zero)
  ultimately show ?thesis using that c'(1) by blast
qed

lemma header_part_ok:
  assumes os: "recv_ok os left" and c: "reader_ok c" and q: "queue_ok q" and ph: "read_phase c = HEADER"
  shows "\<exists>out. header_part e os f c q k = Inr out \<and> outcome_ok left f c q k out \<and>
    (\<forall>c' q' k'. out = Next c' q' k' \<longrightarrow> length (left k' f) < length (left k f)) \<and>
    (\<forall>c' q' k'. out = Next c' q' k' \<and> read_phase c' = PAYLOAD \<longrightarrow> \<not> blocked c')"
proof -
  have h: "length (header_buffer c) = 5" "bytes_read c < 5" using c ph by (simp_all add: reader_ok_def)
  then have pos: "0 < 5 - bytes_read c" by simp
  show ?thesis
  proof (cases rule: recv_cases [OF os pos, of f k])
    case (1 bs k')
    obtain hb where hb: "mem_write (bytes_read c) bs (header_buffer c) = Inr hb" "length hb = 5"
      "take (bytes_read c + length bs) hb = take (bytes_read c) (header_buffer c) @ bs"
      using mem_write_fill [of "bytes_read c" bs "header_buffer c"] h 1(3) by fastforce
    let ?c = "c\<lparr>header_buffer := hb, bytes_read := bytes_read c + length bs\<rparr>"
    have shorter: "length (left k' f) < length (left k f)" using 1(2,4) by (cases bs) simp_all
    show ?thesis
    proof (cases "bytes_read ?c < 5")
      case True
      then have "progress left f c q k ?c q k'"
        unfolding progress_def using hb ph q 1(4)
        by (intro conjI exI [of _ "[]"]) (simp_all add: held_def reader_ok_def)
      moreover have "\<not> blocked ?c" using ph by (simp add: blocked_def)
      ultimately show ?thesis
        using True hb(1) ph 1(1) by (simp add: header_part_def outcome_ok_def Let_def)
    next
      case False
      then have all: "bytes_read c + length bs = 5" using h 1(3) by simp
      have "held c @ left k f = header_buffer ?c @ left k' f" using hb(2,3) all ph 1(4) by (simp add: held_def)
      then obtain c' where "parse_header e ?c = Inr c'" "progress left f c q k c' q k'"
        "read_phase c' = PAYLOAD \<longrightarrow> \<not> blocked c'"
        using parse_header_progress [of ?c q c left k f k' e thesis] hb(2) q by simp
      then show ?thesis
        using False hb(1) ph 1(1) shorter by (simp add: header_part_def outcome_ok_def Let_def)
    qed
  next
    case (3 k')
    then show ?thesis
      using progress_refl [OF c q] ph by (simp add: header_part_def outcome_ok_def blocked_def)
  qed (use ph drop_outcome [OF q] in \<open>simp_all add: header_part_def\<close>)
qed

lemma payload_part_ok:
  assumes os: "recv_ok os left" and c: "reader_ok c" and q: "queue_ok q" and ph: "read_phase c = PAYLOAD"
  shows "\<exists>out. payload_part os f c q k = Inr out \<and> outcome_ok left f c q k out \<and>
    (\<forall>c' q' k'. out = Next c' q' k' \<longrightarrow> read_phase c' = HEADER \<and> length (left k' f) \<le> length (left k f))"
proof (cases "blocked c")
  case True
  then show ?thesis
    using push_message_ok(1) [OF c True q, of left f k] push_message_ok(2) [OF c True q, of f k] ph
    by (auto simp: payload_part_def blocked_def)
next
  case False
  let ?n = "unat (payload_length c)"
  have h: "length (read_buffer c) = ?n" "bytes_read c < ?n"
    using c ph False by (auto simp: reader_ok_def blocked_def)
  then have pos: "0 < ?n - bytes_read c" by simp
  show ?thesis
  proof (cases rule: recv_cases [OF os pos, of f k])
    case (1 bs k')
    obtain rb where rb: "mem_write (bytes_read c) bs (read_buffer c) = Inr rb" "length rb = ?n"
      "take (bytes_read c + length bs) rb = take (bytes_read c) (read_buffer c) @ bs"
      using mem_write_fill [of "bytes_read c" bs "read_buffer c"] h 1(3) by fastforce
    let ?c = "c\<lparr>read_buffer := rb, bytes_read := bytes_read c + length bs\<rparr>"
    have ok: "reader_ok ?c" using c ph rb(2) h 1(3) by (simp add: reader_ok_def)
    have prog: "progress left f c q k ?c q k'"
      unfolding progress_def using rb(3) ph q 1(4) ok by (intro conjI exI [of _ "[]"]) (simp_all add: held_def)
    have shorter: "length (left k' f) \<le> length (left k f)" using 1(4) by simp
    show ?thesis
    proof (cases "bytes_read ?c < ?n")
      case True
      moreover have "\<not> blocked ?c" using True by (simp add: blocked_def)
      ultimately show ?thesis
        using rb(1) ph 1(1) h(2) prog by (simp add: payload_part_def outcome_ok_def Let_def)
    next
      case False
      then have full: "blocked ?c" using ph h 1(3) by (simp add: blocked_def)
      have "payload_part os f c q k = Inr (push_message f ?c q k')"
        using False rb(1) ph 1(1) h(2) by (simp add: payload_part_def Let_def)
      then show ?thesis
        using outcome_trans [OF prog push_message_ok(1) [OF ok full q]] push_message_ok(2) [OF ok full q, of f k'] shorter
        by auto
    qed
  next
    case (3 k')
    then show ?thesis
      using progress_refl [OF c q, of left k' f k] ph h(2) by (simp add: payload_part_def outcome_ok_def blocked_def)
  qed (use ph h(2) drop_outcome [OF q] in \<open>simp_all add: payload_part_def\<close>)
qed

text \<open>Rounds left at most: every byte of the stream, and one for a message that waits.\<close>

definition rounds :: "('k \<Rightarrow> fd \<Rightarrow> byte list) \<Rightarrow> fd \<Rightarrow> ClientState \<Rightarrow> 'k \<Rightarrow> nat" where
  "rounds left f c k = length (left k f) + (if read_phase c = PAYLOAD then 1 else 0)"

lemma read_round_ok:
  assumes os: "recv_ok os left" and c: "reader_ok c" and q: "queue_ok q"
  shows "\<exists>out. read_round e os f c q k = Inr out \<and> outcome_ok left f c q k out \<and>
    (\<forall>c' q' k'. out = Next c' q' k' \<longrightarrow> rounds left f c' k' < rounds left f c k)"
proof (cases "read_phase c")
  case HEADER
  obtain out where h: "header_part e os f c q k = Inr out" "outcome_ok left f c q k out"
    "\<forall>c' q' k'. out = Next c' q' k' \<longrightarrow> length (left k' f) < length (left k f)"
    using header_part_ok [OF os c q HEADER] by blast
  show ?thesis
  proof (cases out)
    case (Next c1 q1 k1)
    have p: "progress left f c q k c1 q1 k1" and l: "length (left k1 f) < length (left k f)"
      using h(2,3) Next by (simp_all add: outcome_ok_def)
    then have ok1: "reader_ok c1" "queue_ok q1" by (simp_all add: progress_def)
    show ?thesis
    proof (cases "read_phase c1")
      case PAYLOAD
      obtain out2 where "payload_part os f c1 q1 k1 = Inr out2" "outcome_ok left f c1 q1 k1 out2"
        "\<forall>c' q' k'. out2 = Next c' q' k' \<longrightarrow> read_phase c' = HEADER \<and> length (left k' f) \<le> length (left k1 f)"
        using payload_part_ok [OF os ok1 PAYLOAD] by blast
      then show ?thesis
        using h(1) Next l outcome_trans [OF p] HEADER by (auto simp: read_round_def rounds_def)
    next
      case HEADER
      then show ?thesis
        using h(1) Next l p \<open>read_phase c = HEADER\<close> by (simp add: read_round_def payload_part_def outcome_ok_def rounds_def)
    qed
  qed (use h in \<open>simp_all add: read_round_def\<close>)
next
  case PAYLOAD
  then show ?thesis
    using payload_part_ok [OF os c q PAYLOAD, of f k] by (force simp: read_round_def header_part_def rounds_def)
qed

lemma read_loop_ok:
  assumes os: "recv_ok os left"
  shows "reader_ok c \<Longrightarrow> queue_ok q \<Longrightarrow> rounds left f c k < fuel \<Longrightarrow>
    \<exists>out. read_loop e os f fuel c q k = Some (Inr out) \<and> outcome_ok left f c q k out
      \<and> (\<forall>c' q' k'. out \<noteq> Next c' q' k')"
proof (induction fuel arbitrary: c q k)
  case (Suc fuel)
  obtain out where r: "read_round e os f c q k = Inr out" "outcome_ok left f c q k out"
    "\<forall>c' q' k'. out = Next c' q' k' \<longrightarrow> rounds left f c' k' < rounds left f c k"
    using read_round_ok [OF os Suc.prems(1,2)] by blast
  show ?case
  proof (cases out)
    case (Next c1 q1 k1)
    have p: "progress left f c q k c1 q1 k1" using r(2) Next by (simp add: outcome_ok_def)
    then have "reader_ok c1" "queue_ok q1" "rounds left f c1 k1 < fuel"
      using r(3) Next Suc.prems(3) by (auto simp: progress_def)
    from Suc.IH [OF this] show ?thesis using r(1) Next outcome_trans [OF p] by auto
  qed (use r in simp_all)
qed simp

section \<open>Streams have one reading\<close>

lemma object_bytes_append_inj:
  fixes v w :: "32 word"
  assumes "object_bytes e v @ a = object_bytes e w @ b"
  shows "v = w \<and> a = b"
proof -
  have len: "length (object_bytes e v) = length (object_bytes e w)" by simp
  then have eq: "object_bytes e v = object_bytes e w" and ab: "a = b" 
    using append_eq_append_conv [of "object_bytes e v" "object_bytes e w" a b] assms by blast+
  have "v = object_value e (object_bytes e v)" by simp
  also have "\<dots> = object_value e (object_bytes e w)" by (simp only: eq)
  also have "\<dots> = w" by simp
  finally show ?thesis using ab by simp
qed

lemma frame_inj:
  assumes "frame t p @ a = frame t' p' @ b" and "length p < 2 ^ 32" and "length p' < 2 ^ 32"
  shows "t = t' \<and> p = p' \<and> a = b"
proof -
  have t: "t = t'" and "object_bytes BE (of_nat (length p) :: 32 word) @ p @ a =
      object_bytes BE (of_nat (length p') :: 32 word) @ p' @ b"
    using assms(1) by (simp_all add: frame_def)
  then have len: "(of_nat (length p) :: 32 word) = of_nat (length p')" and r: "p @ a = p' @ b"
    using object_bytes_append_inj by blast+
  then have "unat (of_nat (length p) :: 32 word) = unat (of_nat (length p') :: 32 word)" by simp
  then have "length p = length p'" using assms(2,3) by (simp add: unat_of_nat)
  then show ?thesis using r t by simp
qed

lemma frames_prefix:
  "frames gs = frames fs @ r \<Longrightarrow> fits fs \<Longrightarrow> fits gs \<Longrightarrow> \<exists>gs'. gs = fs @ gs' \<and> r = frames gs'"
proof (induction fs arbitrary: gs)
  case (Cons x fs)
  obtain t p where x: "x = (t, p)" by (cases x)
  have ne: "gs \<noteq> []" using Cons.prems(1) by (auto simp: x frame_def)
  then obtain t' p' ys where gs: "gs = (t', p') # ys" by (cases gs) auto
  have fit: "length p' < 2 ^ 32" "length p < 2 ^ 32" "fits fs" "fits ys"
    using Cons.prems(2,3) by (simp_all add: x gs)
  have "frame t' p' @ frames ys = frame t p @ frames fs @ r" using Cons.prems(1) by (simp add: x gs)
  from frame_inj [OF this fit(1,2)] have "t' = t" "p' = p" "frames ys = frames fs @ r" by simp_all
  with Cons.IH [OF this(3) fit(3,4)] show ?case by (auto simp: x gs)
qed simp

text \<open>A state that is not blocked holds less than a frame.\<close>

lemma held_is_partial:
  assumes "reader_ok c" and "held c = frames gs" and "fits gs" and "\<not> blocked c"
  shows "gs = [] \<and> held c = []"
proof (cases gs)
  case (Cons x xs)
  obtain t p where x: "x = (t, p)" by (cases x)
  have eq: "held c = frame t p @ frames xs" using assms(2) by (simp add: Cons x)
  show ?thesis
  proof (cases "read_phase c")
    case HEADER
    then have "length (held c) < 5" using assms(1) by (simp add: held_def reader_ok_def)
    then show ?thesis using eq by simp
  next
    case PAYLOAD
    have "object_bytes BE (payload_length c) @ take (bytes_read c) (read_buffer c) =
        object_bytes BE (of_nat (length p) :: 32 word) @ p @ frames xs"
      using eq PAYLOAD assms(1) by (simp add: held_def reader_ok_def frame_def)
    then have "payload_length c = of_nat (length p)" using object_bytes_append_inj by blast
    then have "unat (payload_length c) = length p" using assms(3) by (simp add: Cons x unat_of_nat)
    moreover have "length (held c) = 5 + bytes_read c" "bytes_read c < unat (payload_length c)"
      using PAYLOAD assms(1,4) by (auto simp: held_def reader_ok_def blocked_def)
    ultimately show ?thesis using eq by simp
  qed
qed (use assms(2) in simp)

section \<open>The read handler\<close>

lemma client_at_Inr: "client_at f s = Inr c \<longleftrightarrow> 0 \<le> f \<and> nat f < length (clients s) \<and> c = clients s ! nat f"
  by (auto simp: client_at_def)

lemma client_at_update [simp]:
  "client_at f (s\<lparr>inbound := q\<rparr>) = client_at f s" "client_at f (s\<lparr>kernel := k\<rparr>) = client_at f s"
  "client_at f (s\<lparr>outbound := r\<rparr>) = client_at f s" "client_at f (s\<lparr>pending_writes := fs\<rparr>) = client_at f s"
  by (simp_all add: client_at_def)

lemma disconnect_eq:
  "client_at f s = Inr c \<Longrightarrow> disconnect_client os f s =
     Inr (set_client f empty_client (s\<lparr>kernel := os_close os f (os_epoll_del os f (kernel s))\<rparr>))"
  by (simp add: disconnect_client_def)

lemma handle_read_cases:
  assumes os: "recv_ok os left" and c: "client_at f s = Inr c" "active c" "reader_ok c"
    and q: "queue_ok (inbound s)" and fuel: "Suc (length (left (kernel s) f)) < fuel"
  obtains (stopped) c' q' k' where
      "handle_read e os fuel f s = Some (Inr (set_client f c' (s\<lparr>inbound := q', kernel := k'\<rparr>)))"
      "progress left f c (inbound s) (kernel s) c' q' k'" "blocked c' \<longrightarrow> length (queued q') = 8192"
    | (dropped) q' k' fs rest where
      "handle_read e os fuel f s = Some (Inr (set_client f empty_client (s\<lparr>inbound := q', kernel := k'\<rparr>)))"
      "queue_ok q'" "fits fs" "queued q' = queued (inbound s) @ messages f fs"
      "held c @ left (kernel s) f = frames fs @ rest"
proof -
  have "rounds left f c (kernel s) < fuel" using fuel by (simp add: rounds_def)
  from read_loop_ok [OF os c(3) q this]
  obtain out where out: "read_loop e os f fuel c (inbound s) (kernel s) = Some (Inr out)"
    "outcome_ok left f c (inbound s) (kernel s) out" "\<forall>c' q' k'. out \<noteq> Next c' q' k'" by blast
  show ?thesis
  proof (cases out)
    case (Stop c' q' k')
    have "handle_read e os fuel f s = Some (Inr (set_client f c' (s\<lparr>inbound := q', kernel := k'\<rparr>)))"
      using out(1) c(1,2) Stop by (simp add: handle_read_def)
    moreover have "progress left f c (inbound s) (kernel s) c' q' k'" "blocked c' \<longrightarrow> length (queued q') = 8192"
      using out(2) Stop by (simp_all add: outcome_ok_def)
    ultimately show ?thesis by (rule stopped)
  next
    case (Drop q' k')
    obtain fs rest where d: "fits fs" "queued q' = queued (inbound s) @ messages f fs"
      "held c @ left (kernel s) f = frames fs @ rest" "queue_ok q'"
      using out(2) by (auto simp: Drop outcome_ok_def)
    have "handle_read e os fuel f s = Some (Inr (set_client f empty_client
        (s\<lparr>inbound := q', kernel := os_close os f (os_epoll_del os f k')\<rparr>)))"
      using out(1) c(1,2) Drop by (simp add: handle_read_def disconnect_eq [of f _ c])
    then show ?thesis using dropped d by blast
  qed (use out(3) in simp)
qed

lemma set_client_at: "client_at f s = Inr c \<Longrightarrow> client_at f (set_client f c' s) = Inr c'"
  by (simp add: client_at_def set_client_def split: if_splits)

section \<open>A sample kernel\<close>

text \<open>
  A kernel for the witnesses: per descriptor the pieces in which the stream arrives, and the bytes
  sent. Sending takes everything; all other calls succeed and do nothing.
\<close>

record sample_kernel =
  pieces :: "fd \<Rightarrow> byte list list"
  sent_bytes :: "fd \<Rightarrow> byte list"

definition sample_recv :: "fd \<Rightarrow> nat \<Rightarrow> sample_kernel \<Rightarrow> recv_result \<times> sample_kernel" where
  "sample_recv f n k =
     (case filter (\<lambda>p. p \<noteq> []) (pieces k f) of
        [] \<Rightarrow> (Recv_again, k)
      | p # ps \<Rightarrow> (Recv_data (take n p), k\<lparr>pieces := (pieces k)(f := drop n p # ps)\<rparr>))"

definition sample_send :: "fd \<Rightarrow> byte list \<Rightarrow> sample_kernel \<Rightarrow> send_result \<times> sample_kernel" where
  "sample_send f bs k = (Sent (length bs), k\<lparr>sent_bytes := (sent_bytes k)(f := sent_bytes k f @ bs)\<rparr>)"

definition sample_os :: "sample_kernel os" where
  "sample_os = \<lparr>os_socket = \<lambda>k. (3, k), os_reuseaddr = \<lambda>f k. k, os_bind = \<lambda>f p k. (True, k),
     os_listen = \<lambda>f k. (True, k), os_nonblock = \<lambda>f k. (True, k), os_nodelay = \<lambda>f k. k,
     os_epoll_create = \<lambda>k. (4, k), os_epoll_add = \<lambda>f k. (True, k), os_epoll_mod = \<lambda>f b k. k,
     os_epoll_del = \<lambda>f k. k, os_epoll_wait = \<lambda>k. ([], k), os_connect = \<lambda>f h p k. (True, k), os_accept = \<lambda>f k. (Accept_again, k),
     os_recv = sample_recv, os_send = sample_send, os_close = \<lambda>f k. k\<rparr>"

definition sample_left :: "sample_kernel \<Rightarrow> fd \<Rightarrow> byte list" where
  "sample_left k f = concat (pieces k f)"

lemma concat_filter_Nil: "concat (filter (\<lambda>p. p \<noteq> []) ps) = concat ps"
  by (induction ps) auto

lemma sample_recv_ok: "recv_ok sample_os sample_left"
proof -
  have "case sample_recv f n k of
        (Recv_data bs, k') \<Rightarrow> bs \<noteq> [] \<and> length bs \<le> n \<and> sample_left k f = bs @ sample_left k' f
      | (_, k') \<Rightarrow> sample_left k' f = sample_left k f" if "0 < n" for f n k
  proof (cases "filter (\<lambda>p. p \<noteq> []) (pieces k f)")
    case (Cons p ps)
    have "p \<in> set (filter (\<lambda>p. p \<noteq> []) (pieces k f))" by (simp only: Cons) simp
    then have "p \<noteq> []" by simp
    moreover have "concat (pieces k f) = p @ concat ps"
      using concat_filter_Nil [of "pieces k f"] Cons by simp
    ultimately show ?thesis using that Cons by (simp add: sample_recv_def sample_left_def)
  qed (simp add: sample_recv_def)
  then show ?thesis by (simp add: recv_ok_def sample_os_def)
qed

definition sample_server :: "byte list list \<Rightarrow> sample_kernel server" where
  "sample_server ps = \<lparr>server_fd = 3, epoll_fd = 4,
     clients = replicate 5 empty_client @ [empty_client\<lparr>active := True\<rparr>], pending_writes = [], port = 8080,
     inbound = new_ring DEFAULT_RING_CAPACITY \<lparr>in_fd = 0, in_type = 0, in_payload = []\<rparr>,
     outbound = new_ring DEFAULT_RING_CAPACITY \<lparr>out_fd = 0, out_payload = []\<rparr>,
     kernel = \<lparr>pieces = (\<lambda>f. []) (5 := ps), sent_bytes = \<lambda>f. []\<rparr>\<rparr>"

lemma sample_client: "client_at 5 (sample_server ps) = Inr (empty_client\<lparr>active := True\<rparr>)"
  by (simp add: client_at_def sample_server_def nth_append)

lemma empty_client_ok [simp]:
  "reader_ok (empty_client\<lparr>active := b\<rparr>)" "held (empty_client\<lparr>active := b\<rparr>) = []" "reader_ok empty_client"
  by (simp_all add: reader_ok_def held_def empty_client_def)

lemma sample_server_simps [simp]:
  "inbound (sample_server ps) = new_ring DEFAULT_RING_CAPACITY \<lparr>in_fd = 0, in_type = 0, in_payload = []\<rparr>"
  "sample_left (kernel (sample_server ps)) 5 = concat ps"
  by (simp_all add: sample_server_def sample_left_def)

text \<open>
  A whole stream is read: when the bytes a peer sends are frames, a client that has received all of
  them and does not wait for room in the inbound ring holds nothing back.
\<close>

lemma stream_complete:
  assumes "frames gs = frames fs @ held c" and "fits fs" and "fits gs" and "reader_ok c" and "\<not> blocked c"
  shows "gs = fs"
proof -
  obtain gs' where g: "gs = fs @ gs'" "held c = frames gs'" using frames_prefix [OF assms(1-3)] by blast
  have "gs' = []" using held_is_partial [OF assms(4) g(2) _ assms(5)] assms(3) g(1) by simp
  then show ?thesis using g(1) by simp
qed

section \<open>Properties: reading\<close>

text \<open>
  C15: The read handler is a correct framer, whatever pieces the stream arrives in. Given the contract
  of \<^verbatim>\<open>recv\<close>, \<^verbatim>\<open>handle_read\<close> on an active client returns without undefined behaviour, within one round
  per byte. The messages it pushes are the frames of the stream, in order, empty frames left out: the
  bytes the client held before followed by the stream are these frames, followed by the bytes it
  holds now and the rest of the stream. A complete message waits only when the inbound ring is full.
  If the client is disconnected instead, the messages pushed before are frames of the stream too.
\<close>

theorem handle_read_frames_the_stream:
  assumes "recv_ok os left" and "client_at f s = Inr c" and "active c" and "reader_ok c"
    and "queue_ok (inbound s)" and "Suc (length (left (kernel s) f)) < fuel"
  shows "\<exists>s' c' fs. handle_read e os fuel f s = Some (Inr s') \<and> client_at f s' = Inr c' \<and> reader_ok c'
    \<and> queue_ok (inbound s') \<and> queued (inbound s') = queued (inbound s) @ messages f fs
    \<and> (if active c'
       then held c @ left (kernel s) f = frames fs @ held c' @ left (kernel s') f
            \<and> (blocked c' \<longrightarrow> length (queued (inbound s')) = 8192)
       else \<exists>rest. held c @ left (kernel s) f = frames fs @ rest)"
proof (cases rule: handle_read_cases [OF assms, of e])
  case (1 c' q' k')
  obtain fs where "queued q' = queued (inbound s) @ messages f fs"
    "held c @ left (kernel s) f = frames fs @ held c' @ left k' f"
    using 1(2) by (auto simp: progress_def)
  moreover have "client_at f (set_client f c' (s\<lparr>inbound := q', kernel := k'\<rparr>)) = Inr c'"
    using assms(2) by (intro set_client_at [of _ _ c]) simp
  ultimately show ?thesis
    using 1 assms(3) by (intro exI [of _ "set_client f c' (s\<lparr>inbound := q', kernel := k'\<rparr>)"] exI [of _ c'] exI [of _ fs])
      (simp add: progress_def set_client_def)
next
  case (2 q' k' fs rest)
  have "client_at f (set_client f empty_client (s\<lparr>inbound := q', kernel := k'\<rparr>)) = Inr empty_client"
    using assms(2) by (intro set_client_at [of _ _ c]) simp
  moreover have "\<not> active empty_client" by (simp add: empty_client_def)
  ultimately show ?thesis
    using 2 by (intro exI [of _ "set_client f empty_client (s\<lparr>inbound := q', kernel := k'\<rparr>)"]
        exI [of _ empty_client] exI [of _ fs]) (auto simp: set_client_def)
qed

theorem handle_read_frames_the_stream_witness:
  "\<exists>s'. handle_read LE sample_os 100 5 (sample_server [[2, 0, 0], [0, 1, 7]]) = Some (Inr s')"
proof -
  have "Suc (length (sample_left (kernel (sample_server [[2, 0, 0], [0, 1, 7]])) 5)) < 100" by simp
  then show ?thesis
    using handle_read_frames_the_stream [OF sample_recv_ok sample_client, of "[[2, 0, 0], [0, 1, 7]]" 100 LE] by auto
qed

end
