(* ===== verification/Server_Output.thy ===== *)
theory Server_Output
  imports Server_Props
begin

text \<open>
  The output side of the server: what is queued for a client leaves in order, and the two situations
  in which a client's output or connection is lost although nothing failed.
\<close>

section \<open>One client's output\<close>

definition unsent :: "ClientState \<Rightarrow> byte list" where
  "unsent c = drop (bytes_sent c) (write_buffer c)"

definition writer_ok :: "ClientState \<Rightarrow> bool" where
  "writer_ok c \<longleftrightarrow> bytes_sent c < length (write_buffer c) \<or> write_buffer c = [] \<and> bytes_sent c = 0"

text \<open>
  \<open>output_kept wire s s' g\<close>: the step changes client \<open>g\<close> only by handing a prefix of its unsent bytes
  to the kernel, or disconnects it; a client is not connected by it.
\<close>

definition output_kept :: "('k \<Rightarrow> fd \<Rightarrow> byte list) \<Rightarrow> 'k server \<Rightarrow> 'k server \<Rightarrow> fd \<Rightarrow> bool" where
  "output_kept wire s s' g \<longleftrightarrow> (case (client_at g s, client_at g s') of
       (Inr c, Inr c') \<Rightarrow> (writer_ok c \<longrightarrow> writer_ok c') \<and>
         (writer_ok c \<and> active c' \<longrightarrow> active c \<and> wire (kernel s') g @ unsent c' = wire (kernel s) g @ unsent c)
     | (Inl _, Inl _) \<Rightarrow> True
     | _ \<Rightarrow> False)"

lemma output_kept_refl: "wire k = wire (kernel s) \<Longrightarrow> output_kept wire s (s\<lparr>kernel := k\<rparr>) g"
  by (simp add: output_kept_def split: sum.split)

lemma output_kept_trans:
  "output_kept wire s s' g \<Longrightarrow> output_kept wire s' s'' g \<Longrightarrow> output_kept wire s s'' g"
  by (auto simp: output_kept_def split: sum.splits prod.splits)

lemma client_at_set:
  assumes "client_at f s = Inr c"
  shows "client_at g (set_client f c' s) = (if g = f then Inr c' else client_at g s)"
  using assms by (auto simp: client_at_def set_client_def nat_eq_iff split: if_splits)

lemma set_client_simps [simp]:
  "kernel (set_client f c s) = kernel s" "pending_writes (set_client f c s) = pending_writes s"
  "outbound (set_client f c s) = outbound s" "length (clients (set_client f c s)) = length (clients s)"
  by (simp_all add: set_client_def)

lemma empty_writer [simp]: "writer_ok empty_client" "\<not> active empty_client"
  by (simp_all add: writer_ok_def empty_client_def)

lemma output_kept_set:
  assumes "client_at f s = Inr c" and "writer_ok c \<Longrightarrow> writer_ok c'"
    and "writer_ok c \<Longrightarrow> active c' \<Longrightarrow> active c \<and> wire k f @ unsent c' = wire (kernel s) f @ unsent c"
    and "\<And>g. g \<noteq> f \<Longrightarrow> wire k g = wire (kernel s) g"
  shows "output_kept wire s (set_client f c' (s\<lparr>kernel := k\<rparr>)) g"
proof -
  have "client_at f (s\<lparr>kernel := k\<rparr>) = Inr c" using assms(1) by simp
  note at = client_at_set [OF this]
  show ?thesis
    using assms by (auto simp: output_kept_def at split: sum.split)
qed

lemma send_facts:
  assumes "send_ok os wire" and "os_send os f bs k = (r, k')"
  shows "g \<noteq> f \<Longrightarrow> wire k' g = wire k g" and "r = Sent n \<Longrightarrow> n \<le> length bs \<and> wire k' f = wire k f @ take n bs"
    and "r = Send_again \<or> r = Send_error \<Longrightarrow> wire k' = wire k"
proof -
  have *: "case os_send os f bs k of
        (Sent n, k') \<Rightarrow> n \<le> length bs \<and> wire k' g = wire k g @ (if g = f then take n bs else [])
      | (_, k') \<Rightarrow> wire k' g = wire k g" for g
    using assms(1) unfolding send_ok_def by (elim conjE allE)
  show "g \<noteq> f \<Longrightarrow> wire k' g = wire k g" using * [of g] assms(2) by (cases r) simp_all
  show "r = Sent n \<Longrightarrow> n \<le> length bs \<and> wire k' f = wire k f @ take n bs" using * [of f] assms(2) by simp
  show "r = Send_again \<or> r = Send_error \<Longrightarrow> wire k' = wire k"
    by (rule ext) (use * assms(2) in auto)
qed

lemma send_ok_calls:
  assumes "send_ok os wire"
  shows "wire (os_epoll_mod os f b k) = wire k" and "wire (os_close os f (os_epoll_del os f k)) = wire k"
    and "wire (os_close os f k) = wire k"
  using assms by (simp_all add: send_ok_def)

lemma take_drop_add [simp]: "take n (drop i xs) @ drop (i + n) xs = drop i xs"
  by (metis add.commute append_take_drop_id drop_drop)

lemma watch_calls:
  assumes "watch_ok os watched"
  shows "os_send os f bs k = (r, k') \<Longrightarrow> watched k' \<subseteq> watched k"
    and "os_recv os f n k = (rr, k') \<Longrightarrow> watched k' \<subseteq> watched k"
    and "os_nonblock os f k = (b, k') \<Longrightarrow> watched k' \<subseteq> watched k"
    and "os_epoll_add os f k = (b, k') \<Longrightarrow> watched k' \<subseteq> insert f (watched k)"
    and "os_accept os f k = (ar, k') \<Longrightarrow> watched k' \<subseteq> watched k"
    and "os_epoll_wait os k = (evs, k') \<Longrightarrow> watched k' \<subseteq> watched k \<and> fst ` set evs \<subseteq> watched k"
    and "watched (os_close os f (os_epoll_del os f k)) \<subseteq> watched k"
    and "watched (os_epoll_mod os f w k) \<subseteq> watched k" and "watched (os_nodelay os f k) \<subseteq> watched k"
  using assms unfolding watch_ok_def by (metis snd_conv fst_conv subset_trans)+

lemma stream_calls:
  assumes "streams_ok os left wire"
  shows "os_send os f bs k = (r, k') \<Longrightarrow> left k' = left k"
    and "os_recv os f n k = (rr, k') \<Longrightarrow> wire k' = wire k"
    and "os_recv os f n k = (rr, k') \<Longrightarrow> g \<noteq> f \<Longrightarrow> left k' g = left k g"
    and "left (os_epoll_mod os f b k) = left k"
    and "g \<noteq> f \<Longrightarrow> left (os_close os f (os_epoll_del os f k)) g = left k g"
    and "os_epoll_wait os k = (evs, k') \<Longrightarrow> left k' = left k \<and> wire k' = wire k"
    and "os_nonblock os f k = (bb, k') \<Longrightarrow> left k' = left k \<and> wire k' = wire k"
    and "os_epoll_add os f k = (bb, k') \<Longrightarrow> left k' = left k \<and> wire k' = wire k"
    and "left (os_nodelay os f k) = left k \<and> wire (os_nodelay os f k) = wire k"
    and "os_accept os f k = (ar, k') \<Longrightarrow> ar \<noteq> Accepted g \<Longrightarrow> left k' g = left k g \<and> wire k' g = wire k g"
  using assms unfolding streams_ok_def by (metis snd_conv fst_conv)+

text \<open>
  \<open>sends os wire f s c s'\<close>: what both write handlers do to a client \<open>c\<close> on descriptor \<open>f\<close>. Only this
  client changes, its invariants and its input stay, the bytes on the wire and the unsent ones stay
  the same sequence unless it is disconnected, and no descriptor comes under watch.
\<close>

definition sends ::
  "'k os \<Rightarrow> ('k \<Rightarrow> fd \<Rightarrow> byte list) \<Rightarrow> fd \<Rightarrow> 'k server \<Rightarrow> ClientState \<Rightarrow> 'k server \<Rightarrow> bool" where
  "sends os wire f s c s' \<longleftrightarrow> (\<exists>c' k. s' = set_client f c' (s\<lparr>kernel := k\<rparr>) \<and> (reader_ok c \<longrightarrow> reader_ok c')
     \<and> (writer_ok c \<longrightarrow> writer_ok c')
     \<and> (writer_ok c \<and> active c' \<longrightarrow> active c \<and> wire k f @ unsent c' = wire (kernel s) f @ unsent c)
     \<and> (\<forall>g. g \<noteq> f \<longrightarrow> wire k g = wire (kernel s) g)
     \<and> (\<forall>watched. watch_ok os watched \<longrightarrow> watched k \<subseteq> watched (kernel s))
     \<and> (active c' \<longrightarrow> active c \<and> held c' = held c)
     \<and> (\<forall>left g. streams_ok os left wire \<longrightarrow> g \<noteq> f \<or> active c' \<longrightarrow> left k g = left (kernel s) g))"

lemma sends_set:
  assumes "reader_ok c \<Longrightarrow> reader_ok c'" and "writer_ok c \<Longrightarrow> writer_ok c'"
    and "writer_ok c \<Longrightarrow> active c' \<Longrightarrow> active c \<and> wire k f @ unsent c' = wire (kernel s) f @ unsent c"
    and "\<And>g. g \<noteq> f \<Longrightarrow> wire k g = wire (kernel s) g"
    and "\<And>watched. watch_ok os watched \<Longrightarrow> watched k \<subseteq> watched (kernel s)"
    and "active c' \<Longrightarrow> active c \<and> held c' = held c"
    and "\<And>left g. streams_ok os left wire \<Longrightarrow> g \<noteq> f \<or> active c' \<Longrightarrow> left k g = left (kernel s) g"
  shows "sends os wire f s c (set_client f c' (s\<lparr>kernel := k\<rparr>))"
  unfolding sends_def using assms by blast

lemma sends_kernel:
  assumes "client_at f s = Inr c" and "wire k = wire (kernel s)"
    and "\<And>watched. watch_ok os watched \<Longrightarrow> watched k \<subseteq> watched (kernel s)"
    and "\<And>left. streams_ok os left wire \<Longrightarrow> left k = left (kernel s)"
  shows "sends os wire f s c (s\<lparr>kernel := k\<rparr>)"
proof -
  have "s\<lparr>kernel := k\<rparr> = set_client f c (s\<lparr>kernel := k\<rparr>)" using assms(1) by (simp add: set_client_def client_at_Inr)
  then show ?thesis using sends_set [of c c wire k f s os] assms(2-) by simp
qed

lemma sends_kept:
  assumes "sends os wire f s c s'" and "client_at f s = Inr c"
  shows "output_kept wire s s' g" and "pending_writes s' = pending_writes s" and "length (clients s') = length (clients s)"
  using assms(1) output_kept_set [OF assms(2)] by (auto simp: sends_def)

lemma held_output [simp]:
  "held (c\<lparr>bytes_sent := b\<rparr>) = held c" "held (c\<lparr>write_buffer := w\<rparr>) = held c"
  by (simp_all add: held_def split: ReadPhase.split)

lemma reader_ok_output [simp]:
  "reader_ok (c\<lparr>bytes_sent := b\<rparr>) = reader_ok c" "reader_ok (c\<lparr>write_buffer := w\<rparr>) = reader_ok c"
  by (simp_all add: reader_ok_def split: ReadPhase.split)

text \<open>The four ways to go on after a call of \<^verbatim>\<open>send\<close>, with or without a change of the interest in writability.\<close>

lemma after_send:
  assumes os: "send_ok os wire" and c: "client_at f s = Inr c" and act: "active c"
    and r: "os_send os f (unsent c) (kernel s) = (r, k)"
  shows "\<exists>s'. disconnect_client os f (s\<lparr>kernel := k\<rparr>) = Inr s' \<and> sends os wire f s c s'"
    and "r = Send_again \<Longrightarrow> sends os wire f s c (s\<lparr>kernel := k\<rparr>)"
    and "r = Sent n \<Longrightarrow> bytes_sent c + n \<noteq> length (write_buffer c) \<Longrightarrow> k' \<in> {k, os_epoll_mod os f b k} \<Longrightarrow>
      sends os wire f s c (set_client f (c\<lparr>bytes_sent := bytes_sent c + n\<rparr>) (s\<lparr>kernel := k'\<rparr>))"
    and "r = Sent n \<Longrightarrow> length (write_buffer c) \<le> bytes_sent c + n \<Longrightarrow> k' \<in> {k, os_epoll_mod os f b k} \<Longrightarrow>
      sends os wire f s c (set_client f (c\<lparr>write_buffer := [], bytes_sent := 0\<rparr>) (s\<lparr>kernel := k'\<rparr>))"
proof -
  note facts = send_facts [OF os r] and watch = watch_calls(1) [OF _ r] and input = stream_calls(1) [OF _ r]
  let ?k = "os_close os f (os_epoll_del os f k)"
  have "watched ?k \<subseteq> watched (kernel s)" if "watch_ok os watched" for watched
    using watch [OF that] watch_calls(7) [OF that, of f k] by blast
  moreover have "left ?k g = left (kernel s) g" if "streams_ok os left wire" "g \<noteq> f" for left g
    using input [OF that(1)] stream_calls(5) [OF that, of k] by simp
  ultimately have "sends os wire f s c (set_client f empty_client (s\<lparr>kernel := ?k\<rparr>))"
    using facts(1) send_ok_calls(2) [OF os] by (intro sends_set) auto
  then show "\<exists>s'. disconnect_client os f (s\<lparr>kernel := k\<rparr>) = Inr s' \<and> sends os wire f s c s'"
    using disconnect_eq [of f "s\<lparr>kernel := k\<rparr>" c os] c by simp
  show "sends os wire f s c (s\<lparr>kernel := k\<rparr>)" if "r = Send_again"
    by (rule sends_kernel [OF c]) (use facts(3) that watch input in blast)+
  have k': "wire k' = wire k" "watch_ok os watched \<Longrightarrow> watched k' \<subseteq> watched (kernel s)"
    "streams_ok os left wire \<Longrightarrow> left k' = left (kernel s)"
    if "k' \<in> {k, os_epoll_mod os f b k}" for watched left
    using that send_ok_calls(1) [OF os] watch [of watched] watch_calls(8) [of os watched f b k]
      input [of left] stream_calls(4) [of os left wire f b k] by auto
  have put: "sends os wire f s c (set_client f c' (s\<lparr>kernel := k'\<rparr>))"
    if "k' \<in> {k, os_epoll_mod os f b k}" "reader_ok c \<Longrightarrow> reader_ok c'" "writer_ok c \<Longrightarrow> writer_ok c'"
      "writer_ok c \<Longrightarrow> wire k f @ unsent c' = wire (kernel s) f @ unsent c" "held c' = held c" for c'
  proof (rule sends_set)
    show "left k' g = left (kernel s) g" if "streams_ok os left wire" for left g
      using k'(3) [OF \<open>k' \<in> _\<close> that] by simp
  qed (use that facts(1) act k'(1,2) [OF that(1)] in auto)
  show "sends os wire f s c (set_client f (c\<lparr>bytes_sent := bytes_sent c + n\<rparr>) (s\<lparr>kernel := k'\<rparr>))"
    if "r = Sent n" "bytes_sent c + n \<noteq> length (write_buffer c)" "k' \<in> {k, os_epoll_mod os f b k}"
    by (rule put [OF that(3)]) (use that facts(2) [OF that(1)] in \<open>auto simp: writer_ok_def unsent_def\<close>)
  show "sends os wire f s c (set_client f (c\<lparr>write_buffer := [], bytes_sent := 0\<rparr>) (s\<lparr>kernel := k'\<rparr>))"
    if "r = Sent n" "length (write_buffer c) \<le> bytes_sent c + n" "k' \<in> {k, os_epoll_mod os f b k}"
    by (rule put [OF that(3)]) (use that facts(2) [OF that(1)] in \<open>auto simp: writer_ok_def unsent_def\<close>)
qed

lemma set_epoll_write_set:
  "set_epoll_write os f b (set_client f c (s\<lparr>kernel := k\<rparr>)) = set_client f c (s\<lparr>kernel := os_epoll_mod os f b k\<rparr>)"
  by (simp add: set_epoll_write_def set_client_def)

text \<open>A kernel that never reports a closed peer never ends the process.\<close>

definition send_faults :: "'k os \<Rightarrow> fault set" where
  "send_faults os = (if \<exists>f bs k. fst (os_send os f bs k) = Send_pipe then {Sigpipe} else {})"

lemma send_faults_pipe: "os_send os f bs k = (Send_pipe, k') \<Longrightarrow> Sigpipe \<in> send_faults os"
  unfolding send_faults_def by (metis fst_conv singletonI)

definition send_ends :: "'k os \<Rightarrow> ('k \<Rightarrow> fd \<Rightarrow> byte list) \<Rightarrow> fd \<Rightarrow> 'k server \<Rightarrow> ClientState \<Rightarrow> 'k server result \<Rightarrow> bool" where
  "send_ends os wire f s c r \<longleftrightarrow> (case r of Inl x \<Rightarrow> x \<in> send_faults os | Inr s' \<Rightarrow> sends os wire f s c s')"

lemma send_ends_simps [simp]:
  "send_ends os wire f s c (Inl x) \<longleftrightarrow> x \<in> send_faults os"
  "send_ends os wire f s c (Inr s') \<longleftrightarrow> sends os wire f s c s'"
  by (simp_all add: send_ends_def)

lemma try_send_sends:
  assumes os: "send_ok os wire" and c: "client_at f s = Inr c"
  shows "send_ends os wire f s c (try_send os f s)"
proof (cases "active c \<and> write_buffer c \<noteq> []")
  case False
  then show ?thesis using c sends_kernel [OF c, of wire "kernel s" os] by (auto simp: try_send_def)
next
  case True
  obtain r k where r: "os_send os f (unsent c) (kernel s) = (r, k)" by (cases "os_send os f (unsent c) (kernel s)")
  note after = after_send [OF os c _ r]
  show ?thesis
    using True c r after(1,2) after(3) [where k' = "os_epoll_mod os f True k" and b = True] after(4) [where k' = k]
    by (cases r) (auto simp: try_send_def unsent_def [symmetric] set_epoll_write_set Let_def send_faults_pipe)
qed

lemma handle_write_sends:
  assumes os: "send_ok os wire" and c: "client_at f s = Inr c"
  shows "send_ends os wire f s c (handle_write os f s)"
proof (cases "active c")
  case False
  then show ?thesis using c sends_kernel [OF c, of wire "kernel s" os] by (auto simp: handle_write_def)
next
  case True
  obtain r k where r: "os_send os f (unsent c) (kernel s) = (r, k)" by (cases "os_send os f (unsent c) (kernel s)")
  note after = after_send [OF os c True r]
  show ?thesis
    using True c r after(1,2) after(3) [where k' = k] after(4) [where k' = "os_epoll_mod os f False k" and b = False]
    by (cases r) (auto simp: handle_write_def unsent_def [symmetric] set_epoll_write_set Let_def send_faults_pipe)
qed

section \<open>Flushing and draining\<close>

lemma client_at_range: "length (clients s') = length (clients s) \<Longrightarrow>
    (\<exists>c. client_at f s' = Inr c) \<longleftrightarrow> (\<exists>c. client_at f s = Inr c)"
  by (simp add: client_at_def)

lemma send_each_kept:
  "send_ok os wire \<Longrightarrow> \<forall>f \<in> set fs. \<exists>c. client_at f s = Inr c \<Longrightarrow>
     (case send_each os fs s of Inl x \<Rightarrow> x \<in> send_faults os
      | Inr s' \<Rightarrow> output_kept wire s s' g \<and> length (clients s') = length (clients s))"
proof (induction fs arbitrary: s)
  case Nil
  then show ?case using output_kept_refl [of wire "kernel s" s g] by simp
next
  case (Cons f fs)
  then obtain c where c: "client_at f s = Inr c" by auto
  note sent = try_send_sends [OF Cons.prems(1) c]
  show ?case
  proof (cases "try_send os f s")
    case (Inr s1)
    have s1: "output_kept wire s s1 g" "length (clients s1) = length (clients s)"
      using sent Inr sends_kept [OF _ c] by auto
    then have "\<forall>f \<in> set fs. \<exists>c. client_at f s1 = Inr c"
      using Cons.prems(2) client_at_range [OF s1(2)] by simp
    from Cons.IH [OF Cons.prems(1) this] Inr s1(2) output_kept_trans [OF s1(1)] show ?thesis by (auto split: sum.splits)
  qed (use sent in simp)
qed

lemma flush_kept:
  assumes "send_ok os wire" and "\<forall>f \<in> set (pending_writes s). \<exists>c. client_at f s = Inr c"
  shows "case flush_pending_writes os s of Inl x \<Rightarrow> x \<in> send_faults os
    | Inr s' \<Rightarrow> output_kept wire s s' g \<and> pending_writes s' = []"
proof -
  have "output_kept wire s (s1\<lparr>pending_writes := []\<rparr>) g" if "output_kept wire s s1 g" for s1
    using that by (simp add: output_kept_def split: sum.splits)
  then show ?thesis using send_each_kept [OF assms, of g] by (auto simp: flush_pending_writes_def split: sum.splits)
qed

text \<open>The payloads of a list of messages that are addressed to a descriptor.\<close>

definition addressed :: "fd \<Rightarrow> OutboundMessage list \<Rightarrow> byte list" where
  "addressed g ms = concat (map out_payload (filter (\<lambda>m. out_fd m = g) ms))"

lemma addressed_simps [simp]:
  "addressed g [] = []"
  "addressed g (m # ms) = (if out_fd m = g then out_payload m else []) @ addressed g ms"
  by (simp_all add: addressed_def)

lemma queue_output_client:
  "client_at g (queue_output m s) =
     (case client_at g s of Inl x \<Rightarrow> Inl x
      | Inr c \<Rightarrow> Inr (if g = out_fd m \<and> active c then c\<lparr>write_buffer := write_buffer c @ out_payload m\<rparr> else c))"
  by (auto simp: queue_output_def client_at_set split: sum.split)

lemma queue_output_simps [simp]:
  "outbound (queue_output m s) = outbound s" "kernel (queue_output m s) = kernel s"
  "length (clients (queue_output m s)) = length (clients s)"
  by (simp_all add: queue_output_def split: sum.split)

lemma queue_output_pending:
  "f \<in> set (pending_writes (queue_output m s)) \<Longrightarrow>
     f \<in> set (pending_writes s) \<or> (\<exists>c. client_at f (queue_output m s) = Inr c)"
  by (auto simp: queue_output_def client_at_set split: sum.splits if_splits)

lemma drain_eq:
  "queue_ok (outbound s) \<Longrightarrow> length (queued (outbound s)) < fuel \<Longrightarrow>
     \<exists>s'. drain_outbound_queue moved fuel s = Some s' \<and> queued (outbound s') = [] \<and> queue_ok (outbound s')
       \<and> kernel s' = kernel s \<and> length (clients s') = length (clients s)
       \<and> client_at g s' = (case client_at g s of Inl x \<Rightarrow> Inl x
           | Inr c \<Rightarrow> Inr (if active c then c\<lparr>write_buffer := write_buffer c @ addressed g (queued (outbound s))\<rparr> else c))
       \<and> (\<forall>f \<in> set (pending_writes s'). f \<in> set (pending_writes s) \<or> (\<exists>c. client_at f s' = Inr c))"
proof (induction fuel arbitrary: s)
  case (Suc fuel)
  show ?case
  proof (cases rule: ring_queue.pop_cases [OF Suc.prems(1), of moved])
    case 1
    then show ?thesis using Suc.prems(1) by (auto split: sum.split)
  next
    case (2 m q)
    let ?s = "queue_output m (s\<lparr>outbound := q\<rparr>)"
    have "queue_ok (outbound ?s)" "length (queued (outbound ?s)) < fuel"
      using 2 Suc.prems(2) by simp_all
    from Suc.IH [OF this] obtain s' where s': "drain_outbound_queue moved fuel ?s = Some s'"
      "queued (outbound s') = []" "queue_ok (outbound s')" "kernel s' = kernel s" "length (clients s') = length (clients s)"
      "client_at g s' = (case client_at g ?s of Inl x \<Rightarrow> Inl x
         | Inr c \<Rightarrow> Inr (if active c then c\<lparr>write_buffer := write_buffer c @ addressed g (queued (outbound ?s))\<rparr> else c))"
      "\<forall>f \<in> set (pending_writes s'). f \<in> set (pending_writes ?s) \<or> (\<exists>c. client_at f s' = Inr c)"
      by auto
    have "client_at g s' = (case client_at g s of Inl x \<Rightarrow> Inl x
        | Inr c \<Rightarrow> Inr (if active c then c\<lparr>write_buffer := write_buffer c @ addressed g (queued (outbound s))\<rparr> else c))"
      unfolding s'(6) 2(3) by (auto simp: queue_output_client split: sum.split)
    moreover have "f \<in> set (pending_writes s) \<or> (\<exists>c. client_at f s' = Inr c)" if "f \<in> set (pending_writes s')" for f
      using s'(7) that queue_output_pending [of f m "s\<lparr>outbound := q\<rparr>"] client_at_range [of s' ?s f] s'(5) by fastforce
    ultimately show ?thesis using 2(1) s' by auto
  qed
qed simp

text \<open>
  Accepting a client. The vector of clients grows as needed, so the new descriptor's entry exists;
  it is a fresh active client whatever the entry held before, and every other client keeps its state.
\<close>

lemma accepted_client_is_fresh:
  assumes "0 \<le> f" and "g \<noteq> f" and "client_at g s = Inr c"
  shows "client_at f (add_client f s) = Inr (empty_client\<lparr>active := True\<rparr>) \<and> client_at g (add_client f s) = Inr c"
  using assms
  by (auto simp: client_at_def add_client_def Let_def nth_append nat_eq_iff split: if_splits)

section \<open>Properties: writing\<close>

text \<open>
  Output leaves in order. Draining the outbound ring and flushing, as the server does at the start
  of each round, ends with an empty ring and without undefined behaviour; flushing can end the process
  when a peer has closed its connection. For every client that is still connected afterwards, the
  bytes handed to the kernel followed by the bytes still to be sent are what they were before followed
  by the payloads addressed to the client, in the order of the ring: no byte is lost, repeated or sent
  to another client, whatever \<^verbatim>\<open>send\<close> accepts at a time.
\<close>

lemma output_leaves_in_order:
  assumes "send_ok os wire" and "queue_ok (outbound s)" and "length (queued (outbound s)) < fuel"
    and "pending_writes s = []" and "client_at g s = Inr c" and "writer_ok c"
  shows "\<exists>s1. drain_outbound_queue moved fuel s = Some s1 \<and> queued (outbound s1) = [] \<and>
    (case flush_pending_writes os s1 of Inl x \<Rightarrow> x \<in> send_faults os
     | Inr s2 \<Rightarrow> pending_writes s2 = [] \<and> (\<exists>c2. client_at g s2 = Inr c2 \<and> writer_ok c2
         \<and> (active c2 \<longrightarrow> active c \<and>
              wire (kernel s2) g @ unsent c2 = wire (kernel s) g @ unsent c @ addressed g (queued (outbound s)))))"
proof -
  obtain s1 where s1: "drain_outbound_queue moved fuel s = Some s1" "queued (outbound s1) = []" "kernel s1 = kernel s"
    "client_at g s1 = Inr (if active c then c\<lparr>write_buffer := write_buffer c @ addressed g (queued (outbound s))\<rparr> else c)"
    "\<forall>f \<in> set (pending_writes s1). \<exists>c. client_at f s1 = Inr c"
    using drain_eq [OF assms(2,3), of moved g] assms(4,5) by auto
  note flush = flush_kept [OF assms(1) s1(5), of g]
  show ?thesis
  proof (cases "flush_pending_writes os s1")
    case (Inr s2)
    have s2: "output_kept wire s1 s2 g" "pending_writes s2 = []" using flush Inr by simp_all
    obtain c2 where c2: "client_at g s2 = Inr c2" using s2(1) s1(4) by (auto simp: output_kept_def split: sum.splits)
    let ?c1 = "if active c then c\<lparr>write_buffer := write_buffer c @ addressed g (queued (outbound s))\<rparr> else c"
    have w: "writer_ok ?c1" using assms(6) by (auto simp: writer_ok_def)
    have "writer_ok c2" "active c2 \<Longrightarrow> active ?c1 \<and> wire (kernel s2) g @ unsent c2 = wire (kernel s) g @ unsent ?c1"
      using s2(1) w by (simp_all add: output_kept_def s1(3,4) c2)
    moreover have "unsent ?c1 = unsent c @ addressed g (queued (outbound s))" if "active c"
      using that assms(6) by (auto simp: unsent_def writer_ok_def)
    ultimately have "active c2 \<longrightarrow> active c \<and>
        wire (kernel s2) g @ unsent c2 = wire (kernel s) g @ unsent c @ addressed g (queued (outbound s))"
      by (auto split: if_splits)
    then show ?thesis using s1(1,2) s2(2) Inr c2 \<open>writer_ok c2\<close> by auto
  qed (use s1(1,2) flush in auto)
qed

lemma sample_send_ok: "send_ok sample_os sent_bytes"
  by (simp add: send_ok_def sample_os_def sample_send_def)

definition sample_outbox :: "sample_kernel server" where
  "sample_outbox = (sample_server [])\<lparr>outbound := snd (try_push DEFAULT_RING_CAPACITY
     \<lparr>out_fd = 5, out_payload = [1, 2]\<rparr> (outbound (sample_server [])))\<rparr>"

lemma sample_outbox_facts:
  "queue_ok (outbound sample_outbox)" "queued (outbound sample_outbox) = [\<lparr>out_fd = 5, out_payload = [1, 2]\<rparr>]"
  "pending_writes sample_outbox = []" "client_at 5 sample_outbox = Inr (empty_client\<lparr>active := True\<rparr>)"
proof -
  have q: "queue_ok (outbound (sample_server []))" "queued (outbound (sample_server [])) = []"
    by (simp_all add: sample_server_def)
  then have "length (queued (outbound (sample_server []))) < 2 ^ 13" by simp
  from ring_queue.push_room [OF q(1) this, of "\<lparr>out_fd = 5, out_payload = [1, 2]\<rparr>"] q(2)
  show "queue_ok (outbound sample_outbox)" "queued (outbound sample_outbox) = [\<lparr>out_fd = 5, out_payload = [1, 2]\<rparr>]"
    by (auto simp: sample_outbox_def)
  show "pending_writes sample_outbox = []" "client_at 5 sample_outbox = Inr (empty_client\<lparr>active := True\<rparr>)"
    using sample_client [of "[]"] by (simp_all add: sample_outbox_def) (simp add: sample_server_def)
qed

text \<open>
  C34: A connection can be closed although nothing failed. When \<^verbatim>\<open>try_send\<close> hands over the last unsent
  bytes, it does not take back the interest in writability that an earlier partial send registered:
  it makes no \<^verbatim>\<open>epoll_ctl\<close> call. The next writable event runs \<^verbatim>\<open>handle_write\<close> with an empty buffer, a
  \<^verbatim>\<open>send\<close> of zero bytes returns 0, and the healthy client is disconnected.
\<close>

theorem completed_send_then_writable_disconnects:
  assumes "client_at f s = Inr c" and "active c" and "unsent c \<noteq> []"
    and "os_send os f (unsent c) (kernel s) = (Sent (length (unsent c)), k)" and "os_send os f [] k = (Sent 0, k')"
  shows "\<exists>s1 s2. try_send os f s = Inr s1 \<and> kernel s1 = k \<and> handle_write os f s1 = Inr s2
    \<and> client_at f s2 = Inr empty_client"
proof -
  let ?c = "c\<lparr>write_buffer := [], bytes_sent := 0\<rparr>"
  let ?s1 = "set_client f ?c (s\<lparr>kernel := k\<rparr>)"
  have "write_buffer c \<noteq> []" "bytes_sent c + length (unsent c) = length (write_buffer c)"
    "0 < length (unsent c)"
    using assms(3) by (auto simp: unsent_def)
  then have "try_send os f s = Inr ?s1"
    using assms(1,2,4) by (simp add: try_send_def unsent_def [symmetric] Let_def)
  moreover have at: "client_at f ?s1 = Inr ?c" using client_at_set [of f "s\<lparr>kernel := k\<rparr>" c f ?c] assms(1) by simp
  moreover have "client_at f (?s1\<lparr>kernel := k'\<rparr>) = Inr ?c" using at by simp
  from disconnect_eq [OF this, of os] client_at_set [OF this, of f]
  have "\<exists>s2. handle_write os f ?s1 = Inr s2 \<and> client_at f s2 = Inr empty_client"
    using at assms(2,5) client_at_set [of f "?s1\<lparr>kernel := os_close os f (os_epoll_del os f k')\<rparr>" ?c f]
    by (simp add: handle_write_def)
  ultimately show ?thesis by auto
qed

definition sample_writer :: "sample_kernel server" where
  "sample_writer = set_client 5 (empty_client\<lparr>active := True, write_buffer := [1, 2]\<rparr>) (sample_server [])"

theorem completed_send_then_writable_disconnects_witness:
  "\<exists>s1 s2. try_send sample_os 5 sample_writer = Inr s1 \<and> handle_write sample_os 5 s1 = Inr s2
     \<and> client_at 5 s2 = Inr empty_client"
proof -
  let ?c = "empty_client\<lparr>active := True, write_buffer := [1, 2]\<rparr>"
  have c: "client_at 5 sample_writer = Inr ?c"
    unfolding sample_writer_def using client_at_set [OF sample_client [of "[]"], of 5 ?c] by simp
  have u: "unsent ?c = [1, 2]" by (simp add: unsent_def empty_client_def)
  have snd: "os_send sample_os = sample_send" by (simp add: sample_os_def)
  show ?thesis
    using completed_send_then_writable_disconnects [OF c, of sample_os]
    by (simp add: u snd sample_send_def) blast
qed

text \<open>
  A peer that closes its connection while there is output for it ends the exchange: the next flush
  calls \<^verbatim>\<open>send\<close>, and the signal that this raises is neither suppressed nor handled.
\<close>

lemma closed_peer_ends_the_process:
  assumes "client_at f s = Inr c" and "active c" and "unsent c \<noteq> []" and "pending_writes s = f # fs"
    and "os_send os f (unsent c) (kernel s) = (Send_pipe, k)"
  shows "flush_pending_writes os s = Inl Sigpipe"
proof -
  have "write_buffer c \<noteq> []" using assms(3) by (auto simp: unsent_def)
  then have "try_send os f s = Inl Sigpipe"
    using assms(1,2,5) by (simp add: try_send_def unsent_def [symmetric])
  then show ?thesis using assms(4) by (simp add: flush_pending_writes_def)
qed

end
