(* ===== verification/Server_Round.thy ===== *)
theory Server_Round
  imports Server_Output
begin

text \<open>
  One round of the server's loop: it ends, and it keeps the invariant of the server's state, without
  undefined behaviour. First the fuel of the loops, then what is assumed of the kernel, the
  invariant, and each handler in turn.
\<close>

section \<open>Fuel\<close>

text \<open>More fuel never changes a result.\<close>

definition fuel_mono :: "(nat \<Rightarrow> 'a option) \<Rightarrow> bool" where
  "fuel_mono F \<longleftrightarrow> (\<forall>n m r. n \<le> m \<longrightarrow> F n = Some r \<longrightarrow> F m = Some r)"

lemma fuel_mono_Suc: "(\<And>n r. F n = Some r \<Longrightarrow> F (Suc n) = Some r) \<Longrightarrow> fuel_mono F"
proof -
  assume step: "\<And>n r. F n = Some r \<Longrightarrow> F (Suc n) = Some r"
  have "F m = Some r" if "n \<le> m" "F n = Some r" for n m r
    using that by (induction rule: dec_induct) (auto intro: step)
  then show ?thesis by (auto simp: fuel_mono_def)
qed

lemma fuel_mono_const [simp]: "fuel_mono (\<lambda>n. x)"
  by (simp add: fuel_mono_def)

lemma opt_bind_simps [simp]: "opt_bind None g = None" "opt_bind (Some (Inl x)) g = Some (Inl x)" "opt_bind (Some (Inr y)) g = g y"
  by (simp_all add: opt_bind_def)

lemma opt_bind_mono:
  "fuel_mono F \<Longrightarrow> (\<And>y. fuel_mono (\<lambda>n. G n y)) \<Longrightarrow> fuel_mono (\<lambda>n. opt_bind (F n) (G n))"
  unfolding fuel_mono_def opt_bind_def by (fastforce split: option.splits sum.splits)

text \<open>Two operations in sequence end when the second ends on what the first returns.\<close>

lemma opt_bind_ends:
  assumes F: "fuel_mono F" "F n = Some (Inr y)" and G: "\<And>y. fuel_mono (\<lambda>n. G n y)" "G m y = Some r"
  shows "opt_bind (F (max n m)) (G (max n m)) = Some r"
proof -
  have "F (max n m) = Some (Inr y)" using F unfolding fuel_mono_def by (metis max.cobounded1)
  moreover have "G (max n m) y = Some r" using G unfolding fuel_mono_def by (metis max.cobounded2)
  ultimately show ?thesis by simp
qed

lemma read_loop_mono: "fuel_mono (\<lambda>n. read_loop e os f n c q k)"
proof (rule fuel_mono_Suc)
  show "read_loop e os f n c q k = Some r \<Longrightarrow> read_loop e os f (Suc n) c q k = Some r" for n r
  proof (induction n arbitrary: c q k)
    case (Suc n)
    show ?case
      unfolding read_loop.simps(2) [of e os f "Suc n"] using Suc.IH Suc.prems [unfolded read_loop.simps(2)]
      by (auto simp del: read_loop.simps(2) split: sum.splits read_outcome.splits)
  qed simp
qed

lemma handle_read_mono: "fuel_mono (\<lambda>n. handle_read e os n f s)"
  using read_loop_mono [of e os f _ "inbound s" "kernel s"] unfolding fuel_mono_def handle_read_def
  by (auto split: sum.splits option.splits)

lemma accept_client_mono: "fuel_mono (\<lambda>n. accept_client os n s)"
proof (rule fuel_mono_Suc)
  show "accept_client os n s = Some r \<Longrightarrow> accept_client os (Suc n) s = Some r" for n r
  proof (induction n arbitrary: s)
    case (Suc n)
    show ?case
      unfolding accept_client.simps(2) [of os "Suc n"] using Suc.IH Suc.prems [unfolded accept_client.simps(2)]
      by (auto simp del: accept_client.simps(2) split: sum.splits option.splits prod.splits)
  qed simp
qed

lemma drain_mono: "fuel_mono (\<lambda>n. drain_outbound_queue moved n s)"
proof (rule fuel_mono_Suc)
  show "drain_outbound_queue moved n s = Some r \<Longrightarrow> drain_outbound_queue moved (Suc n) s = Some r" for n r
  proof (induction n arbitrary: s)
    case (Suc n)
    show ?case
      unfolding drain_outbound_queue.simps(2) [of moved "Suc n"] using Suc.IH Suc.prems [unfolded drain_outbound_queue.simps(2)]
      by (auto simp del: drain_outbound_queue.simps(2) split: option.splits prod.splits)
  qed simp
qed

lemma handle_event_mono: "fuel_mono (\<lambda>n. handle_event e os n ev s)"
proof -
  obtain f readable writable where ev: "ev = (f, readable, writable)" by (cases ev)
  have "fuel_mono (\<lambda>n. if readable then handle_read e os n f s else Some (Inr s))"
    by (cases readable) (simp_all add: handle_read_mono)
  then have "fuel_mono (\<lambda>n. opt_bind (if readable then handle_read e os n f s else Some (Inr s))
      (\<lambda>s. if writable then Some (handle_write os f s) else Some (Inr s)))"
    by (rule opt_bind_mono) simp
  then show ?thesis by (cases "f = server_fd s") (simp_all add: handle_event_def ev accept_client_mono)
qed

lemma handle_events_mono: "fuel_mono (\<lambda>n. handle_events e os n evs s)"
  by (induction evs arbitrary: s) (auto intro!: opt_bind_mono handle_event_mono)

text \<open>A round of the server is the draining and the rest.\<close>

definition after_drain :: "endian \<Rightarrow> 'k os \<Rightarrow> nat \<Rightarrow> 'k server \<Rightarrow> 'k server result option" where
  "after_drain e os n s = opt_bind (Some (flush_pending_writes os s)) (\<lambda>s.
     case os_epoll_wait os (kernel s) of (evs, k) \<Rightarrow> handle_events e os n (take 64 evs) (s\<lparr>kernel := k\<rparr>))"

lemma server_turn_bind:
  "server_turn e os moved n s = opt_bind (map_option Inr (drain_outbound_queue moved n s)) (after_drain e os n)"
  by (simp add: server_turn_def after_drain_def opt_bind_def split: option.split)

lemma after_drain_mono: "fuel_mono (\<lambda>n. after_drain e os n s)"
  unfolding after_drain_def by (intro opt_bind_mono) (simp_all add: handle_events_mono case_prod_unfold)

lemma drain_result_mono: "fuel_mono (\<lambda>n. map_option Inr (drain_outbound_queue moved n s))"
  using drain_mono [of moved s] unfolding fuel_mono_def by auto

lemma server_turn_mono: "fuel_mono (\<lambda>n. server_turn e os moved n s)"
  unfolding server_turn_bind by (rule opt_bind_mono [OF drain_result_mono after_drain_mono])

section \<open>What is assumed of the kernel\<close>

text \<open>
  \<open>backlog k\<close> bounds the connections that \<^verbatim>\<open>accept\<close> can still return in one loop; descriptors are not
  negative.
\<close>

definition accept_ok :: "'k os \<Rightarrow> ('k \<Rightarrow> nat) \<Rightarrow> bool" where
  "accept_ok os backlog \<longleftrightarrow>
     (\<forall>f k g k'. os_accept os f k = (Accepted g, k') \<longrightarrow> 0 \<le> g \<and> backlog k' < backlog k)
     \<and> (\<forall>f k. backlog (snd (os_nonblock os f k)) \<le> backlog k \<and> backlog (snd (os_epoll_add os f k)) \<le> backlog k
        \<and> backlog (os_nodelay os f k) \<le> backlog k)"

definition os_ok :: "'k os \<Rightarrow> ('k \<Rightarrow> fd \<Rightarrow> byte list) \<Rightarrow> ('k \<Rightarrow> fd \<Rightarrow> byte list) \<Rightarrow> ('k \<Rightarrow> fd set) \<Rightarrow> ('k \<Rightarrow> nat) \<Rightarrow> bool" where
  "os_ok os left wire watched backlog \<longleftrightarrow>
     recv_ok os left \<and> send_ok os wire \<and> watch_ok os watched \<and> accept_ok os backlog"

section \<open>The invariant of the server\<close>

definition in_range :: "'k server \<Rightarrow> fd \<Rightarrow> bool" where
  "in_range s f \<longleftrightarrow> 0 \<le> f \<and> nat f < length (clients s)"

definition server_ok :: "('k \<Rightarrow> fd set) \<Rightarrow> 'k server \<Rightarrow> bool" where
  "server_ok watched s \<longleftrightarrow> queue_ok (inbound s) \<and> queue_ok (outbound s)
     \<and> list_all (\<lambda>c. reader_ok c \<and> writer_ok c) (clients s)
     \<and> (\<forall>f \<in> watched (kernel s). f = server_fd s \<or> in_range s f) \<and> list_all (in_range s) (pending_writes s)"

text \<open>Descriptors in range stay in range.\<close>

definition grows :: "'k server \<Rightarrow> 'k server \<Rightarrow> bool" where
  "grows s s' \<longleftrightarrow> server_fd s' = server_fd s \<and> length (clients s) \<le> length (clients s')"

lemma grows_refl [simp]: "grows s s" and grows_trans: "grows s s' \<Longrightarrow> grows s' s'' \<Longrightarrow> grows s s''"
  by (simp_all add: grows_def)

lemma grows_in_range: "grows s s' \<Longrightarrow> in_range s f \<Longrightarrow> in_range s' f"
  by (simp add: grows_def in_range_def)

lemma in_range_client: "in_range s f \<longleftrightarrow> (\<exists>c. client_at f s = Inr c)"
  by (auto simp: in_range_def client_at_def)

lemma in_range_update [simp]:
  "in_range (s\<lparr>kernel := k\<rparr>) = in_range s" "in_range (s\<lparr>inbound := q\<rparr>) = in_range s"
  "in_range (s\<lparr>outbound := r\<rparr>) = in_range s" "in_range (s\<lparr>pending_writes := fs\<rparr>) = in_range s"
  "in_range (set_client f c s) = in_range s"
  by (simp_all add: in_range_def fun_eq_iff set_client_def)

lemma client_ok:
  "server_ok watched s \<Longrightarrow> client_at f s = Inr c \<Longrightarrow> reader_ok c \<and> writer_ok c"
  by (auto simp: server_ok_def client_at_Inr list_all_iff)

text \<open>A step that changes one client's state and takes no descriptor under watch.\<close>

definition client_change :: "('k \<Rightarrow> fd set) \<Rightarrow> fd \<Rightarrow> 'k server \<Rightarrow> 'k server \<Rightarrow> bool" where
  "client_change watched f s s' \<longleftrightarrow> (\<exists>c q k. s' = set_client f c (s\<lparr>inbound := q, kernel := k\<rparr>)
     \<and> reader_ok c \<and> writer_ok c \<and> queue_ok q \<and> watched k \<subseteq> watched (kernel s))"

lemma client_change_ok:
  assumes "client_change watched f s s'" and "server_ok watched s"
  shows "server_ok watched s'" and "grows s s'" and "pending_writes s' = pending_writes s"
proof -
  obtain c q k where s': "s' = set_client f c (s\<lparr>inbound := q, kernel := k\<rparr>)" "reader_ok c" "writer_ok c"
    "queue_ok q" "watched k \<subseteq> watched (kernel s)" using assms(1) by (auto simp: client_change_def)
  have "set ((clients s)[nat f := c]) \<subseteq> insert c (set (clients s))" by (rule set_update_subset_insert)
  then show "server_ok watched s'"
    using s' assms(2) by (auto simp: server_ok_def set_client_def in_range_def list_all_iff)
  show "grows s s'" "pending_writes s' = pending_writes s" using s'(1) by (simp_all add: grows_def set_client_def)
qed

lemma client_change_set:
  "server_ok watched s \<Longrightarrow> reader_ok c \<Longrightarrow> writer_ok c \<Longrightarrow> watched k \<subseteq> watched (kernel s) \<Longrightarrow>
     client_change watched f s (set_client f c (s\<lparr>kernel := k\<rparr>))"
  unfolding client_change_def by (intro exI [of _ c] exI [of _ "inbound s"] exI [of _ k]) (simp add: server_ok_def)

text \<open>The faults that can leave a round: the exceptions of \<open>accept_client\<close> and the signal of \<^verbatim>\<open>send\<close>.\<close>

definition accept_faults :: "fault set" where
  "accept_faults = (\<lambda>m. Throw (Runtime_error m)) ` {''accept failed'', ''failed to set socket to non blocking'',
     ''failed to register client with epoll''}"

text \<open>How a handler may end: with the invariant kept, or with one of these faults.\<close>

definition ends_ok :: "'k os \<Rightarrow> ('k \<Rightarrow> fd set) \<Rightarrow> 'k server \<Rightarrow> 'k server result \<Rightarrow> bool" where
  "ends_ok os watched s r \<longleftrightarrow>
     (case r of Inl x \<Rightarrow> x \<in> accept_faults \<union> send_faults os | Inr s' \<Rightarrow> server_ok watched s' \<and> grows s s')"

lemma ends_ok_trans: "grows s s' \<Longrightarrow> ends_ok os watched s' r \<Longrightarrow> ends_ok os watched s r"
  by (auto simp: ends_ok_def split: sum.splits intro: grows_trans)

section \<open>Writing keeps the invariant\<close>

lemma sends_step:
  assumes "sends os wire f s c s'" and "watch_ok os watched" and "server_ok watched s" and "client_at f s = Inr c"
  shows "client_change watched f s s'"
  using assms(1,2) client_ok [OF assms(3,4)] client_change_set [OF assms(3)] by (auto simp: sends_def)

lemma send_step_ok:
  assumes "send_ends os wire f s c r" and "watch_ok os watched" and s: "server_ok watched s" and "client_at f s = Inr c"
  shows "ends_ok os watched s r"
  using assms(1) client_change_ok [OF sends_step [OF _ assms(2-4)] s]
  by (auto simp: send_ends_def ends_ok_def split: sum.splits)

lemma send_each_ok:
  "send_ok os wire \<Longrightarrow> watch_ok os watched \<Longrightarrow> server_ok watched s \<Longrightarrow> list_all (in_range s) fs \<Longrightarrow>
     ends_ok os watched s (send_each os fs s)"
proof (induction fs arbitrary: s)
  case (Cons f fs)
  then obtain c where c: "client_at f s = Inr c" by (auto simp: in_range_client)
  note ok = send_step_ok [OF try_send_sends [OF Cons.prems(1) c] Cons.prems(2,3) c]
  show ?case
  proof (cases "try_send os f s")
    case (Inr s1)
    have s1: "server_ok watched s1" "grows s s1" using ok Inr by (simp_all add: ends_ok_def)
    have "list_all (in_range s1) fs" using Cons.prems(4) grows_in_range [OF s1(2)] by (auto simp: list_all_iff)
    from Cons.IH [OF Cons.prems(1,2) s1(1) this] show ?thesis using Inr ends_ok_trans [OF s1(2)] by simp
  qed (use ok in \<open>simp add: ends_ok_def\<close>)
qed (simp add: ends_ok_def)

lemma flush_ok:
  assumes "send_ok os wire" and "watch_ok os watched" and "server_ok watched s"
  shows "ends_ok os watched s (flush_pending_writes os s)"
proof -
  have "list_all (in_range s) (pending_writes s)" using assms(3) by (simp add: server_ok_def)
  from send_each_ok [OF assms this] show ?thesis
    by (cases "send_each os (pending_writes s) s")
      (auto simp: flush_pending_writes_def ends_ok_def server_ok_def in_range_def grows_def)
qed

lemma queue_output_ok:
  assumes "server_ok watched s"
  shows "server_ok watched (queue_output m s)" and "grows s (queue_output m s)"
proof -
  have "server_ok watched (queue_output m s) \<and> grows s (queue_output m s)"
  proof (cases "client_at (out_fd m) s")
    case (Inr c)
    let ?c = "c\<lparr>write_buffer := write_buffer c @ out_payload m\<rparr>"
    have "reader_ok ?c" "writer_ok ?c" using client_ok [OF assms Inr] by (auto simp: writer_ok_def)
    from client_change_set [OF assms this subset_refl, of "out_fd m"]
    have "client_change watched (out_fd m) s (set_client (out_fd m) ?c s)" by simp
    from client_change_ok [OF this assms]
    have "server_ok watched (set_client (out_fd m) ?c s)" "grows s (set_client (out_fd m) ?c s)" by simp_all
    moreover have "in_range s (out_fd m)" using Inr by (auto simp: in_range_client)
    ultimately show ?thesis
      using assms Inr by (cases "active c") (simp_all add: queue_output_def server_ok_def grows_def)
  qed (use assms in \<open>simp add: queue_output_def\<close>)
  then show "server_ok watched (queue_output m s)" "grows s (queue_output m s)" by simp_all
qed

lemma drain_ok:
  "drain_outbound_queue moved n s = Some s' \<Longrightarrow> server_ok watched s \<Longrightarrow> server_ok watched s' \<and> grows s s'"
proof (induction n arbitrary: s)
  case (Suc n)
  have q: "queue_ok (outbound s)" using Suc.prems(2) by (simp add: server_ok_def)
  have upd: "server_ok watched (s\<lparr>outbound := q\<rparr>)" "grows s (s\<lparr>outbound := q\<rparr>)" if "queue_ok q" for q
    using Suc.prems(2) that by (auto simp: server_ok_def in_range_def grows_def)
  show ?case
  proof (cases rule: ring_queue.pop_cases [OF q, of moved])
    case 1
    then show ?thesis using Suc.prems by auto
  next
    case (2 m q')
    note ok = queue_output_ok [OF upd(1) [OF 2(2)], of m]
    have "drain_outbound_queue moved n (queue_output m (s\<lparr>outbound := q'\<rparr>)) = Some s'"
      using Suc.prems(1) 2(1) by simp
    from Suc.IH [OF this ok(1)] show ?thesis using grows_trans [OF upd(2) [OF 2(2)]] grows_trans [OF ok(2)] by blast
  qed
qed simp

section \<open>Reading and accepting keep the invariant\<close>

primrec out_kernel :: "'k read_outcome \<Rightarrow> 'k" where
  "out_kernel (Next c q k) = k"
| "out_kernel (Stop c q k) = k"
| "out_kernel (Drop q k) = k"

lemma out_kernel_push [simp]: "out_kernel (push_message f c q k) = k"
  by (simp add: push_message_def split: prod.split bool.split)

text \<open>A round of the read loop changes the kernel only by calls of \<^verbatim>\<open>recv\<close>.\<close>

lemma part_kernel:
  assumes "\<And>k. R k k" and "\<And>n k r k'. os_recv os f n k = (r, k') \<Longrightarrow> R k k'"
  shows "header_part e os f c q k = Inr out \<Longrightarrow> R k (out_kernel out)"
    and "payload_part os f c q k = Inr out \<Longrightarrow> R k (out_kernel out)"
  using assms
  by (auto simp: header_part_def payload_part_def Let_def result_bind_Inr
      split: if_splits prod.splits recv_result.splits)

lemma read_round_kernel:
  assumes R: "\<And>k. R k k" "\<And>n k r k'. os_recv os f n k = (r, k') \<Longrightarrow> R k k'"
    and trans: "\<And>k1 k2 k3. R k1 k2 \<Longrightarrow> R k2 k3 \<Longrightarrow> R k1 k3" and rd: "read_round e os f c q k = Inr out"
  shows "R k (out_kernel out)"
proof -
  obtain out1 where h: "header_part e os f c q k = Inr out1"
    "(case out1 of Next c q k \<Rightarrow> payload_part os f c q k | _ \<Rightarrow> Inr out1) = Inr out"
    using rd by (auto simp: read_round_def result_bind_Inr)
  have 1: "R k (out_kernel out1)" by (rule part_kernel(1) [of R, OF R h(1)])
  show ?thesis
  proof (cases out1)
    case (Next c1 q1 k1)
    then have 2: "payload_part os f c1 q1 k1 = Inr out" using h(2) by simp
    have "R k1 (out_kernel out)" by (rule part_kernel(2) [of R, OF R 2])
    then show ?thesis using trans 1 Next by simp
  qed (use h(2) 1 in auto)
qed

lemma read_round_watch:
  assumes "watch_ok os watched" and "read_round e os f c q k = Inr out"
  shows "watched (out_kernel out) \<subseteq> watched k"
  by (rule read_round_kernel [of "\<lambda>k k'. watched k' \<subseteq> watched k", OF _ _ _ assms(2)])
    (use watch_calls(2) [OF assms(1)] in blast)+

lemma read_loop_watch:
  "watch_ok os watched \<Longrightarrow> read_loop e os f n c q k = Some (Inr out) \<Longrightarrow> watched (out_kernel out) \<subseteq> watched k"
proof (induction n arbitrary: c q k)
  case (Suc n)
  obtain out1 where r: "read_round e os f c q k = Inr out1"
    using Suc.prems(2) by (cases "read_round e os f c q k") simp_all
  note w = read_round_watch [OF Suc.prems(1) r]
  show ?case
  proof (cases out1)
    case (Next c1 q1 k1)
    then show ?thesis using Suc.IH [OF Suc.prems(1), of c1 q1 k1] Suc.prems(2) r w by auto
  qed (use Suc.prems(2) r w in auto)
qed simp

lemma handle_read_ok:
  assumes os: "recv_ok os left" "watch_ok os watched" and s: "server_ok watched s" "client_at f s = Inr c"
  shows "\<exists>n s'. handle_read e os n f s = Some (Inr s') \<and> server_ok watched s' \<and> grows s s'"
proof (cases "active c")
  case False
  then show ?thesis using s by (auto simp: handle_read_def)
next
  case True
  note c = client_ok [OF s]
  have q: "queue_ok (inbound s)" using s(1) by (simp add: server_ok_def)
  let ?n = "Suc (rounds left f c (kernel s))"
  obtain out where out: "read_loop e os f ?n c (inbound s) (kernel s) = Some (Inr out)"
    "outcome_ok left f c (inbound s) (kernel s) out" "\<forall>c' q' k'. out \<noteq> Next c' q' k'"
    using read_loop_ok [OF os(1), of c "inbound s" f "kernel s" ?n e] c q by auto
  note w = read_loop_watch [OF os(2) out(1)]
  show ?thesis
  proof (cases out)
    case (Stop c' q' k')
    have p: "progress left f c (inbound s) (kernel s) c' q' k'" using out(2) Stop by (simp add: outcome_ok_def)
    then have "reader_ok c'" "writer_ok c'" "queue_ok q'" using c by (simp_all add: progress_def writer_ok_def)
    moreover have "watched k' \<subseteq> watched (kernel s)" using w Stop by simp
    ultimately have "client_change watched f s (set_client f c' (s\<lparr>inbound := q', kernel := k'\<rparr>))"
      unfolding client_change_def by blast
    moreover have "handle_read e os ?n f s = Some (Inr (set_client f c' (s\<lparr>inbound := q', kernel := k'\<rparr>)))"
      using out(1) s(2) True Stop by (simp add: handle_read_def)
    ultimately show ?thesis using client_change_ok [OF _ s(1)] by blast
  next
    case (Drop q' k')
    let ?s = "s\<lparr>inbound := q', kernel := k'\<rparr>"
    have "queue_ok q'" using out(2) Drop by (simp add: outcome_ok_def)
    moreover have "watched (os_close os f (os_epoll_del os f k')) \<subseteq> watched (kernel s)"
      using watch_calls(7) [OF os(2), of f k'] w Drop by auto
    ultimately have "client_change watched f s
        (set_client f empty_client (s\<lparr>inbound := q', kernel := os_close os f (os_epoll_del os f k')\<rparr>))"
      unfolding client_change_def by (intro exI conjI) auto
    moreover have "handle_read e os ?n f s = Some (Inr (set_client f empty_client
        (s\<lparr>inbound := q', kernel := os_close os f (os_epoll_del os f k')\<rparr>)))"
      using out(1) s(2) True Drop by (simp add: handle_read_def disconnect_eq [of f _ c])
    ultimately show ?thesis using client_change_ok [OF _ s(1)] by blast
  qed (use out(3) in simp)
qed

lemma add_client_ok:
  assumes s: "server_ok watched s" and f: "0 \<le> f" and k: "watched k \<subseteq> insert f (watched (kernel s))"
  shows "server_ok watched (add_client f (s\<lparr>kernel := k\<rparr>))" and "grows s (add_client f (s\<lparr>kernel := k\<rparr>))"
proof -
  let ?s = "add_client f (s\<lparr>kernel := k\<rparr>)"
  have eq: "inbound ?s = inbound s" "outbound ?s = outbound s" "pending_writes ?s = pending_writes s"
    "server_fd ?s = server_fd s" "kernel ?s = k" by (simp_all add: add_client_def Let_def)
  have g: "grows s ?s" and r: "in_range ?s f"
    using f by (auto simp: add_client_def Let_def grows_def in_range_def)
  have "writer_ok (empty_client\<lparr>active := True\<rparr>)" by (simp add: writer_ok_def empty_client_def)
  then have c: "list_all (\<lambda>c. reader_ok c \<and> writer_ok c) (clients ?s)"
    using s by (auto simp: add_client_def Let_def server_ok_def list_all_iff dest!: set_update_subset_insert [THEN subsetD])
  show "server_ok watched ?s"
    using s k r c grows_in_range [OF g] by (fastforce simp: server_ok_def eq list_all_iff)
  show "grows s ?s" by (rule g)
qed

text \<open>A round of the accept loop; the backlog shrinks with every connection accepted.\<close>

lemma accept_one_ok:
  assumes os: "accept_ok os backlog" "watch_ok os watched" and s: "server_ok watched s"
  shows "case accept_one os s of
      Inl x \<Rightarrow> x \<in> accept_faults
    | Inr (a, s') \<Rightarrow> server_ok watched s' \<and> grows s s' \<and> (a \<noteq> None \<longrightarrow> backlog (kernel s') < backlog (kernel s))"
proof -
  have upd: "server_ok watched (s\<lparr>kernel := k\<rparr>)" "grows s (s\<lparr>kernel := k\<rparr>)" if "watched k \<subseteq> watched (kernel s)" for k
    using s that by (auto simp: server_ok_def grows_def)
  obtain a k where a: "os_accept os (server_fd s) (kernel s) = (a, k)" by fastforce
  note ka = watch_calls(5) [OF os(2) a]
  show ?thesis
  proof (cases a)
    case (Accepted f)
    obtain b1 k1 where 1: "os_nonblock os f k = (b1, k1)" by fastforce
    obtain b2 k2 where 2: "os_epoll_add os f k1 = (b2, k2)" by fastforce
    let ?k = "os_nodelay os f k2"
    have f: "0 \<le> f" and "backlog k < backlog (kernel s)" using os(1) a Accepted by (auto simp: accept_ok_def)
    moreover have "backlog k1 \<le> backlog k" "backlog k2 \<le> backlog k1" "backlog ?k \<le> backlog k2"
      using os(1) 1 2 unfolding accept_ok_def by (metis snd_conv)+
    ultimately have b: "backlog ?k < backlog (kernel s)" by linarith
    have "watched ?k \<subseteq> insert f (watched (kernel s))"
      using watch_calls(3) [OF os(2) 1] watch_calls(4) [OF os(2) 2] watch_calls(9) [OF os(2), of f k2] ka by blast
    note ok = add_client_ok [OF s f this]
    have "kernel (add_client f (s\<lparr>kernel := ?k\<rparr>)) = ?k" by (simp add: add_client_def Let_def)
    then show ?thesis
      using a Accepted 1 2 ok b by (cases b1; cases b2) (simp_all add: accept_one_def accept_faults_def)
  qed (use a upd [OF ka] in \<open>simp_all add: accept_one_def accept_faults_def\<close>)
qed

lemma accept_client_ok:
  assumes os: "accept_ok os backlog" "watch_ok os watched"
  shows "server_ok watched s \<Longrightarrow> backlog (kernel s) < n \<Longrightarrow> \<exists>r. accept_client os n s = Some r \<and> ends_ok os watched s r"
proof (induction n arbitrary: s)
  case (Suc n)
  note one = accept_one_ok [OF os Suc.prems(1)]
  show ?case
  proof (cases "accept_one os s")
    case (Inr r)
    then obtain a s1 where r: "accept_one os s = Inr (a, s1)" by (cases r) simp
    then have s1: "server_ok watched s1" "grows s s1" "a \<noteq> None \<longrightarrow> backlog (kernel s1) < backlog (kernel s)"
      using one by simp_all
    show ?thesis
    proof (cases a)
      case (Some f)
      then have "backlog (kernel s1) < n" using s1(3) Suc.prems(2) by simp
      from Suc.IH [OF s1(1) this] show ?thesis using r Some ends_ok_trans [OF s1(2)] by auto
    qed (use r s1 in \<open>simp add: ends_ok_def\<close>)
  qed (use one in \<open>simp add: ends_ok_def\<close>)
qed simp

section \<open>A round of the server\<close>

lemma handle_event_ok:
  assumes os: "os_ok os left wire watched backlog" and s: "server_ok watched s"
    and ev: "fst ev = server_fd s \<or> in_range s (fst ev)"
  shows "\<exists>n r. handle_event e os n ev s = Some r \<and> ends_ok os watched s r"
proof -
  obtain f readable writable where [simp]: "ev = (f, readable, writable)" by (cases ev)
  note os' = os [unfolded os_ok_def]
  show ?thesis
  proof (cases "f = server_fd s")
    case True
    then show ?thesis
      using accept_client_ok [OF _ _ s lessI, of os backlog] os' by (auto simp: handle_event_def simp del: accept_client.simps)
  next
    case False
    then obtain c where c: "client_at f s = Inr c" using ev by (auto simp: in_range_client)
    obtain n s1 where s1: "(if readable then handle_read e os n f s else Some (Inr s)) = Some (Inr s1)"
      "server_ok watched s1" "grows s s1"
      using handle_read_ok [OF _ _ s c, of os left e] os' s by (cases readable) auto
    obtain c1 where c1: "client_at f s1 = Inr c1" using grows_in_range [OF s1(3)] c by (auto simp: in_range_client)
    have "ends_ok os watched s1 (handle_write os f s1)"
      using send_step_ok [OF handle_write_sends [OF _ c1] _ s1(2) c1] os' by blast
    from ends_ok_trans [OF s1(3) this] show ?thesis
      using False s1 by (intro exI [of _ n]) (simp add: handle_event_def ends_ok_def)
  qed
qed

lemma handle_events_ok:
  assumes os: "os_ok os left wire watched backlog"
  shows "server_ok watched s \<Longrightarrow> \<forall>ev \<in> set evs. fst ev = server_fd s \<or> in_range s (fst ev) \<Longrightarrow>
    \<exists>n r. handle_events e os n evs s = Some r \<and> ends_ok os watched s r"
proof (induction evs arbitrary: s)
  case (Cons ev evs)
  obtain n r where r: "handle_event e os n ev s = Some r" "ends_ok os watched s r"
    using handle_event_ok [OF os Cons.prems(1)] Cons.prems(2) by (metis list.set_intros(1))
  show ?case
  proof (cases r)
    case (Inl x)
    then show ?thesis using r by (intro exI [of _ n]) simp
  next
    case (Inr s1)
    then have s1: "server_ok watched s1" "grows s s1" using r(2) by (simp_all add: ends_ok_def)
    have "\<forall>ev \<in> set evs. fst ev = server_fd s1 \<or> in_range s1 (fst ev)"
      using Cons.prems(2) grows_in_range [OF s1(2)] s1(2) by (auto simp: grows_def)
    from Cons.IH [OF s1(1) this] obtain m r2 where "handle_events e os m evs s1 = Some r2" "ends_ok os watched s1 r2"
      by blast
    then show ?thesis
      using opt_bind_ends [OF handle_event_mono r(1) [unfolded Inr] handle_events_mono] ends_ok_trans [OF s1(2)]
      by (intro exI [of _ "max n m"] exI [of _ r2]) simp
  qed
qed (simp add: ends_ok_def)

lemma server_turn_ok:
  assumes os: "os_ok os left wire watched backlog" and s: "server_ok watched s"
  shows "\<exists>n r. server_turn e os moved n s = Some r \<and> ends_ok os watched s r"
proof -
  note os' = os [unfolded os_ok_def]
  have "queue_ok (outbound s)" using s by (simp add: server_ok_def)
  from drain_eq [OF this, of "Suc (length (queued (outbound s)))"]
  obtain n s1 where d: "drain_outbound_queue moved n s = Some s1" by blast
  note s1 = drain_ok [OF d s]
  note flush = flush_ok [of os wire watched s1]
  have "\<exists>m r. after_drain e os m s1 = Some r \<and> ends_ok os watched s1 r"
  proof (cases "flush_pending_writes os s1")
    case (Inl x)
    then show ?thesis using flush os' s1 by (auto simp: after_drain_def ends_ok_def)
  next
    case (Inr s2)
    then have s2: "server_ok watched s2" "grows s1 s2" using flush os' s1 by (simp_all add: ends_ok_def)
    obtain evs k where w: "os_epoll_wait os (kernel s2) = (evs, k)" by fastforce
    have k: "watched k \<subseteq> watched (kernel s2)" "fst ` set evs \<subseteq> watched (kernel s2)"
      using watch_calls(6) [OF _ w] os' by blast+
    have ok: "server_ok watched (s2\<lparr>kernel := k\<rparr>)" using s2(1) k(1) by (auto simp: server_ok_def)
    have "\<forall>ev \<in> set (take 64 evs). fst ev = server_fd (s2\<lparr>kernel := k\<rparr>) \<or> in_range (s2\<lparr>kernel := k\<rparr>) (fst ev)"
      using k(2) s2(1) by (auto simp: server_ok_def dest!: in_set_takeD)
    from handle_events_ok [OF os ok this] obtain m r where
      r: "handle_events e os m (take 64 evs) (s2\<lparr>kernel := k\<rparr>) = Some r" "ends_ok os watched (s2\<lparr>kernel := k\<rparr>) r" by blast
    have "after_drain e os m s1 = Some r" using Inr w r(1) by (simp add: after_drain_def)
    moreover have "grows s1 (s2\<lparr>kernel := k\<rparr>)" using s2(2) by (simp add: grows_def)
    ultimately show ?thesis using r(2) ends_ok_trans by blast
  qed
  then obtain m r where r: "after_drain e os m s1 = Some r" "ends_ok os watched s1 r" by blast
  have "map_option Inr (drain_outbound_queue moved n s) = Some (Inr s1)" using d by simp
  with r(1) have "server_turn e os moved (max n m) s = Some r"
    unfolding server_turn_bind by (intro opt_bind_ends [OF drain_result_mono _ after_drain_mono])
  then show ?thesis using r(2) s1 ends_ok_trans by blast
qed

end
