(* ===== verification/Server_Steps.thy ===== *)
theory Server_Steps
  imports Server_Round
begin

text \<open>
  The server thread as a machine that makes small steps. \<^verbatim>\<open>run\<close> and its handlers are cut so that a
  step uses a ring at most once: one answer is drained, one descriptor flushed, one connection
  accepted, one round of the read loop done. Between two steps the other thread may use the rings.

  It is shown that the steps of a round, when nothing comes between them, compute the round
  \<open>server_turn\<close>; that every step keeps the invariant; and that the steps of a round end.
\<close>

section \<open>Definitions\<close>

text \<open>
  Where the thread is, with the local variables that are live there: the descriptors still to flush,
  the events still to handle, and for the read loop the descriptor and whether it is writable too.
\<close>

type_synonym event = "fd \<times> bool \<times> bool"

datatype server_pc =
    Draining
  | Flushing "fd list"
  | Waiting
  | Handling "event list"
  | Accepting "event list"
  | Reading fd bool "event list"
  | Writing fd "event list"

text \<open>What the log of an execution records.\<close>

datatype action =
    Connected fd
  | Received InboundMessage
  | Processed InboundMessage
  | Delivered OutboundMessage

definition after_read :: "fd \<Rightarrow> bool \<Rightarrow> event list \<Rightarrow> server_pc" where
  "after_read f writable evs = (if writable then Writing f evs else Handling evs)"

text \<open>The messages that a step has pushed into the inbound ring.\<close>

definition received_in :: "InboundMessage ring \<Rightarrow> InboundMessage ring \<Rightarrow> action list" where
  "received_in q q' = map Received (drop (length (queued q)) (queued q'))"

fun server_step ::
  "endian \<Rightarrow> 'k os \<Rightarrow> (OutboundMessage \<Rightarrow> OutboundMessage) \<Rightarrow> server_pc \<Rightarrow> 'k server \<Rightarrow>
     (server_pc \<times> 'k server \<times> action list) result" where
  "server_step e os moved Draining s =
     (case try_pop moved DEFAULT_RING_CAPACITY (outbound s) of
        (None, q) \<Rightarrow> Inr (Flushing (pending_writes s), s\<lparr>outbound := q\<rparr>, [])
      | (Some message, q) \<Rightarrow> Inr (Draining, queue_output message (s\<lparr>outbound := q\<rparr>), [Delivered message]))"
| "server_step e os moved (Flushing []) s = Inr (Waiting, s\<lparr>pending_writes := []\<rparr>, [])"
| "server_step e os moved (Flushing (f # fs)) s = result_bind (try_send os f s) (\<lambda>s. Inr (Flushing fs, s, []))"
| "server_step e os moved Waiting s =
     (case os_epoll_wait os (kernel s) of (evs, k) \<Rightarrow> Inr (Handling (take 64 evs), s\<lparr>kernel := k\<rparr>, []))"
| "server_step e os moved (Handling []) s = Inr (Draining, s, [])"
| "server_step e os moved (Handling ((f, readable, writable) # evs)) s =
     (if f = server_fd s then Inr (Accepting evs, s, [])
      else if readable then
        result_bind (client_at f s) (\<lambda>c.
          Inr (if active c then Reading f writable evs else after_read f writable evs, s, []))
      else Inr (after_read f writable evs, s, []))"
| "server_step e os moved (Accepting evs) s =
     result_bind (accept_one os s) (\<lambda>(a, s).
       case a of None \<Rightarrow> Inr (Handling evs, s, []) | Some f \<Rightarrow> Inr (Accepting evs, s, [Connected f]))"
| "server_step e os moved (Reading f writable evs) s =
     result_bind (client_at f s) (\<lambda>c.
     result_bind (read_round e os f c (inbound s) (kernel s)) (\<lambda>out.
       case out of
         Next c q k \<Rightarrow> Inr (Reading f writable evs, set_client f c (s\<lparr>inbound := q, kernel := k\<rparr>), received_in (inbound s) q)
       | Stop c q k \<Rightarrow> Inr (after_read f writable evs, set_client f c (s\<lparr>inbound := q, kernel := k\<rparr>), received_in (inbound s) q)
       | Drop q k \<Rightarrow>
           result_bind (disconnect_client os f (s\<lparr>inbound := q, kernel := k\<rparr>)) (\<lambda>s'.
             Inr (after_read f writable evs, s', received_in (inbound s) q))))"
| "server_step e os moved (Writing f evs) s = result_bind (handle_write os f s) (\<lambda>s. Inr (Handling evs, s, []))"

section \<open>The steps keep the invariant\<close>

definition event_ok :: "'k server \<Rightarrow> event \<Rightarrow> bool" where
  "event_ok s ev \<longleftrightarrow> fst ev = server_fd s \<or> in_range s (fst ev)"

primrec at_ok :: "'k server \<Rightarrow> server_pc \<Rightarrow> bool" where
  "at_ok s Draining \<longleftrightarrow> True"
| "at_ok s (Flushing fs) \<longleftrightarrow> list_all (in_range s) fs"
| "at_ok s Waiting \<longleftrightarrow> True"
| "at_ok s (Handling evs) \<longleftrightarrow> list_all (event_ok s) evs"
| "at_ok s (Accepting evs) \<longleftrightarrow> list_all (event_ok s) evs"
| "at_ok s (Reading f w evs) \<longleftrightarrow> in_range s f \<and> list_all (event_ok s) evs"
| "at_ok s (Writing f evs) \<longleftrightarrow> in_range s f \<and> list_all (event_ok s) evs"

definition thread_ok :: "('k \<Rightarrow> fd set) \<Rightarrow> server_pc \<Rightarrow> 'k server \<Rightarrow> bool" where
  "thread_ok watched pc s \<longleftrightarrow> server_ok watched s \<and> at_ok s pc"

lemma grows_event_ok: "grows s s' \<Longrightarrow> event_ok s ev \<Longrightarrow> event_ok s' ev"
  using grows_in_range [of s s'] by (auto simp: event_ok_def grows_def)

lemma grows_at_ok: "grows s s' \<Longrightarrow> at_ok s pc \<Longrightarrow> at_ok s' pc"
  using grows_in_range [of s s'] grows_event_ok [of s s'] by (cases pc) (auto simp: list_all_iff)

lemma at_ok_after_read: "in_range s f \<Longrightarrow> list_all (event_ok s) evs \<Longrightarrow> at_ok s (after_read f w evs)"
  by (simp add: after_read_def)

text \<open>What a step of the read loop does.\<close>

lemma reading_step:
  assumes os: "recv_ok os left" "watch_ok os watched" and s: "server_ok watched s" and f: "in_range s f"
  obtains (on) c c' q k where "client_at f s = Inr c"
      "server_step e os moved (Reading f w evs) s =
         Inr (Reading f w evs, set_client f c' (s\<lparr>inbound := q, kernel := k\<rparr>), received_in (inbound s) q)"
      "read_round e os f c (inbound s) (kernel s) = Inr (Next c' q k)"
      "progress left f c (inbound s) (kernel s) c' q k" "rounds left f c' k < rounds left f c (kernel s)"
      "client_change watched f s (set_client f c' (s\<lparr>inbound := q, kernel := k\<rparr>))"
    | (stop) c c' q k where "client_at f s = Inr c"
      "server_step e os moved (Reading f w evs) s =
         Inr (after_read f w evs, set_client f c' (s\<lparr>inbound := q, kernel := k\<rparr>), received_in (inbound s) q)"
      "read_round e os f c (inbound s) (kernel s) = Inr (Stop c' q k)"
      "progress left f c (inbound s) (kernel s) c' q k"
      "client_change watched f s (set_client f c' (s\<lparr>inbound := q, kernel := k\<rparr>))"
    | (dropped) c q k fs where "client_at f s = Inr c"
      "server_step e os moved (Reading f w evs) s =
         Inr (after_read f w evs, set_client f empty_client
           (s\<lparr>inbound := q, kernel := os_close os f (os_epoll_del os f k)\<rparr>), received_in (inbound s) q)"
      "read_round e os f c (inbound s) (kernel s) = Inr (Drop q k)" "queued q = queued (inbound s) @ messages f fs"
      "client_change watched f s (set_client f empty_client (s\<lparr>inbound := q, kernel := os_close os f (os_epoll_del os f k)\<rparr>))"
proof -
  obtain c where c: "client_at f s = Inr c" using f by (auto simp: in_range_client)
  note cok = client_ok [OF s c]
  have q: "queue_ok (inbound s)" using s by (simp add: server_ok_def)
  obtain out where out: "read_round e os f c (inbound s) (kernel s) = Inr out"
    "outcome_ok left f c (inbound s) (kernel s) out"
    "\<forall>c' q' k'. out = Next c' q' k' \<longrightarrow> rounds left f c' k' < rounds left f c (kernel s)"
    using read_round_ok [OF os(1) _ q, of c e f "kernel s"] cok by blast
  note w = read_round_watch [OF os(2) out(1)]
  have step: "client_change watched f s (set_client f c' (s\<lparr>inbound := q', kernel := k'\<rparr>))"
    if "progress left f c (inbound s) (kernel s) c' q' k'" "watched k' \<subseteq> watched (kernel s)" for c' q' k'
    using that cok unfolding client_change_def progress_def
    by (intro exI [of _ c'] exI [of _ q'] exI [of _ k']) (simp add: writer_ok_def)
  show ?thesis
  proof (cases out)
    case (Next c' q' k')
    have p: "progress left f c (inbound s) (kernel s) c' q' k'" using out(2) Next by (simp add: outcome_ok_def)
    show ?thesis
      by (rule on [where c = c and c' = c' and q = q' and k = k']) (use p c out w step [OF p] Next in simp_all)
  next
    case (Stop c' q' k')
    have p: "progress left f c (inbound s) (kernel s) c' q' k'" using out(2) Stop by (simp add: outcome_ok_def)
    show ?thesis
      by (rule stop [where c = c and c' = c' and q = q' and k = k']) (use p c out w step [OF p] Stop in simp_all)
  next
    case (Drop q' k')
    obtain fs where d: "queue_ok q'" "queued q' = queued (inbound s) @ messages f fs"
      using out(2) by (auto simp: Drop outcome_ok_def)
    have "watched (os_close os f (os_epoll_del os f k')) \<subseteq> watched (kernel s)"
      using watch_calls(7) [OF os(2), of f k'] w Drop by auto
    then have "client_change watched f s (set_client f empty_client (s\<lparr>inbound := q', kernel := os_close os f (os_epoll_del os f k')\<rparr>))"
      using d(1) unfolding client_change_def by (intro exI conjI) auto
    then show ?thesis
      by (intro dropped) (use c out d Drop disconnect_eq [of f "s\<lparr>inbound := q', kernel := k'\<rparr>" c os] in simp_all)
  qed
qed

definition step_ok :: "'k os \<Rightarrow> ('k \<Rightarrow> fd set) \<Rightarrow> 'k server \<Rightarrow> (server_pc \<times> 'k server \<times> action list) result \<Rightarrow> bool" where
  "step_ok os watched s r \<longleftrightarrow>
     (case r of Inl x \<Rightarrow> x \<in> accept_faults \<union> send_faults os | Inr (pc', s', acts) \<Rightarrow> thread_ok watched pc' s' \<and> grows s s')"

lemma step_okI:
  assumes "server_ok watched s'" and "grows s s'" and "at_ok s pc'"
  shows "step_ok os watched s (Inr (pc', s', acts))"
  using assms grows_at_ok [OF assms(2)] by (simp add: step_ok_def thread_ok_def)

lemma step_ok_handler:
  "ends_ok os watched s r \<Longrightarrow> at_ok s pc' \<Longrightarrow> step_ok os watched s (result_bind r (\<lambda>s. Inr (pc', s, [])))"
  by (cases r) (auto simp: ends_ok_def step_ok_def [of _ _ _ "Inl _"] intro!: step_okI)

text \<open>One lemma for each place of the loop where the step is not a single call.\<close>

lemma draining_step_ok:
  assumes s: "server_ok watched s"
  shows "step_ok os watched s (server_step e os moved Draining s)"
proof -
  have q: "queue_ok (outbound s)" using s by (simp add: server_ok_def)
  show ?thesis
  proof (cases rule: ring_queue.pop_cases [OF q, of moved])
    case 1
    then show ?thesis using s by (auto intro!: step_okI simp: server_ok_def)
  next
    case (2 m q')
    have s1: "server_ok watched (s\<lparr>outbound := q'\<rparr>)" "grows s (s\<lparr>outbound := q'\<rparr>)"
      using s 2(2) by (simp_all add: server_ok_def grows_def)
    show ?thesis
      using 2(1) queue_output_ok [OF s1(1), of m] grows_trans [OF s1(2)] by (simp add: step_okI)
  qed
qed

lemma flushing_step_ok:
  assumes os: "send_ok os wire" "watch_ok os watched" and s: "server_ok watched s" and fs: "list_all (in_range s) fs"
  shows "step_ok os watched s (server_step e os moved (Flushing fs) s)"
proof (cases fs)
  case Nil
  have "server_ok watched (s\<lparr>pending_writes := []\<rparr>)" using s by (simp add: server_ok_def)
  then show ?thesis using Nil by (auto intro!: step_okI simp: grows_def)
next
  case (Cons f fs')
  then obtain c where c: "client_at f s = Inr c" using fs by (auto simp: in_range_client)
  then show ?thesis
    using step_ok_handler [OF send_step_ok [OF try_send_sends [OF os(1) c] os(2) s c], of "Flushing fs'"] fs Cons by simp
qed

lemma waiting_step_ok:
  assumes os: "watch_ok os watched" and s: "server_ok watched s"
  shows "step_ok os watched s (server_step e os moved Waiting s)"
proof -
  obtain evs k where w: "os_epoll_wait os (kernel s) = (evs, k)" by fastforce
  note k = watch_calls(6) [OF os w]
  have "list_all (event_ok s) (take 64 evs)"
    using k s by (auto simp: server_ok_def list_all_iff event_ok_def dest!: in_set_takeD)
  moreover have "server_ok watched (s\<lparr>kernel := k\<rparr>)" using s k by (auto simp: server_ok_def)
  ultimately show ?thesis using w by (auto intro!: step_okI simp: grows_def)
qed

lemma handling_step_ok:
  assumes s: "server_ok watched s" and evs: "list_all (event_ok s) evs"
  shows "step_ok os watched s (server_step e os moved (Handling evs) s)"
proof (cases evs)
  case Nil
  then show ?thesis using s by (auto intro!: step_okI)
next
  case (Cons ev evs')
  obtain f r w where ev: "ev = (f, r, w)" by (cases ev)
  have evs': "list_all (event_ok s) evs'" "f \<noteq> server_fd s \<Longrightarrow> in_range s f"
    using evs Cons ev by (auto simp: event_ok_def)
  then show ?thesis
    using Cons ev s at_ok_after_read [OF _ evs'(1)] by (auto simp: in_range_client intro!: step_okI)
qed

lemma reading_step_ok:
  assumes os: "recv_ok os left" "watch_ok os watched" and s: "server_ok watched s"
    and f: "in_range s f" "list_all (event_ok s) evs"
  shows "step_ok os watched s (server_step e os moved (Reading f w evs) s)"
proof (cases rule: reading_step [OF os s f(1), of e moved w evs])
  case (1 c c' q k)
  show ?thesis unfolding 1(2) using client_change_ok [OF 1(6) s] f by (intro step_okI) simp_all
next
  case (2 c c' q k)
  show ?thesis unfolding 2(2) using client_change_ok [OF 2(5) s] at_ok_after_read [OF f] by (intro step_okI)
next
  case (3 c q k fs)
  show ?thesis unfolding 3(2) using client_change_ok [OF 3(5) s] at_ok_after_read [OF f] by (intro step_okI)
qed

lemma writing_step_ok:
  assumes os: "send_ok os wire" "watch_ok os watched" and s: "server_ok watched s"
    and f: "in_range s f" "list_all (event_ok s) evs"
  shows "step_ok os watched s (server_step e os moved (Writing f evs) s)"
proof -
  obtain c where c: "client_at f s = Inr c" using f(1) by (auto simp: in_range_client)
  then show ?thesis
    using step_ok_handler [OF send_step_ok [OF handle_write_sends [OF os(1) c] os(2) s c], of "Handling evs"] f by simp
qed

lemma server_step_ok:
  assumes os: "os_ok os left wire watched backlog" and t: "thread_ok watched pc s"
  shows "step_ok os watched s (server_step e os moved pc s)"
proof -
  have os': "recv_ok os left" "send_ok os wire" "watch_ok os watched" "accept_ok os backlog"
    using os by (simp_all add: os_ok_def)
  have s: "server_ok watched s" and pc: "at_ok s pc" using t by (simp_all add: thread_ok_def)
  have "step_ok os watched s (server_step e os moved (Accepting evs) s)" if "pc = Accepting evs" for evs
    using accept_one_ok [OF os'(4,3) s] pc that
    by (auto simp: step_ok_def [of _ _ _ "Inl _"] intro!: step_okI split: sum.splits option.split)
  then show ?thesis
    using pc draining_step_ok [OF s] flushing_step_ok [OF os'(2,3) s] waiting_step_ok [OF os'(3) s]
      handling_step_ok [OF s] reading_step_ok [OF os'(1,3) s] writing_step_ok [OF os'(2,3) s]
    by (cases pc) (simp_all del: server_step.simps)
qed

section \<open>The steps of a round end\<close>

text \<open>
  The steps of a round, with nothing between them, and its result: the round is over when no event is
  left, or an exception has left \<^verbatim>\<open>run\<close>.
\<close>

inductive round_result ::
  "endian \<Rightarrow> 'k os \<Rightarrow> (OutboundMessage \<Rightarrow> OutboundMessage) \<Rightarrow> server_pc \<Rightarrow> 'k server \<Rightarrow> 'k server result \<Rightarrow> bool"
  for e os moved where
  over: "round_result e os moved (Handling []) s (Inr s)"
| failed: "server_step e os moved pc s = Inl x \<Longrightarrow> round_result e os moved pc s (Inl x)"
| step: "pc \<noteq> Handling [] \<Longrightarrow> server_step e os moved pc s = Inr (pc', s', acts) \<Longrightarrow>
    round_result e os moved pc' s' r \<Longrightarrow> round_result e os moved pc s r"

abbreviation round_ends ::
  "endian \<Rightarrow> 'k os \<Rightarrow> (OutboundMessage \<Rightarrow> OutboundMessage) \<Rightarrow> server_pc \<Rightarrow> 'k server \<Rightarrow> bool" where
  "round_ends e os moved pc s \<equiv> \<exists>r. round_result e os moved pc s r"

inductive_cases round_resultE: "round_result e os moved pc s r"

text \<open>To end, it is enough to end after the next step.\<close>

lemma round_ends_next:
  assumes os: "os_ok os left wire watched backlog" and t: "thread_ok watched pc s"
    and "\<And>pc' s' acts. server_step e os moved pc s = Inr (pc', s', acts) \<Longrightarrow> thread_ok watched pc' s' \<Longrightarrow>
      grows s s' \<Longrightarrow> round_ends e os moved pc' s'"
  shows "round_ends e os moved pc s"
proof (cases "server_step e os moved pc s")
  case (Inl x)
  then show ?thesis by (blast intro: round_result.failed)
next
  case (Inr r)
  then obtain pc' s' acts where r: "server_step e os moved pc s = Inr (pc', s', acts)" by (cases r) simp
  show ?thesis
  proof (cases "pc = Handling []")
    case True
    then show ?thesis by (blast intro: round_result.over)
  next
    case False
    have "thread_ok watched pc' s'" "grows s s'" using server_step_ok [OF os t, of e moved] r by (simp_all add: step_ok_def)
    then show ?thesis using assms(3) [OF r] False r by (blast intro: round_result.step)
  qed
qed

lemma accepting_ends:
  assumes os: "os_ok os left wire watched backlog"
    and rest: "\<And>s. thread_ok watched (Handling evs) s \<Longrightarrow> round_ends e os moved (Handling evs) s"
  shows "thread_ok watched (Accepting evs) s \<Longrightarrow> round_ends e os moved (Accepting evs) s"
proof (induction "backlog (kernel s)" arbitrary: s rule: less_induct)
  case less
  show ?case
  proof (rule round_ends_next [OF os less.prems])
    fix pc' s' acts
    assume st: "server_step e os moved (Accepting evs) s = Inr (pc', s', acts)" and t: "thread_ok watched pc' s'"
    then obtain a where a: "accept_one os s = Inr (a, s')" "pc' = (if a = None then Handling evs else Accepting evs)"
      by (auto simp: result_bind_Inr split: option.splits prod.splits)
    have "server_ok watched s" using less.prems by (simp add: thread_ok_def)
    with accept_one_ok [of os backlog watched s] os have "a \<noteq> None \<longrightarrow> backlog (kernel s') < backlog (kernel s)"
      by (simp add: os_ok_def a(1))
    then show "round_ends e os moved pc' s'" using a(2) less.hyps [of s'] rest [of s'] t by (cases a) simp_all
  qed
qed

lemma after_read_ends:
  assumes os: "os_ok os left wire watched backlog" and t: "thread_ok watched (after_read f w evs) s"
    and rest: "\<And>s. thread_ok watched (Handling evs) s \<Longrightarrow> round_ends e os moved (Handling evs) s"
  shows "round_ends e os moved (after_read f w evs) s"
proof (cases w)
  case True
  show ?thesis
    by (rule round_ends_next [OF os t]) (use True rest in \<open>auto simp: after_read_def result_bind_Inr\<close>)
qed (use rest t in \<open>simp add: after_read_def\<close>)

lemma reading_ends:
  assumes os: "os_ok os left wire watched backlog"
    and rest: "\<And>s. thread_ok watched (Handling evs) s \<Longrightarrow> round_ends e os moved (Handling evs) s"
  shows "thread_ok watched (Reading f w evs) s \<Longrightarrow> round_ends e os moved (Reading f w evs) s"
proof (induction "rounds left f (clients s ! nat f) (kernel s)" arbitrary: s rule: less_induct)
  case less
  have os': "recv_ok os left" "watch_ok os watched" using os by (simp_all add: os_ok_def)
  have s: "server_ok watched s" and f: "in_range s f" using less.prems by (simp_all add: thread_ok_def)
  show ?case
  proof (rule round_ends_next [OF os less.prems])
    fix pc' s' acts
    assume st: "server_step e os moved (Reading f w evs) s = Inr (pc', s', acts)" and t: "thread_ok watched pc' s'"
    show "round_ends e os moved pc' s'"
    proof (cases rule: reading_step [OF os' s f, of e moved w evs])
      case (1 c c' q k)
      have s': "pc' = Reading f w evs" "s' = set_client f c' (s\<lparr>inbound := q, kernel := k\<rparr>)" using st 1(2) by simp_all
      have "clients s ! nat f = c" "clients s' ! nat f = c'" "kernel s' = k"
        using 1(1) by (simp_all add: s' set_client_def client_at_Inr)
      then show ?thesis using less.hyps [of s'] 1(5) t s'(1) by simp
    next
      case (2 c c' q k)
      then show ?thesis using after_read_ends [OF os _ rest] t st by auto
    next
      case (3 c q k fs)
      then show ?thesis using after_read_ends [OF os _ rest] t st by auto
    qed
  qed
qed

lemma handling_ends:
  assumes os: "os_ok os left wire watched backlog"
  shows "thread_ok watched (Handling evs) s \<Longrightarrow> round_ends e os moved (Handling evs) s"
proof (induction evs arbitrary: s)
  case (Cons ev evs)
  obtain f r w where ev: "ev = (f, r, w)" by (cases ev)
  show ?case
  proof (rule round_ends_next [OF os Cons.prems])
    fix pc' s' acts
    assume st: "server_step e os moved (Handling (ev # evs)) s = Inr (pc', s', acts)" and t: "thread_ok watched pc' s'"
    have "pc' \<in> {Accepting evs, Reading f w evs, after_read f w evs}"
      using st by (auto simp: ev result_bind_Inr split: if_splits)
    then show "round_ends e os moved pc' s'"
      using t accepting_ends [OF os Cons.IH] reading_ends [OF os Cons.IH] after_read_ends [OF os _ Cons.IH] by blast
  qed
qed (blast intro: round_result.over)

lemma waiting_ends:
  assumes os: "os_ok os left wire watched backlog" and t: "thread_ok watched Waiting s"
  shows "round_ends e os moved Waiting s"
  by (rule round_ends_next [OF os t]) (use handling_ends [OF os] in \<open>auto split: prod.splits\<close>)

lemma flushing_ends:
  assumes os: "os_ok os left wire watched backlog"
  shows "thread_ok watched (Flushing fs) s \<Longrightarrow> round_ends e os moved (Flushing fs) s"
proof (induction fs arbitrary: s)
  case Nil
  show ?case by (rule round_ends_next [OF os Nil]) (use waiting_ends [OF os] in auto)
next
  case (Cons f fs)
  show ?case by (rule round_ends_next [OF os Cons.prems]) (use Cons.IH in \<open>auto simp: result_bind_Inr\<close>)
qed

lemma draining_ends:
  assumes os: "os_ok os left wire watched backlog"
  shows "thread_ok watched Draining s \<Longrightarrow> round_ends e os moved Draining s"
proof (induction "length (queued (outbound s))" arbitrary: s rule: less_induct)
  case less
  have q: "queue_ok (outbound s)" using less.prems by (simp add: thread_ok_def server_ok_def)
  show ?case
  proof (rule round_ends_next [OF os less.prems])
    fix pc' s' acts
    assume st: "server_step e os moved Draining s = Inr (pc', s', acts)" and t: "thread_ok watched pc' s'"
    show "round_ends e os moved pc' s'"
    proof (cases rule: ring_queue.pop_cases [OF q, of moved])
      case 1
      then show ?thesis using st t flushing_ends [OF os] by auto
    next
      case (2 m q')
      then show ?thesis using st t less.hyps [of s'] by auto
    qed
  qed
qed

text \<open>Wherever the thread is, the rest of the round ends.\<close>

lemma round_ends_always:
  assumes os: "os_ok os left wire watched backlog" and t: "thread_ok watched pc s"
  shows "round_ends e os moved pc s"
proof -
  note rest = handling_ends [OF os]
  note ends = draining_ends [OF os] flushing_ends [OF os] waiting_ends [OF os] rest accepting_ends [OF os rest]
    reading_ends [OF os rest]
  show ?thesis
  proof (cases pc)
    case (Writing f evs)
    then show ?thesis using after_read_ends [OF os _ rest, of f True evs s] t by (simp add: after_read_def)
  qed (use ends t in simp_all)
qed

section \<open>The steps compute the round\<close>

lemma round_result_unique:
  "round_result e os moved pc s r \<Longrightarrow> round_result e os moved pc s r' \<Longrightarrow> r = r'"
proof (induction rule: round_result.induct)
  case (over s)
  then show ?case by (rule round_resultE) simp_all
next
  case (failed pc s x)
  from failed(2) show ?case by (rule round_resultE) (use failed(1) in auto)
next
  case (step pc s pc' s' acts r)
  from step.prems show ?case by (rule round_resultE) (use step.hyps(1,2) step.IH in auto)
qed

text \<open>A part of a round that ends with \<open>r1\<close>, continued at \<open>pc\<close>.\<close>

definition continues ::
  "endian \<Rightarrow> 'k os \<Rightarrow> (OutboundMessage \<Rightarrow> OutboundMessage) \<Rightarrow> 'k server result \<Rightarrow> server_pc \<Rightarrow> 'k server result \<Rightarrow> bool" where
  "continues e os moved r1 pc r \<longleftrightarrow>
     (case r1 of Inl x \<Rightarrow> r = Inl x | Inr s \<Rightarrow> round_result e os moved pc s r)"

lemma continues_simps [simp]:
  "continues e os moved (Inl x) pc r \<longleftrightarrow> r = Inl x"
  "continues e os moved (Inr s) pc r \<longleftrightarrow> round_result e os moved pc s r"
  by (simp_all add: continues_def)

text \<open>A step that runs a handler to its end.\<close>

lemma round_result_handler:
  assumes "pc \<noteq> Handling []" and "server_step e os moved pc s = result_bind r1 (\<lambda>s. Inr (pc', s, []))"
    and "continues e os moved r1 pc' r"
  shows "round_result e os moved pc s r"
  using assms by (cases r1) (auto intro: round_result.step round_result.failed)

lemma accepting_result:
  "accept_client os n s = Some r1 \<Longrightarrow> continues e os moved r1 (Handling evs) r \<Longrightarrow>
     round_result e os moved (Accepting evs) s r"
proof (induction n arbitrary: s)
  case (Suc n)
  show ?case
  proof (cases "accept_one os s")
    case (Inl x)
    then have "server_step e os moved (Accepting evs) s = Inl x" by simp
    from round_result.failed [OF this] show ?thesis using Suc.prems Inl by auto
  next
    case (Inr p)
    then obtain a s1 where a: "accept_one os s = Inr (a, s1)" by (cases p) simp
    then show ?thesis
      using Suc.prems Suc.IH [of s1] by (cases a) (auto intro!: round_result.step [of "Accepting evs" e os moved s])
  qed
qed simp

text \<open>How the read loop's outcome becomes the handler's.\<close>

definition read_ends :: "'k os \<Rightarrow> fd \<Rightarrow> 'k server \<Rightarrow> 'k read_outcome result \<Rightarrow> 'k server result" where
  "read_ends os f s out = result_bind out (\<lambda>out. case out of
       Next c q k \<Rightarrow> Inr (set_client f c (s\<lparr>inbound := q, kernel := k\<rparr>))
     | Stop c q k \<Rightarrow> Inr (set_client f c (s\<lparr>inbound := q, kernel := k\<rparr>))
     | Drop q k \<Rightarrow> disconnect_client os f (s\<lparr>inbound := q, kernel := k\<rparr>))"

lemma read_ends_again:
  "read_ends os f (set_client f c (s\<lparr>inbound := q, kernel := k\<rparr>)) out = read_ends os f s out"
proof -
  have eq: "set_client f c' ((set_client f c (s\<lparr>inbound := q, kernel := k\<rparr>))\<lparr>inbound := q', kernel := k'\<rparr>) =
      set_client f c' (s\<lparr>inbound := q', kernel := k'\<rparr>)" for c' q' k'
    by (simp add: set_client_def)
  have "disconnect_client os f ((set_client f c (s\<lparr>inbound := q, kernel := k\<rparr>))\<lparr>inbound := q', kernel := k'\<rparr>) =
      disconnect_client os f (s\<lparr>inbound := q', kernel := k'\<rparr>)" for q' k'
    by (simp add: disconnect_client_def client_at_def set_client_def Let_def)
  with eq show ?thesis by (cases out) (simp_all add: read_ends_def split: read_outcome.split)
qed

lemma reading_result:
  "read_loop e os f n c (inbound s) (kernel s) = Some out \<Longrightarrow> client_at f s = Inr c \<Longrightarrow>
     continues e os moved (read_ends os f s out) (after_read f w evs) r \<Longrightarrow>
     round_result e os moved (Reading f w evs) s r"
proof (induction n arbitrary: s c)
  case (Suc n)
  show ?case
  proof (cases "read_round e os f c (inbound s) (kernel s)")
    case (Inl x)
    then have "server_step e os moved (Reading f w evs) s = Inl x" using Suc.prems(2) by simp
    from round_result.failed [OF this] show ?thesis using Suc.prems Inl by (auto simp: read_ends_def)
  next
    case (Inr o1)
    show ?thesis
    proof (cases o1)
      case (Next c1 q1 k1)
      let ?s = "set_client f c1 (s\<lparr>inbound := q1, kernel := k1\<rparr>)"
      have "round_result e os moved (Reading f w evs) ?s r"
        using Suc.prems Inr Next set_client_at [of f "s\<lparr>inbound := q1, kernel := k1\<rparr>" c c1]
        by (intro Suc.IH [of c1]) (simp_all add: read_ends_again, simp_all add: set_client_def)
      then show ?thesis using Suc.prems(2) Inr Next by (auto intro!: round_result.step [of "Reading f w evs" e os moved s])
    next
      case (Stop c1 q1 k1)
      then show ?thesis
        using Suc.prems Inr by (auto simp: read_ends_def intro!: round_result.step [of "Reading f w evs" e os moved s])
    next
      case (Drop q1 k1)
      have d: "disconnect_client os f (s\<lparr>inbound := q1, kernel := k1\<rparr>) = Inr (set_client f empty_client
          (s\<lparr>inbound := q1, kernel := os_close os f (os_epoll_del os f k1)\<rparr>))"
        using Suc.prems(2) by (simp add: disconnect_eq [of f _ c])
      then show ?thesis
        using Suc.prems Inr Drop by (auto simp: read_ends_def intro!: round_result.step [of "Reading f w evs" e os moved s])
    qed
  qed
qed simp

lemma after_read_result:
  assumes "continues e os moved (if w then handle_write os f s else Inr s) (Handling evs) r"
  shows "round_result e os moved (after_read f w evs) s r"
  using assms by (cases w) (auto simp: after_read_def intro!: round_result_handler [of "Writing f evs"])

lemma opt_bind_Some:
  "opt_bind x g = Some r \<longleftrightarrow> (\<exists>y. x = Some y \<and> (case y of Inl f \<Rightarrow> r = Inl f | Inr z \<Rightarrow> g z = Some r))"
  by (cases x) (auto simp: opt_bind_def split: sum.split)

text \<open>The event of a client: reading, then writing, then the events that remain.\<close>

lemma client_event_result:
  assumes f: "f \<noteq> server_fd s"
    and rd: "(if readable then handle_read e os n f s else Some (Inr s)) = Some r1"
    and go: "case r1 of Inl x \<Rightarrow> r = Inl x | Inr s1 \<Rightarrow> round_result e os moved (after_read f w evs) s1 r"
  shows "round_result e os moved (Handling ((f, readable, w) # evs)) s r"
proof (cases "readable \<and> (\<exists>c. client_at f s = Inr c)")
  case False
  then show ?thesis
  proof (cases readable)
    case True
    then obtain x where x: "client_at f s = Inl x" using False by (cases "client_at f s") auto
    then have "server_step e os moved (Handling ((f, readable, w) # evs)) s = Inl x" using f True by simp
    from round_result.failed [OF this] show ?thesis using rd go x True by (auto simp: handle_read_def)
  next
    case not: False
    then have "server_step e os moved (Handling ((f, readable, w) # evs)) s = Inr (after_read f w evs, s, [])"
      using f by simp
    from round_result.step [OF _ this] show ?thesis using not rd go by auto
  qed
next
  case True
  then obtain c where c: "client_at f s = Inr c" by blast
  show ?thesis
  proof (cases "active c")
    case False
    then have "server_step e os moved (Handling ((f, readable, w) # evs)) s = Inr (after_read f w evs, s, [])"
      using f True c by simp
    from round_result.step [OF _ this] show ?thesis using True rd go c False by (auto simp: handle_read_def)
  next
    case act: True
    then obtain out where out: "read_loop e os f n c (inbound s) (kernel s) = Some out" "r1 = read_ends os f s out"
      using rd True c by (auto simp: handle_read_def read_ends_def split: option.splits sum.splits read_outcome.splits)
    have "continues e os moved (read_ends os f s out) (after_read f w evs) r"
      using go out(2) by (simp add: continues_def)
    note this = reading_result [OF out(1) c this]
    moreover have "server_step e os moved (Handling ((f, readable, w) # evs)) s = Inr (Reading f w evs, s, [])"
      using f True c act by simp
    ultimately show ?thesis by (blast intro: round_result.step)
  qed
qed

lemma handling_result:
  "handle_events e os n evs s = Some r \<Longrightarrow> round_result e os moved (Handling evs) s r"
proof (induction evs arbitrary: s)
  case Nil
  then show ?case by (auto intro: round_result.over)
next
  case (Cons ev evs)
  obtain f readable w where ev: "ev = (f, readable, w)" by (cases ev)
  have rest: "continues e os moved r1 (Handling evs) r"
    if "case r1 of Inl x \<Rightarrow> r = Inl x | Inr s1 \<Rightarrow> handle_events e os n evs s1 = Some r" for r1
    using that Cons.IH by (cases r1) auto
  obtain r2 where r2: "handle_event e os n ev s = Some r2"
    "case r2 of Inl x \<Rightarrow> r = Inl x | Inr s1 \<Rightarrow> handle_events e os n evs s1 = Some r"
    using Cons.prems by (auto simp: opt_bind_Some)
  show ?case
  proof (cases "f = server_fd s")
    case True
    then have "round_result e os moved (Accepting evs) s r"
      using accepting_result [of os n s r2] r2 rest by (simp add: handle_event_def ev)
    moreover have "server_step e os moved (Handling (ev # evs)) s = Inr (Accepting evs, s, [])" using True by (simp add: ev)
    ultimately show ?thesis by (blast intro: round_result.step)
  next
    case False
    then obtain r1 where r1: "(if readable then handle_read e os n f s else Some (Inr s)) = Some r1"
      "case r1 of Inl x \<Rightarrow> r2 = Inl x | Inr s1 \<Rightarrow> (if w then Some (handle_write os f s1) else Some (Inr s1)) = Some r2"
      using r2(1) unfolding handle_event_def ev by (auto simp only: opt_bind_Some prod.case if_False)
    have "case r1 of Inl x \<Rightarrow> r = Inl x | Inr s1 \<Rightarrow> round_result e os moved (after_read f w evs) s1 r"
    proof (cases r1)
      case (Inr s1)
      then have "r2 = (if w then handle_write os f s1 else Inr s1)" using r1(2) by (cases w) simp_all
      then show ?thesis using Inr rest [OF r2(2)] after_read_result by simp
    qed (use r1(2) r2(2) in simp)
    from client_event_result [OF False r1(1) this] show ?thesis by (simp add: ev)
  qed
qed

lemma flushing_result:
  "opt_bind (Some (send_each os fs s)) (\<lambda>s. opt_bind (Some (Inr (s\<lparr>pending_writes := []\<rparr>))) (\<lambda>s.
     case os_epoll_wait os (kernel s) of (evs, k) \<Rightarrow> handle_events e os n (take 64 evs) (s\<lparr>kernel := k\<rparr>))) = Some r \<Longrightarrow>
   round_result e os moved (Flushing fs) s r"
proof (induction fs arbitrary: s)
  case Nil
  obtain evs k where w: "os_epoll_wait os (kernel s) = (evs, k)" by fastforce
  then have "round_result e os moved (Handling (take 64 evs)) (s\<lparr>pending_writes := [], kernel := k\<rparr>) r"
    using Nil by (intro handling_result) simp
  then have "round_result e os moved Waiting (s\<lparr>pending_writes := []\<rparr>) r"
    using w by (auto intro!: round_result.step [of Waiting e os moved])
  then show ?case by (auto intro!: round_result.step [of "Flushing []" e os moved])
next
  case (Cons f fs)
  have "continues e os moved (try_send os f s) (Flushing fs) r"
    using Cons by (cases "try_send os f s") auto
  then show ?case by (intro round_result_handler [of "Flushing (f # fs)"]) simp_all
qed

lemma draining_result:
  "opt_bind (map_option Inr (drain_outbound_queue moved m s)) (after_drain e os n) = Some r \<Longrightarrow>
   round_result e os moved Draining s r"
proof (induction m arbitrary: s)
  case (Suc m)
  obtain a q where p: "try_pop moved DEFAULT_RING_CAPACITY (outbound s) = (a, q)" by fastforce
  show ?case
  proof (cases a)
    case None
    have "after_drain e os n (s\<lparr>outbound := q\<rparr>) = Some r" using Suc.prems p None by simp
    then have "round_result e os moved (Flushing (pending_writes s)) (s\<lparr>outbound := q\<rparr>) r"
      by (intro flushing_result [of os _ _ e n])
        (cases "send_each os (pending_writes s) (s\<lparr>outbound := q\<rparr>)", auto simp: after_drain_def flush_pending_writes_def)
    then show ?thesis using p None by (auto intro!: round_result.step [of Draining e os moved s])
  next
    case (Some message)
    then show ?thesis using Suc p by (auto intro!: round_result.step [of Draining e os moved s])
  qed
qed simp

section \<open>Running the server alone\<close>

fun server_run ::
  "endian \<Rightarrow> 'k os \<Rightarrow> (OutboundMessage \<Rightarrow> OutboundMessage) \<Rightarrow> nat \<Rightarrow> server_pc \<Rightarrow> 'k server \<Rightarrow>
     (server_pc \<times> 'k server \<times> action list) result" where
  "server_run e os moved 0 pc s = Inr (pc, s, [])"
| "server_run e os moved (Suc n) pc s =
     result_bind (server_step e os moved pc s) (\<lambda>(pc, s, acts).
     result_bind (server_run e os moved n pc s) (\<lambda>(pc, s, log). Inr (pc, s, acts @ log)))"

lemma round_result_run:
  "round_result e os moved pc s r \<Longrightarrow>
     (case r of Inl x \<Rightarrow> \<exists>n. server_run e os moved n pc s = Inl x
      | Inr s' \<Rightarrow> \<exists>n log. server_run e os moved n pc s = Inr (Handling [], s', log))"
proof (induction rule: round_result.induct)
  case (over s)
  have "server_run e os moved 0 (Handling []) s = Inr (Handling [], s, [])" by simp
  then show ?case unfolding sum.case by blast
next
  case (failed pc s x)
  then have "server_run e os moved (Suc 0) pc s = Inl x" by simp
  then show ?case unfolding sum.case by blast
next
  case (step pc s pc' s' acts r)
  show ?case
  proof (cases r)
    case (Inl x)
    then obtain n where "server_run e os moved n pc' s' = Inl x" using step.IH by auto
    then have "server_run e os moved (Suc n) pc s = Inl x" using step.hyps(2) by simp
    then show ?thesis using Inl by (simp del: server_run.simps) blast
  next
    case (Inr s1)
    then obtain n log where "server_run e os moved n pc' s' = Inr (Handling [], s1, log)" using step.IH by auto
    then have "server_run e os moved (Suc n) pc s = Inr (Handling [], s1, acts @ log)" using step.hyps(2) by simp
    then show ?thesis using Inr by (simp del: server_run.simps) blast
  qed
qed

lemma server_run_ok:
  assumes os: "os_ok os left wire watched backlog"
  shows "thread_ok watched pc s \<Longrightarrow> step_ok os watched s (server_run e os moved n pc s)"
proof (induction n arbitrary: pc s)
  case 0
  then show ?case by (simp add: step_ok_def)
next
  case (Suc n)
  note step = server_step_ok [OF os Suc.prems, of e moved]
  show ?case
  proof (cases "server_step e os moved pc s")
    case (Inr r)
    obtain pc1 s1 acts where r: "server_step e os moved pc s = Inr (pc1, s1, acts)" using Inr by (cases r) simp
    then have "thread_ok watched pc1 s1" "grows s s1" using step by (simp_all add: step_ok_def)
    with Suc.IH [of pc1 s1] r show ?thesis
      by (cases "server_run e os moved n pc1 s1") (auto simp: step_ok_def intro: grows_trans)
  qed (use step in \<open>simp add: step_ok_def\<close>)
qed

lemma round_result_ok:
  assumes os: "os_ok os left wire watched backlog" and t: "thread_ok watched pc s" and r: "round_result e os moved pc s r"
  shows "ends_ok os watched s r"
proof -
  note ok = server_run_ok [OF os t, of e moved]
  show ?thesis
  proof (cases r)
    case (Inl x)
    then obtain n where "server_run e os moved n pc s = Inl x" using round_result_run [OF r] by auto
    then show ?thesis using ok [of n] Inl by (simp add: step_ok_def ends_ok_def)
  next
    case (Inr s')
    then obtain n log where "server_run e os moved n pc s = Inr (Handling [], s', log)" using round_result_run [OF r] by auto
    then show ?thesis using ok [of n] Inr by (simp add: step_ok_def ends_ok_def thread_ok_def)
  qed
qed

lemma server_run_append:
  "server_run e os moved n pc s = Inr (pc1, s1, log1) \<Longrightarrow> server_run e os moved m pc1 s1 = r \<Longrightarrow>
     server_run e os moved (n + m) pc s = result_bind r (\<lambda>(pc2, s2, log2). Inr (pc2, s2, log1 @ log2))"
proof (induction n arbitrary: pc s log1)
  case 0
  then show ?case by (cases r) auto
next
  case (Suc n)
  obtain pc' s' acts where st: "server_step e os moved pc s = Inr (pc', s', acts)"
    using Suc.prems(1) by (auto simp: result_bind_Inr)
  then obtain log' where run: "server_run e os moved n pc' s' = Inr (pc1, s1, log')" "log1 = acts @ log'"
    using Suc.prems(1) by (auto simp: result_bind_Inr)
  show ?case using Suc.IH [OF run(1) Suc.prems(2)] st run(2) by (cases r) auto
qed

text \<open>The last step of a run.\<close>

lemma server_run_Suc:
  "server_run e os moved (Suc n) pc s = Inr (pc', s', log) \<Longrightarrow>
     \<exists>pc1 s1 log1 acts. server_run e os moved n pc s = Inr (pc1, s1, log1)
       \<and> server_step e os moved pc1 s1 = Inr (pc', s', acts) \<and> log = log1 @ acts"
proof (induction n arbitrary: pc s log)
  case 0
  then show ?case by (auto simp: result_bind_Inr)
next
  case (Suc n)
  obtain pc1 s1 acts where st: "server_step e os moved pc s = Inr (pc1, s1, acts)"
    using Suc.prems by (cases "server_step e os moved pc s") auto
  then obtain log1 where run: "server_run e os moved (Suc n) pc1 s1 = Inr (pc', s', log1)" "log = acts @ log1"
    using Suc.prems by (cases "server_run e os moved (Suc n) pc1 s1") (auto simp del: server_run.simps(2) simp: server_run.simps(2) [of _ _ _ "Suc n"])
  from Suc.IH [OF run(1)] show ?case using st run(2) by auto
qed

text \<open>
  From wherever the thread is, running on reaches the draining of the next round, or a fault that can
  leave a round.
\<close>

lemma server_reaches_draining:
  assumes os: "os_ok os left wire watched backlog" and t: "thread_ok watched pc s"
  obtains n x where "server_run e os moved n pc s = Inl x" "x \<in> accept_faults \<union> send_faults os"
    | n s' log where "server_run e os moved n pc s = Inr (Draining, s', log)" "thread_ok watched Draining s'"
proof -
  obtain r where r: "round_result e os moved pc s r" using round_ends_always [OF os t] by blast
  note run = round_result_run [OF r]
  show ?thesis
  proof (cases r)
    case (Inl x)
    then obtain n where "server_run e os moved n pc s = Inl x" using run by auto
    then show ?thesis using that(1) server_run_ok [OF os t, of e moved n] by (simp add: step_ok_def)
  next
    case (Inr s')
    then obtain n log where n: "server_run e os moved n pc s = Inr (Handling [], s', log)" using run by auto
    have d: "server_run e os moved (n + 1) pc s = Inr (Draining, s', log)"
      using server_run_append [OF n, of 1] by simp
    show ?thesis
      by (rule that(2) [OF d]) (use server_run_ok [OF os t, of e moved "n + 1"] d in \<open>simp only: step_ok_def sum.case prod.case\<close>)
  qed
qed

section \<open>A kernel with connections\<close>

text \<open>
  A second kernel for the witnesses: the first one, with the descriptors that wait to be accepted and
  those registered with epoll. A client is reported readable as long as bytes are left, the listening
  socket, 3, as long as a connection waits.
\<close>

type_synonym live_kernel = "sample_kernel \<times> nat list \<times> fd list"

definition live_os :: "live_kernel os" where
  "live_os = \<lparr>os_socket = \<lambda>k. (3, k), os_reuseaddr = \<lambda>f k. k, os_bind = \<lambda>f p k. (True, k),
     os_listen = \<lambda>f k. (True, k), os_nonblock = \<lambda>f k. (True, k), os_nodelay = \<lambda>f k. k,
     os_epoll_create = \<lambda>k. (4, k), os_epoll_add = \<lambda>f (k, ws, fs). (True, (k, ws, f # fs)), os_epoll_mod = \<lambda>f b k. k,
     os_epoll_del = \<lambda>f (k, ws, fs). (k, ws, removeAll f fs),
     os_epoll_wait = \<lambda>(k, ws, fs). (map (\<lambda>f. (f, True, False))
       (filter (\<lambda>f. if f = 3 then ws \<noteq> [] else sample_left k f \<noteq> []) fs), (k, ws, fs)),
     os_connect = \<lambda>f h p k. (True, k),
     os_accept = \<lambda>f (k, ws, fs). (case ws of [] \<Rightarrow> (Accept_again, (k, ws, fs)) | w # ws \<Rightarrow> (Accepted (int w), (k, ws, fs))),
     os_recv = \<lambda>f n (k, r). (case sample_recv f n k of (a, k) \<Rightarrow> (a, (k, r))),
     os_send = \<lambda>f bs (k, r). (case sample_send f bs k of (a, k) \<Rightarrow> (a, (k, r))), os_close = \<lambda>f k. k\<rparr>"

definition live_left :: "live_kernel \<Rightarrow> fd \<Rightarrow> byte list" where
  "live_left k = sample_left (fst k)"

definition live_wire :: "live_kernel \<Rightarrow> fd \<Rightarrow> byte list" where
  "live_wire k = sent_bytes (fst k)"

definition live_watched :: "live_kernel \<Rightarrow> fd set" where
  "live_watched k = set (snd (snd k))"

definition live_backlog :: "live_kernel \<Rightarrow> nat" where
  "live_backlog k = length (fst (snd k))"

lemmas live_defs = live_os_def live_left_def live_wire_def live_watched_def live_backlog_def

lemma live_os_ok: "os_ok live_os live_left live_wire live_watched live_backlog"
proof -
  have "recv_ok live_os live_left"
    using sample_recv_ok by (auto simp: recv_ok_def live_defs sample_os_def split: prod.splits recv_result.splits)
  moreover have "send_ok live_os live_wire"
    by (auto simp: send_ok_def live_defs sample_send_def split: prod.splits)
  moreover have "watch_ok live_os live_watched"
    by (auto simp: watch_ok_def live_defs split: prod.splits list.splits)
  moreover have "accept_ok live_os live_backlog"
    by (auto simp: accept_ok_def live_defs split: list.splits)
  ultimately show ?thesis by (simp add: os_ok_def)
qed

lemma live_streams_ok: "streams_ok live_os live_left live_wire"
  by (auto simp: streams_ok_def live_defs sample_recv_def sample_send_def sample_left_def split: prod.splits list.splits)

section \<open>Properties\<close>

text \<open>
  C13: The small steps are the program. From a state of the server that keeps the invariant, the steps
  of a round, with nothing between them, end with exactly the results of the round as \<^verbatim>\<open>run\<close> is
  written, its handlers called one after the other: the same new state, or the same exception.
\<close>

theorem steps_compute_the_round:
  assumes "os_ok os left wire watched backlog" and "server_ok watched s"
  shows "round_result e os moved Draining s r \<longleftrightarrow> (\<exists>fuel. server_turn e os moved fuel s = Some r)"
proof -
  have turn: "round_result e os moved Draining s r" if "server_turn e os moved n s = Some r" for n r
    using that draining_result [of moved n s e os n r] by (simp add: server_turn_bind)
  obtain n r' where "server_turn e os moved n s = Some r'" using server_turn_ok [OF assms] by blast
  then show ?thesis using turn round_result_unique by blast
qed

text \<open>A server with a client on descriptor 5 and an answer for it in the outbound ring.\<close>

definition live_server :: "live_kernel server" where
  "live_server = \<lparr>server_fd = 3, epoll_fd = 4, clients = clients sample_outbox, pending_writes = [], port = 8080,
     inbound = inbound sample_outbox, outbound = outbound sample_outbox, kernel = (kernel sample_outbox, [], [5, 3])\<rparr>"

lemma live_server_ok: "server_ok live_watched live_server"
proof -
  have "writer_ok (empty_client\<lparr>active := True\<rparr>)" by (simp add: writer_ok_def empty_client_def)
  then have "list_all (\<lambda>c. reader_ok c \<and> writer_ok c) (clients live_server)" "length (clients live_server) = 6"
    by (simp_all add: live_server_def sample_outbox_def sample_server_def list_all_iff)
  moreover have "queue_ok (outbound live_server)" "queue_ok (inbound live_server)"
    using sample_outbox_facts(1) by (simp_all add: live_server_def) (simp add: sample_outbox_def)
  ultimately show ?thesis
    by (simp add: server_ok_def live_watched_def in_range_def) (simp add: live_server_def)
qed

theorem steps_compute_the_round_witness:
  "\<exists>fuel r. server_turn LE live_os (\<lambda>m. m) fuel live_server = Some r
     \<and> round_result LE live_os (\<lambda>m. m) Draining live_server r"
  using steps_compute_the_round [OF live_os_ok live_server_ok] server_turn_ok [OF live_os_ok live_server_ok] by blast

end
