(* ===== verification/Processor_Props.thy ===== *)
theory Processor_Props
  imports Order_Processor
begin

text \<open>
  What the processing thread does with a message: the messages it sends and to whom, the state it
  leaves, and when it faults. \<open>trade_frames\<close> and the other specification functions describe the
  messages in terms of the frames of the wire format.
\<close>

section \<open>Reports\<close>

definition fd_of :: "(OrderId \<rightharpoonup> fd) \<Rightarrow> OrderId \<Rightarrow> fd" where
  "fd_of m k = (case m k of Some v \<Rightarrow> v | None \<Rightarrow> 0)"

definition touched :: "(OrderId \<rightharpoonup> fd) \<Rightarrow> OrderId set \<Rightarrow> (OrderId \<rightharpoonup> fd)" where
  "touched m ks k = (if k \<in> ks \<and> m k = None then Some 0 else m k)"

definition trade_frames :: "endian \<Rightarrow> trade list \<Rightarrow> byte list" where
  "trade_frames e trs = concat (map (\<lambda>tr. frame TRADE (trade_payload e tr)) trs)"

definition trade_reports :: "endian \<Rightarrow> order \<Rightarrow> (OrderId \<rightharpoonup> fd) \<Rightarrow> trade list \<Rightarrow> OutboundMessage list" where
  "trade_reports e ord m trs = map (\<lambda>tr. \<lparr>out_fd = fd_of m (counterparty ord tr),
     out_payload = frame TRADE (trade_payload e tr)\<rparr>) trs"

lemma map_index_eq: "map_index m k = (fd_of m k, touched m {k})"
  by (auto simp: map_index_def fd_of_def touched_def fun_eq_iff split: option.split)

lemma fd_of_touched [simp]: "fd_of (touched m ks) k = fd_of m k"
  by (simp add: fd_of_def touched_def)

lemma touched_touched [simp]: "touched (touched m ks) ks' = touched m (ks \<union> ks')"
  by (auto simp: touched_def fun_eq_iff)

lemma touched_empty [simp]: "touched m {} = m"
  by (simp add: touched_def fun_eq_iff)

lemma report_trades_eq:
  "report_trades e ord trs m buf =
     Inr (buf @ trade_frames e trs, touched m (counterparty ord ` set trs), trade_reports e ord m trs)"
proof (induction trs arbitrary: m buf)
  case (Cons tr trs)
  then show ?case
    by (simp add: serialize_trade_frame map_index_eq trade_frames_def trade_reports_def)
qed (simp add: trade_frames_def trade_reports_def)

section \<open>The three outcomes for an order\<close>

lemma reject_eq:
  "reject e m raw_id x buf p =
     Inr (p, [reply m (buf @ frame REJECT (rejection_payload e \<lparr>rej_id = raw_id, reason = what x\<rparr>))])"
  by (simp add: reject_def serialize_rejection_frame)

text \<open>The bytes of an order that the constructor refuses, or any other bytes long enough.\<close>

definition field_id :: "endian \<Rightarrow> byte list \<Rightarrow> OrderId" where
  "field_id e bs = object_value e (take 8 bs)"

definition field_order :: "endian \<Rightarrow> Timestamp \<Rightarrow> byte list \<Rightarrow> exn + order" where
  "field_order e now bs = make_order now (field_id e bs) (object_value e (take 8 (drop 8 bs)))
     (object_value e (take 4 (drop 16 bs))) (bs ! 20) (bs ! 21)"

lemma take_1_drop: "n < length xs \<Longrightarrow> take 1 (drop n xs) = [xs ! n]"
  by (metis One_nat_def take_Suc_conv_app_nth Cons_nth_drop_Suc take_Suc_Cons take0 take_0)

lemma deserialize_order_fields:
  "22 \<le> length (payload m) \<Longrightarrow> deserialize_order e now m =
     (case field_order e now (payload m) of Inl x \<Rightarrow> Inl (Throw x) | Inr ord \<Rightarrow> Inr ord)"
  using take_1_drop [of 20 "payload m"] take_1_drop [of 21 "payload m"]
  by (simp add: deserialize_order_def read_object_compute field_order_def field_id_def)

section \<open>Reachable processors\<close>

inductive proc_reach :: "endian \<Rightarrow> clock \<Rightarrow> processor \<Rightarrow> bool" for e clk where
  start: "proc_reach e clk new_processor"
| turn: "proc_reach e clk p \<Longrightarrow> process e clk m p = Inr (p', outs) \<Longrightarrow> proc_reach e clk p'"

lemma read_id: "8 \<le> length bs \<Longrightarrow> read_object e 0 bs = (Inr (field_id e bs) :: OrderId result)"
  by (simp add: read_object_compute field_id_def)

lemma field_order_Inr:
  "field_order e now bs = Inr ord \<Longrightarrow> order_valid ord \<and> o_id ord = field_id e bs \<and> o_timestamp ord = now"
  by (auto simp: field_order_def make_order_Inr_iff)

text \<open>What \<open>process_new\<close> does with any payload that is long enough.\<close>

lemma process_new_fields:
  assumes "book_wf (book p)" and "22 \<le> length (in_payload m)"
  shows "process_new e clk m p =
    (case field_order e (clk (reads p)) (in_payload m) of
       Inl x \<Rightarrow> Inr (p\<lparr>reads := Suc (reads p)\<rparr>, [reply m (frame REJECT
         (rejection_payload e \<lparr>rej_id = field_id e (in_payload m), reason = what x\<rparr>))])
     | Inr ord \<Rightarrow>
         (case match clk (Suc (reads p)) (book p) ord [] of (_, b, r) \<Rightarrow>
            Inr (p\<lparr>book := b,
                   order_to_client_fd := touched ((order_to_client_fd p)(o_id ord \<mapsto> in_fd m))
                     (counterparty ord ` set (trades r)),
                   reads := ticks r\<rparr>,
                 trade_reports e ord ((order_to_client_fd p)(o_id ord \<mapsto> in_fd m)) (trades r)
                 @ [reply m (trade_frames e (trades r) @ frame ORDER_ACK (id_payload e (o_id ord)))])))"
proof (cases "field_order e (clk (reads p)) (in_payload m)")
  case (Inl x)
  then show ?thesis
    using assms(2) by (simp add: process_new_def read_id deserialize_order_fields reject_eq)
next
  case (Inr ord)
  then have "order_valid ord" by (simp add: field_order_Inr)
  from match_no_exception [OF assms(1) this, of clk "Suc (reads p)" "[]"]
  obtain b r where "match clk (Suc (reads p)) (book p) ord [] = (None, b, r)" by blast
  then show ?thesis
    using assms(2) Inr
    by (simp add: process_new_def read_id deserialize_order_fields report_trades_eq serialize_acknowledgement_frame)
qed

lemma process_cancel_fields:
  assumes "8 \<le> length (in_payload m)"
  shows "process_cancel e m p =
    (let oid = field_id e (in_payload m); ack = frame CANCEL_ACK (id_payload e oid)
     in case cancel_order (book p) oid of
          Inl (Throw x) \<Rightarrow>
            Inr (p, [reply m (ack @ frame REJECT (rejection_payload e \<lparr>rej_id = oid, reason = what x\<rparr>))])
        | Inl f \<Rightarrow> Inl f
        | Inr b \<Rightarrow> Inr (p\<lparr>book := b, order_to_client_fd := (order_to_client_fd p)(oid := None)\<rparr>, [reply m ack]))"
  using assms
  by (simp add: process_cancel_def deserialize_cancel_def read_id serialize_cancel_ack_frame reject_eq Let_def
      split: sum.split fault.split)

lemma process_short:
  "in_type m = NEW_ORDER \<Longrightarrow> length (in_payload m) < 22 \<Longrightarrow> process e clk m p = Inl UB"
  "in_type m = CANCEL_ORDER \<Longrightarrow> length (in_payload m) < 8 \<Longrightarrow> process e clk m p = Inl UB"
proof -
  assume t: "in_type m = NEW_ORDER" and l: "length (in_payload m) < 22"
  have "read_object e 0 (in_payload m) = (Inl UB :: OrderId result) \<or>
      (\<exists>i. read_object e 0 (in_payload m) = (Inr i :: OrderId result))"
    by (auto simp: read_object_def mem_read_def)
  moreover have "deserialize_order e (clk (reads p)) \<lparr>msg_type = NEW_ORDER, payload = in_payload m\<rparr> = Inl UB"
    using l by (auto simp: deserialize_order_def read_object_def mem_read_def)
  ultimately show "process e clk m p = Inl UB" using t by (auto simp: process_def process_new_def)
next
  assume t: "in_type m = CANCEL_ORDER" and l: "length (in_payload m) < 8"
  have "read_object e 0 (in_payload m) = (Inl UB :: OrderId result)" using l by (simp add: read_object_short)
  then show "process e clk m p = Inl UB" using t by (simp add: process_def process_cancel_def message_types)
qed

lemma process_cases:
  assumes wf: "book_wf (book p)" and pr: "process e clk m p = Inr (p', outs)"
  obtains (rejected) x where "in_type m = NEW_ORDER" "22 \<le> length (in_payload m)"
      "field_order e (clk (reads p)) (in_payload m) = Inl x" "p' = p\<lparr>reads := Suc (reads p)\<rparr>"
      "outs = [reply m (frame REJECT
         (rejection_payload e \<lparr>rej_id = field_id e (in_payload m), reason = what x\<rparr>))]"
    | (accepted) ord b r where "in_type m = NEW_ORDER" "22 \<le> length (in_payload m)"
      "field_order e (clk (reads p)) (in_payload m) = Inr ord"
      "match clk (Suc (reads p)) (book p) ord [] = (None, b, r)"
      "p' = p\<lparr>book := b, order_to_client_fd := touched ((order_to_client_fd p)(o_id ord \<mapsto> in_fd m))
         (counterparty ord ` set (trades r)), reads := ticks r\<rparr>"
      "outs = trade_reports e ord ((order_to_client_fd p)(o_id ord \<mapsto> in_fd m)) (trades r)
         @ [reply m (trade_frames e (trades r) @ frame ORDER_ACK (id_payload e (o_id ord)))]"
    | (cancelled) b where "in_type m = CANCEL_ORDER" "8 \<le> length (in_payload m)"
      "cancel_order (book p) (field_id e (in_payload m)) = Inr b"
      "p' = p\<lparr>book := b, order_to_client_fd := (order_to_client_fd p)(field_id e (in_payload m) := None)\<rparr>"
      "outs = [reply m (frame CANCEL_ACK (id_payload e (field_id e (in_payload m))))]"
    | (refused) x where "in_type m = CANCEL_ORDER" "8 \<le> length (in_payload m)"
      "cancel_order (book p) (field_id e (in_payload m)) = Inl (Throw x)" "p' = p"
      "outs = [reply m (frame CANCEL_ACK (id_payload e (field_id e (in_payload m))) @ frame REJECT
         (rejection_payload e \<lparr>rej_id = field_id e (in_payload m), reason = what x\<rparr>))]"
proof -
  have types: "in_type m = NEW_ORDER \<or> in_type m = CANCEL_ORDER"
    using pr by (auto simp: process_def split: if_splits)
  have long: "in_type m = NEW_ORDER \<Longrightarrow> 22 \<le> length (in_payload m)"
    "in_type m = CANCEL_ORDER \<Longrightarrow> 8 \<le> length (in_payload m)"
    using pr process_short [of m e clk p] by fastforce+
  show ?thesis
  proof (cases "in_type m = NEW_ORDER")
    case True
    then have pn: "process_new e clk m p = Inr (p', outs)" using pr by (simp add: process_def)
    show ?thesis
    proof (cases "field_order e (clk (reads p)) (in_payload m)")
      case (Inl x)
      then show ?thesis using rejected [OF True long(1) [OF True]] pn process_new_fields [OF wf long(1) [OF True]] by simp
    next
      case (Inr ord)
      then have "order_valid ord" by (simp add: field_order_Inr)
      from match_no_exception [OF wf this, of clk "Suc (reads p)" "[]"]
      obtain b r where mt: "match clk (Suc (reads p)) (book p) ord [] = (None, b, r)" by blast
      show ?thesis
        using accepted [OF True long(1) [OF True] Inr mt] pn process_new_fields [OF wf long(1) [OF True]]
        by (simp add: Inr mt)
    qed
  next
    case False
    then have t: "in_type m = CANCEL_ORDER" using types by simp
    then have pc: "process_cancel e m p = Inr (p', outs)" using pr False by (simp add: process_def)
    show ?thesis
    proof (cases "cancel_order (book p) (field_id e (in_payload m))")
      case (Inl f)
      then show ?thesis
        using refused [OF t long(2) [OF t]] pc process_cancel_fields [OF long(2) [OF t], of e p]
        by (cases f) (simp_all add: Let_def)
    next
      case (Inr b)
      then show ?thesis
        using cancelled [OF t long(2) [OF t]] pc process_cancel_fields [OF long(2) [OF t], of e p]
        by (simp add: Let_def)
    qed
  qed
qed

lemma proc_reach_book: "proc_reach e clk p \<Longrightarrow> book_reach (book p)"
proof (induction rule: proc_reach.induct)
  case start
  show ?case using book_reach.start by (simp add: new_processor_def)
next
  case (turn p m p' outs)
  have wf: "book_wf (book p)" using book_reach_inv [OF turn.IH] by simp
  show ?case
    using wf turn.hyps(2)
  proof (cases rule: process_cases)
    case (accepted ord b r)
    then show ?thesis using book_reach.submit [OF turn.IH _ accepted(4)] field_order_Inr by simp
  next
    case (cancelled b)
    then show ?thesis using book_reach.cancel [OF turn.IH cancelled(3)] by simp
  qed (simp_all add: turn.IH)
qed

section \<open>Routing\<close>

text \<open>
  \<open>routed e clk p own\<close>: the processor reaches \<open>p\<close> by a run in which no accepted order has the id
  of an order that rests at that moment; \<open>own\<close> is who submitted the last accepted order of each id.
\<close>

inductive routed :: "endian \<Rightarrow> clock \<Rightarrow> processor \<Rightarrow> (OrderId \<rightharpoonup> fd) \<Rightarrow> bool" for e clk where
  routed_start: "routed e clk new_processor Map.empty"
| routed_accepted: "routed e clk p own \<Longrightarrow> in_type m = NEW_ORDER \<Longrightarrow>
    field_order e (clk (reads p)) (in_payload m) = Inr ord \<Longrightarrow> o_id ord \<notin> resting_ids (book p) \<Longrightarrow>
    process e clk m p = Inr (p', outs) \<Longrightarrow> routed e clk p' (own(o_id ord \<mapsto> in_fd m))"
| routed_rejected: "routed e clk p own \<Longrightarrow> in_type m = NEW_ORDER \<Longrightarrow>
    field_order e (clk (reads p)) (in_payload m) = Inl x \<Longrightarrow>
    process e clk m p = Inr (p', outs) \<Longrightarrow> routed e clk p' own"
| routed_cancel: "routed e clk p own \<Longrightarrow> in_type m = CANCEL_ORDER \<Longrightarrow>
    process e clk m p = Inr (p', outs) \<Longrightarrow> routed e clk p' own"

lemma spec_sweep_rest_ids:
  "spec_sweep ok q xs = (fs, rest, q') \<Longrightarrow> o_id ` set rest \<subseteq> o_id ` set xs"
  by (induction ok q xs arbitrary: fs rest q' rule: spec_sweep.induct)
    (auto simp: Let_def split: if_splits prod.splits)

lemma resting_ids_sides:
  "o_side ord \<in> {BID, ASK} \<Longrightarrow> resting_ids b = o_id ` set (own_side ord b) \<union> o_id ` set (opposite ord b)"
  by (auto simp: resting_ids_def all_nodes_def own_side_def opposite_def abs_side_def)

lemma match_resting_ids:
  assumes "book_wf b" and "order_valid ord" and "match clk t b ord ts = (e, b', r)"
  shows "resting_ids b' \<subseteq> insert (o_id ord) (resting_ids b)"
    and "tr \<in> set (drop (length ts) (trades r)) \<Longrightarrow> counterparty ord tr \<in> resting_ids b"
proof -
  have both: "resting_ids b' \<subseteq> insert (o_id ord) (resting_ids b)
    \<and> (tr \<in> set (drop (length ts) (trades r)) \<longrightarrow> counterparty ord tr \<in> resting_ids b)"
  proof (cases "o_side ord \<in> {BID, ASK}")
    case False
    then show ?thesis using match_other_side [of ord clk t b ts] assms(3) by auto
  next
    case sd: True
    obtain fs rest q b1 r1 where m: "match clk t b ord ts = (None, b1, r1)"
      "spec_sweep (within ord) (unat (o_quantity ord)) (opposite ord b) = (fs, rest, q)"
      "trades r1 = ts @ spec_trades (trade_of ord) clk ord t fs" "opposite ord b1 = rest"
      "own_side ord b1 = (if 0 < q \<and> o_type ord = LIMIT
         then spec_insert (better ord) (residual clk (t + length fs) ord q) (own_side ord b)
         else own_side ord b)"
      by (rule match_summary [OF assms(1,2) sd])
    have eq: "b1 = b'" "r1 = r" using m(1) assms(3) by auto
    have "resting_ids b1 \<subseteq> insert (o_id ord) (resting_ids b)"
      using spec_sweep_rest_ids [OF m(2)] m(4,5)
      by (auto simp: resting_ids_sides [OF sd] residual_def split: if_splits)
    moreover have "counterparty ord tr \<in> resting_ids b" if "tr \<in> set (drop (length ts) (trades r1))"
    proof -
      obtain i where i: "i < length fs" "tr = spec_trades (trade_of ord) clk ord t fs ! i"
        using \<open>tr \<in> set (drop (length ts) (trades r1))\<close> m(3) by (auto simp: in_set_conv_nth)
      have "fst (fs ! i) \<in> set (opposite ord b)"
        using spec_sweep_fills [OF m(2), of "fst (fs ! i)" "snd (fs ! i)"] i(1) by simp
      moreover have "counterparty ord tr = maker_id ord tr"
        using sd by (auto simp: counterparty_def maker_id_def)
      ultimately show ?thesis
        using i by (auto simp: resting_ids_sides [OF sd] spec_trades_nth)
    qed
    ultimately show ?thesis using eq by auto
  qed
  then show "resting_ids b' \<subseteq> insert (o_id ord) (resting_ids b)" by blast
  show "counterparty ord tr \<in> resting_ids b" if "tr \<in> set (drop (length ts) (trades r))"
    using both that by blast
qed

lemma cancel_resting_ids:
  assumes "fresh_reach b" and "cancel_order b oid = Inr b'"
  shows "resting_ids b' \<subseteq> resting_ids b - {oid}"
proof -
  have inv: "book_wf b" "index_full b" using fresh_reach_inv [OF assms(1)] book_reach_inv by auto
  obtain loc where "order_map b oid = Some loc"
    using assms(2) by (cases "order_map b oid") (simp_all add: cancel_order_def)
  then obtain b1 n where h: "cancel_order b oid = Inr b1" "n \<in> set (all_nodes b)" "o_id (node_order n) = oid"
    "all_nodes b1 = remove1 n (all_nodes b)"
    by (rule cancel_order_nodes [OF inv(1)])
  have ok: "nodes_ok (next_addr b) (all_nodes b)" "indexed (order_map b) (all_nodes b)"
    using inv by (simp_all add: book_wf_def index_full_def)
  have "distinct (all_nodes b)" using ok(1) by (simp add: nodes_ok_def distinct_map)
  moreover have "o_id (node_order x) \<noteq> oid" if "x \<in> set (all_nodes b)" "x \<noteq> n" for x
    using indexed_inj [OF ok(2,1) that(1) h(2)] that(2) h(3) by auto
  ultimately show ?thesis using h(1,4) assms(2) by (auto simp: resting_ids_def)
qed

lemma routed_inv:
  "routed e clk p own \<Longrightarrow> fresh_reach (book p) \<and>
     (\<forall>i \<in> resting_ids (book p). own i \<noteq> None \<and> order_to_client_fd p i = own i)"
proof (induction rule: routed.induct)
  case routed_start
  have "resting_ids empty_book = {}" by (simp add: resting_ids_def all_nodes_def empty_book_def)
  then show ?case using fresh_reach.fresh_start by (simp add: new_processor_def)
next
  case (routed_accepted p own m ord p' outs)
  have wf: "book_wf (book p)" using routed_accepted.IH fresh_reach_inv book_reach_inv by blast
  from wf routed_accepted.hyps(5) show ?case
  proof (cases rule: process_cases)
    case (accepted ord' b r)
    then have ord: "ord' = ord" "order_valid ord" using routed_accepted.hyps(3) field_order_Inr by auto
    note mt = accepted(4) [unfolded ord(1)]
    have "fresh_reach b"
      using fresh_reach.fresh_submit [OF _ ord(2) routed_accepted.hyps(4) mt] routed_accepted.IH by simp
    moreover have "touched ((order_to_client_fd p)(o_id ord \<mapsto> in_fd m)) ks i = (own(o_id ord \<mapsto> in_fd m)) i
        \<and> (own(o_id ord \<mapsto> in_fd m)) i \<noteq> None" if "i \<in> resting_ids b" for i ks
    proof -
      consider "i = o_id ord" | "i \<in> resting_ids (book p)"
        using match_resting_ids(1) [OF wf ord(2) mt] \<open>i \<in> resting_ids b\<close> by blast
      then show ?thesis by cases (use routed_accepted.IH in \<open>auto simp: touched_def\<close>)
    qed
    ultimately show ?thesis by (simp add: accepted(5) ord(1))
  qed (use routed_accepted.hyps(2,3) in \<open>auto simp: message_types\<close>)
next
  case (routed_rejected p own m x p' outs)
  have wf: "book_wf (book p)" using routed_rejected.IH fresh_reach_inv book_reach_inv by blast
  from wf routed_rejected.hyps(4) show ?case
    by (cases rule: process_cases) (use routed_rejected in \<open>auto simp: message_types\<close>)
next
  case (routed_cancel p own m p' outs)
  have wf: "book_wf (book p)" using routed_cancel.IH fresh_reach_inv book_reach_inv by blast
  from wf routed_cancel.hyps(3) show ?case
  proof (cases rule: process_cases)
    case (cancelled b)
    then show ?thesis
      using cancel_resting_ids [OF _ cancelled(3)] fresh_reach.fresh_cancel [OF _ cancelled(3)] routed_cancel.IH
      by auto
  qed (use routed_cancel in \<open>auto simp: message_types\<close>)
qed

section \<open>Sample messages\<close>

definition order_message :: "fd \<Rightarrow> order \<Rightarrow> InboundMessage" where
  "order_message f ord = \<lparr>in_fd = f, in_type = NEW_ORDER, in_payload = order_payload LE ord\<rparr>"

definition cancel_message :: "fd \<Rightarrow> OrderId \<Rightarrow> InboundMessage" where
  "cancel_message f oid = \<lparr>in_fd = f, in_type = CANCEL_ORDER, in_payload = id_payload LE oid\<rparr>"

lemma message_simps [simp]:
  "in_fd (order_message f ord) = f" "in_type (order_message f ord) = NEW_ORDER"
  "in_payload (order_message f ord) = order_payload LE ord"
  "in_fd (cancel_message f oid) = f" "in_type (cancel_message f oid) = CANCEL_ORDER"
  "in_payload (cancel_message f oid) = id_payload LE oid"
  by (simp_all add: order_message_def cancel_message_def)

lemma field_order_payload [simp]:
  "field_order e now (order_payload e ord) =
     make_order now (o_id ord) (o_price ord) (o_quantity ord) (o_side ord) (o_type ord)"
  by (simp add: field_order_def field_id_def order_payload_def nth_append)

lemma field_id_payload [simp]: "field_id e (id_payload e oid) = oid" "field_id e (order_payload e ord) = o_id ord"
  by (simp_all add: field_id_def id_payload_def order_payload_def)

text \<open>One client, on descriptor 5, has an ask resting.\<close>

definition sample_resting :: orderbook where
  "sample_resting = \<lparr>bids = [],
     asks = [(100, [\<lparr>node_addr = 0, node_order = (limit_order 1 100 50 ASK)\<lparr>o_timestamp := 1\<rparr>\<rparr>])],
     order_map = [1 \<mapsto> \<lparr>loc_side = ASK, loc_price = 100, list_position = 0\<rparr>], next_addr = 1\<rparr>"

definition sample_processor :: processor where
  "sample_processor = \<lparr>book = sample_resting, order_to_client_fd = [1 \<mapsto> 5], reads = 2\<rparr>"

lemma sample_processor_run:
  "process LE sample_clock (order_message 5 (limit_order 1 100 50 ASK)) new_processor =
     Inr (sample_processor, [reply (order_message 5 (limit_order 1 100 50 ASK))
       (frame ORDER_ACK (id_payload LE 1))])"
proof -
  have mt: "match sample_clock (Suc 0) empty_book (limit_order 1 100 50 ASK) [] =
      (None, sample_resting, \<lparr>remaining_quantity = 50, omap = Map.empty, trades = [], ticks = 2\<rparr>)"
    by (simp add: sample_resting_def match_def match_bids_def match_loop.simps rest_order_def
        make_order_def add_order_def empty_book_def Let_def map_at_def limit_order_def sample_clock_def)
  show ?thesis
    using process_new_fields [of new_processor "order_message 5 (limit_order 1 100 50 ASK)" LE sample_clock] mt
    by (simp add: process_def new_processor_def empty_book_wf make_order_ok sample_clock_def
        trade_reports_def trade_frames_def limit_order_def sample_processor_def)
qed

lemma sample_processor_reach: "proc_reach LE sample_clock sample_processor"
  using proc_reach.turn [OF proc_reach.start sample_processor_run] .

lemma sample_processor_routed: "routed LE sample_clock sample_processor [1 \<mapsto> 5]"
proof -
  let ?ord = "(limit_order 1 100 50 ASK)\<lparr>o_timestamp := sample_clock 0\<rparr>"
  have "field_order LE (sample_clock (reads new_processor))
      (in_payload (order_message 5 (limit_order 1 100 50 ASK))) = Inr ?ord"
    by (simp add: new_processor_def make_order_ok limit_order_def)
  moreover have "o_id ?ord \<notin> resting_ids (book new_processor)"
    by (simp add: new_processor_def resting_ids_def all_nodes_def empty_book_def)
  ultimately show ?thesis
    using routed.routed_accepted [OF routed.routed_start _ _ _ sample_processor_run] by fastforce
qed

section \<open>Pushing the messages\<close>

text \<open>A yield that lets the server pop makes room, so the waiting push ends after it at the latest.\<close>

lemma push_wait_delivers:
  assumes ok: "ring_ok DEFAULT_RING_CAPACITY r" and y: "yields = n # rest" "0 < n"
  shows "\<exists>got r' yields'. push_wait moved DEFAULT_RING_CAPACITY x yields r = Some (got, r', yields')
    \<and> (yields' = yields \<or> yields' = rest) \<and> ring_ok DEFAULT_RING_CAPACITY r'
    \<and> got @ ring_list DEFAULT_RING_CAPACITY r' = ring_list DEFAULT_RING_CAPACITY r @ [x]"
proof (cases rule: ring_queue.push_cases [OF ok, of x])
  case (1 r')
  then show ?thesis by simp
next
  case 2
  obtain r1 where d: "queue_drain (try_pop moved DEFAULT_RING_CAPACITY) n r =
      (take n (ring_list DEFAULT_RING_CAPACITY r), r1)" "ring_ok DEFAULT_RING_CAPACITY r1"
    "ring_list DEFAULT_RING_CAPACITY r1 = drop n (ring_list DEFAULT_RING_CAPACITY r)"
    using ring_queue.drain_take [OF ok, of moved n] by blast
  have "length (ring_list DEFAULT_RING_CAPACITY r1) < 2 ^ 13" using d(3) 2(2) y(2) by simp
  from ring_queue.push_room [OF d(2) this, of x]
  obtain r2 where "try_push DEFAULT_RING_CAPACITY x r1 = (True, r2)" "ring_ok DEFAULT_RING_CAPACITY r2"
    "ring_list DEFAULT_RING_CAPACITY r2 = ring_list DEFAULT_RING_CAPACITY r1 @ [x]" by blast
  then show ?thesis using 2(1) y(1) d by (simp add: push_wait.simps [of _ _ _ yields] push_wait.simps [of _ _ _ rest])
qed

lemma push_all_delivers:
  "ring_ok DEFAULT_RING_CAPACITY r \<Longrightarrow> length xs \<le> length yields \<Longrightarrow> \<forall>n \<in> set yields. 0 < n \<Longrightarrow>
     \<exists>got r' yields'. push_all moved DEFAULT_RING_CAPACITY xs yields r = Some (got, r', yields')
       \<and> ring_ok DEFAULT_RING_CAPACITY r'
       \<and> got @ ring_list DEFAULT_RING_CAPACITY r' = ring_list DEFAULT_RING_CAPACITY r @ xs"
proof (induction xs arbitrary: yields r)
  case (Cons x xs)
  then obtain n rest where y: "yields = n # rest" "0 < n" by (cases yields) auto
  obtain got r1 ys where p: "push_wait moved DEFAULT_RING_CAPACITY x yields r = Some (got, r1, ys)"
    "ys = yields \<or> ys = rest" "ring_ok DEFAULT_RING_CAPACITY r1"
    "got @ ring_list DEFAULT_RING_CAPACITY r1 = ring_list DEFAULT_RING_CAPACITY r @ [x]"
    using push_wait_delivers [OF Cons.prems(1) y] by blast
  have "length xs \<le> length ys" "\<forall>n \<in> set ys. 0 < n" using p(2) Cons.prems(2,3) y(1) by auto
  from Cons.IH [OF p(3) this] obtain got' r2 ys' where
    "push_all moved DEFAULT_RING_CAPACITY xs ys r1 = Some (got', r2, ys')" "ring_ok DEFAULT_RING_CAPACITY r2"
    "got' @ ring_list DEFAULT_RING_CAPACITY r2 = ring_list DEFAULT_RING_CAPACITY r1 @ xs" by blast
  moreover have "got @ ring_list DEFAULT_RING_CAPACITY r1 @ xs = ring_list DEFAULT_RING_CAPACITY r @ x # xs"
    using arg_cong [OF p(4), of "\<lambda>l. l @ xs"] by simp
  ultimately show ?case using p(1) by simp
qed simp

section \<open>Properties\<close>

text \<open>
  C27: What a cancellation causes. On a reachable processor a cancellation of an indexed id takes the
  order out of the book and its id out of the routing table, and is acknowledged. For an unknown id
  nothing changes, but the sender gets one message with two answers, an acknowledgement followed by a
  rejection of the same id: the acknowledgement is serialized before the book is asked and stays in
  the buffer when the book throws.
\<close>

theorem cancel_message_outcomes:
  assumes "proc_reach e clk p" and "in_type m = CANCEL_ORDER" and "8 \<le> length (in_payload m)"
  shows "let oid = field_id e (in_payload m); ack = frame CANCEL_ACK (id_payload e oid)
    in case order_map (book p) oid of
      None \<Rightarrow> process e clk m p = Inr (p, [reply m (ack @ frame REJECT
        (rejection_payload e \<lparr>rej_id = oid, reason = ''order id not found in the book''\<rparr>))])
    | Some _ \<Rightarrow> \<exists>b. cancel_order (book p) oid = Inr b
        \<and> process e clk m p = Inr (p\<lparr>book := b, order_to_client_fd := (order_to_client_fd p)(oid := None)\<rparr>,
            [reply m ack])"
proof (cases "order_map (book p) (field_id e (in_payload m))")
  case None
  then show ?thesis
    using process_cancel_fields [OF assms(3), of e p] assms(2)
    by (simp add: process_def message_types Let_def cancel_order_missing)
next
  case (Some loc)
  moreover have "book_wf (book p)" using proc_reach_book [OF assms(1)] book_reach_inv by blast
  ultimately obtain b n where "cancel_order (book p) (field_id e (in_payload m)) = Inr b"
    using cancel_order_nodes by blast
  then show ?thesis
    using process_cancel_fields [OF assms(3), of e p] assms(2) Some
    by (simp add: process_def message_types Let_def)
qed

theorem cancel_message_outcomes_witness:
  "(\<exists>b. cancel_order sample_resting 1 = Inr b
    \<and> process LE sample_clock (cancel_message 5 1) sample_processor =
        Inr (sample_processor\<lparr>book := b, order_to_client_fd := Map.empty\<rparr>,
          [reply (cancel_message 5 1) (frame CANCEL_ACK (id_payload LE 1))]))
   \<and> process LE sample_clock (cancel_message 5 77) sample_processor = Inr (sample_processor,
     [reply (cancel_message 5 77) (frame CANCEL_ACK (id_payload LE 77)
       @ frame REJECT (rejection_payload LE \<lparr>rej_id = 77, reason = ''order id not found in the book''\<rparr>))])"
  using cancel_message_outcomes [OF sample_processor_reach, of "cancel_message 5 1"]
    cancel_message_outcomes [OF sample_processor_reach, of "cancel_message 5 77"]
  by (simp add: sample_processor_def sample_resting_def Let_def)

text \<open>
  C24: When processing a message faults. On a reachable processor the book never faults; undefined
  behaviour happens exactly for a new order of fewer than 22 payload bytes and a cancellation of
  fewer than 8, and every message type other than these two throws, which ends the thread.
\<close>

theorem process_faults_exactly:
  assumes "proc_reach e clk p"
  shows "process e clk m p = Inl f \<longleftrightarrow>
    (if in_type m = NEW_ORDER then f = UB \<and> length (in_payload m) < 22
     else if in_type m = CANCEL_ORDER then f = UB \<and> length (in_payload m) < 8
     else f = Throw (Runtime_error ''unknown message type''))"
proof -
  have br: "book_reach (book p)" "book_wf (book p)"
    using proc_reach_book [OF assms] book_reach_inv by blast+
  have new: "\<exists>y. process_new e clk m p = Inr y" if "22 \<le> length (in_payload m)"
    using process_new_fields [OF br(2) that, of e clk] by (simp split: sum.split prod.split)
  have cancel: "\<exists>y. process_cancel e m p = Inr y" if "8 \<le> length (in_payload m)"
    using process_cancel_fields [OF that, of e p] cancel_is_safe [OF br(1), of "field_id e (in_payload m)"]
    by (auto simp: Let_def split: sum.splits)
  show ?thesis
  proof (cases "in_type m = NEW_ORDER")
    case True
    then show ?thesis
      using new process_short(1) [OF True, of e clk p] by (cases "length (in_payload m) < 22") (auto simp: process_def)
  next
    case False
    then show ?thesis
      using cancel process_short(2) [of m e clk p] by (cases "length (in_payload m) < 8") (auto simp: process_def)
  qed
qed

theorem process_faults_exactly_witness:
  "process LE sample_clock \<lparr>in_fd = 5, in_type = NEW_ORDER, in_payload = [1, 2, 3]\<rparr> sample_processor = Inl UB
   \<and> process LE sample_clock \<lparr>in_fd = 5, in_type = 9, in_payload = []\<rparr> sample_processor =
       Inl (Throw (Runtime_error ''unknown message type''))"
  using process_faults_exactly [OF sample_processor_reach] by (simp add: message_types)

definition sample_taker :: InboundMessage where
  "sample_taker = order_message 6 (limit_order 2 100 50 BID)"

text \<open>
  C37: A side byte other than bid or ask is acknowledged and dropped. The constructor accepts it, the
  matching engine does nothing with it, and the sender gets an acknowledgement: no trade, no resting
  order, no rejection.
\<close>

theorem unknown_side_is_acknowledged_and_dropped:
  assumes "proc_reach e clk p" and "in_type m = NEW_ORDER" and "22 \<le> length (in_payload m)"
    and "field_order e (clk (reads p)) (in_payload m) = Inr ord" and "o_side ord \<notin> {BID, ASK}"
  shows "\<exists>p'. process e clk m p = Inr (p', [reply m (frame ORDER_ACK (id_payload e (o_id ord)))])
    \<and> book p' = book p"
proof -
  have wf: "book_wf (book p)" using proc_reach_book [OF assms(1)] book_reach_inv by blast
  show ?thesis
    using process_new_fields [OF wf assms(3), of e clk] match_other_side [of ord clk "Suc (reads p)" "book p" "[]"]
      assms(2,4,5) by (simp add: process_def trade_reports_def trade_frames_def)
qed

theorem unknown_side_is_acknowledged_and_dropped_witness:
  "\<exists>p'. process LE sample_clock (order_message 5 (limit_order 8 100 10 2)) sample_processor =
     Inr (p', [reply (order_message 5 (limit_order 8 100 10 2)) (frame ORDER_ACK (id_payload LE 8))])
     \<and> book p' = sample_resting"
proof -
  let ?ord = "(limit_order 8 100 10 2)\<lparr>o_timestamp := sample_clock 2\<rparr>"
  have "field_order LE (sample_clock (reads sample_processor))
      (in_payload (order_message 5 (limit_order 8 100 10 2))) = Inr ?ord"
    by (simp add: sample_processor_def make_order_ok limit_order_def)
  moreover have "o_side ?ord \<notin> {BID, ASK}" by (simp add: BID_def ASK_def)
  ultimately show ?thesis
    using unknown_side_is_acknowledged_and_dropped [OF sample_processor_reach, of "order_message 5 (limit_order 8 100 10 2)" ?ord]
    by (simp add: sample_processor_def)
qed

definition well_framed :: "byte list \<Rightarrow> bool" where
  "well_framed bs \<longleftrightarrow> (\<exists>fs. fs \<noteq> [] \<and> (\<forall>f \<in> set fs. length (snd f) < 2 ^ 32)
     \<and> bs = concat (map (\<lambda>f. frame (fst f) (snd f)) fs))"

lemma well_framed_frame: "length p < 2 ^ 32 \<Longrightarrow> well_framed (frame t p)"
  unfolding well_framed_def by (rule exI [of _ "[(t, p)]"]) simp

lemma well_framed_append: "well_framed a \<Longrightarrow> well_framed b \<Longrightarrow> well_framed (a @ b)"
  unfolding well_framed_def by (metis (no_types, lifting) Un_iff append_is_Nil_conv concat_append map_append set_append)

lemma well_framed_trades: "well_framed b \<Longrightarrow> well_framed (trade_frames e trs @ b)"
  by (induction trs) (auto simp: trade_frames_def intro!: well_framed_append well_framed_frame)

lemma reasons_short:
  "make_order now oid p q s ty = Inl x \<Longrightarrow> length (what x) < 100"
  by (auto simp: make_order_def split: if_splits)

lemma field_reasons_short: "field_order e now bs = Inl x \<Longrightarrow> length (what x) < 100"
  by (simp add: field_order_def reasons_short)

text \<open>
  C25: Every message that is processed is answered. The last message pushed goes to the sender, the
  ones before it are the counterparty reports, one per trade; every payload pushed is a sequence of
  complete frames whose length fields are right, so a receiver can split it.
\<close>

theorem every_message_is_answered:
  assumes "proc_reach e clk p" and "process e clk m p = Inr (p', outs)"
  shows "outs \<noteq> [] \<and> out_fd (last outs) = in_fd m \<and> list_all (\<lambda>o'. well_framed (out_payload o')) outs"
proof -
  have br: "book_reach (book p)" "book_wf (book p)"
    using proc_reach_book [OF assms(1)] book_reach_inv by blast+
  from br(2) assms(2) show ?thesis
  proof (cases rule: process_cases)
    case (rejected x)
    then show ?thesis using field_reasons_short [OF rejected(3)] by (simp add: reply_def well_framed_frame)
  next
    case (accepted ord b r)
    then show ?thesis
      by (simp add: reply_def trade_reports_def list_all_iff well_framed_frame well_framed_trades)
  next
    case (refused x)
    have "length (what x) < 100"
      using cancel_is_safe [OF br(1), of "field_id e (in_payload m)"] refused(3) by simp
    then show ?thesis using refused by (simp add: reply_def well_framed_append well_framed_frame)
  qed (simp add: reply_def well_framed_frame)
qed

theorem every_message_is_answered_witness:
  "\<exists>p' outs. process LE sample_clock (cancel_message 5 77) sample_processor = Inr (p', outs)
     \<and> out_fd (last outs) = 5"
proof -
  have "\<exists>p' outs. process LE sample_clock (cancel_message 5 77) sample_processor = Inr (p', outs)"
    by (simp add: process_def process_cancel_fields message_types Let_def cancel_order_missing
        sample_processor_def sample_resting_def)
  then show ?thesis using every_message_is_answered [OF sample_processor_reach] by fastforce
qed

text \<open>
  The waiting pushes deliver. Pushing a list of messages into the outbound ring, waiting whenever
  it is full, ends when each yield lets the server pop at least one message, and then what the server
  took out meanwhile, followed by what is queued, is what was queued before followed by the list:
  nothing is lost, duplicated or overtaken. At most one yield per message is needed.
\<close>

lemma waiting_pushes_deliver:
  assumes "ring_ok DEFAULT_RING_CAPACITY r" and "length outs \<le> length yields" and "\<forall>n \<in> set yields. 0 < n"
  shows "\<exists>got r' yields'. push_all moved DEFAULT_RING_CAPACITY outs yields r = Some (got, r', yields')
    \<and> ring_ok DEFAULT_RING_CAPACITY r'
    \<and> got @ ring_list DEFAULT_RING_CAPACITY r' = ring_list DEFAULT_RING_CAPACITY r @ outs"
  by (rule push_all_delivers [OF assms])

end
