(* ===== verification/Exchange.thy ===== *)
theory Exchange
  imports Server_Steps Processor_Props
begin

text \<open>
  The exchange as \<^verbatim>\<open>src/main.cpp\<close> puts it together: the server thread and the processing thread
  with the two ring buffers between them. The steps of the two threads interleave in any order, and
  each uses a ring at most once; that the accesses inside such a use may interleave too is covered
  by the theory of the concurrent ring buffer.

  Shown are the invariant of all reachable states, that no message and no answer is lost, repeated or
  reordered between the threads, and that the bytes of each connection are framed into messages and
  the answers leave as bytes, in order.
\<close>

section \<open>Definitions\<close>

text \<open>
  The state of the whole program: where the server thread is, the server, which holds the two rings,
  the processor, and the answers that \<^verbatim>\<open>process\<close> has still to push.
\<close>

record 'k exchange =
  ex_pc :: server_pc
  ex_server :: "'k server"
  ex_processor :: processor
  ex_answers :: "OutboundMessage list"

text \<open>\<^verbatim>\<open>main\<close> constructs the components, starts the server and then runs both loops.\<close>

definition boot :: "'k os \<Rightarrow> fd \<Rightarrow> fd \<Rightarrow> InboundMessage \<Rightarrow> OutboundMessage \<Rightarrow> 'k \<Rightarrow> 'k exchange result" where
  "boot os sfd efd din dout k =
     result_bind (start os (new_server sfd efd 8080 (new_ring DEFAULT_RING_CAPACITY din)
                              (new_ring DEFAULT_RING_CAPACITY dout) k))
       (\<lambda>s. Inr \<lparr>ex_pc = Draining, ex_server = s, ex_processor = new_processor, ex_answers = []\<rparr>)"

text \<open>
  A step of one of the threads, with what the log records of it. The processing thread takes a
  message only when it has pushed all answers of the message before; a push into a full ring changes
  nothing and is tried again. The code pushes the reports while it still handles the message; since
  book and routing table belong to this thread alone, the server cannot tell the difference.

  The acquire load of the other thread's counter may return an old value. Then a ring is found empty
  when an item is in it, or full when there is room: the server stops draining early
  (\<open>found_empty\<close>), or its read loop goes on as with a ring that is full (\<open>found_full\<close>). The
  processing thread just tries again (\<open>missed\<close>).

  A thread that faults, by an exception that nobody catches, a signal or undefined behaviour, has no
  further step. In the program this ends both threads; the model lets the other thread go on, so that it
  has all executions of the program and a few longer ones.
\<close>

definition taken_from :: "(InboundMessage \<Rightarrow> InboundMessage) \<Rightarrow> InboundMessage ring \<Rightarrow> action list" where
  "taken_from moved q = (case fst (try_pop moved DEFAULT_RING_CAPACITY q) of None \<Rightarrow> [] | Some m \<Rightarrow> [Processed m])"

inductive exchange_step ::
  "endian \<Rightarrow> clock \<Rightarrow> 'k os \<Rightarrow> (InboundMessage \<Rightarrow> InboundMessage) \<Rightarrow> (OutboundMessage \<Rightarrow> OutboundMessage) \<Rightarrow>
     'k exchange \<Rightarrow> action list \<Rightarrow> 'k exchange \<Rightarrow> bool" for e clk os moved_in moved_out where
  served: "server_step e os moved_out (ex_pc x) (ex_server x) = Inr (pc, s, acts) \<Longrightarrow>
    exchange_step e clk os moved_in moved_out x acts (x\<lparr>ex_pc := pc, ex_server := s\<rparr>)"
| processed: "ex_answers x = [] \<Longrightarrow>
    run_turn e clk moved_in (inbound (ex_server x)) (ex_processor x) = Inr (q, p, outs) \<Longrightarrow>
    exchange_step e clk os moved_in moved_out x (taken_from moved_in (inbound (ex_server x)))
      (x\<lparr>ex_server := (ex_server x)\<lparr>inbound := q\<rparr>, ex_processor := p, ex_answers := outs\<rparr>)"
| pushed: "ex_answers x = a # outs \<Longrightarrow>
    try_push DEFAULT_RING_CAPACITY a (outbound (ex_server x)) = (pushed, q) \<Longrightarrow>
    exchange_step e clk os moved_in moved_out x []
      (x\<lparr>ex_server := (ex_server x)\<lparr>outbound := q\<rparr>, ex_answers := (if pushed then outs else a # outs)\<rparr>)"
| found_empty: "ex_pc x = Draining \<Longrightarrow>
    exchange_step e clk os moved_in moved_out x [] (x\<lparr>ex_pc := Flushing (pending_writes (ex_server x))\<rparr>)"
| found_full: "ex_pc x = Reading f writable evs \<Longrightarrow> queue_ok q \<Longrightarrow> length (queued q) = 2 ^ 13 \<Longrightarrow>
    server_step e os moved_out (ex_pc x) ((ex_server x)\<lparr>inbound := q\<rparr>) = Inr (pc, s, acts) \<Longrightarrow>
    exchange_step e clk os moved_in moved_out x acts
      (x\<lparr>ex_pc := pc, ex_server := s\<lparr>inbound := inbound (ex_server x)\<rparr>\<rparr>)"
| missed: "exchange_step e clk os moved_in moved_out x [] x"

inductive exchange_run ::
  "endian \<Rightarrow> clock \<Rightarrow> 'k os \<Rightarrow> (InboundMessage \<Rightarrow> InboundMessage) \<Rightarrow> (OutboundMessage \<Rightarrow> OutboundMessage) \<Rightarrow>
     'k exchange \<Rightarrow> action list \<Rightarrow> 'k exchange \<Rightarrow> bool" for e clk os moved_in moved_out x where
  here: "exchange_run e clk os moved_in moved_out x [] x"
| on: "exchange_run e clk os moved_in moved_out x log y \<Longrightarrow> exchange_step e clk os moved_in moved_out y acts z \<Longrightarrow>
    exchange_run e clk os moved_in moved_out x (log @ acts) z"

definition exchange_reach ::
  "endian \<Rightarrow> clock \<Rightarrow> 'k os \<Rightarrow> (InboundMessage \<Rightarrow> InboundMessage) \<Rightarrow> (OutboundMessage \<Rightarrow> OutboundMessage) \<Rightarrow>
     'k \<Rightarrow> action list \<Rightarrow> 'k exchange \<Rightarrow> bool" where
  "exchange_reach e clk os moved_in moved_out k0 log x \<longleftrightarrow>
     (\<exists>sfd efd din dout x0. boot os sfd efd din dout k0 = Inr x0 \<and> exchange_run e clk os moved_in moved_out x0 log x)"

text \<open>The messages in a log.\<close>

definition received :: "action list \<Rightarrow> InboundMessage list" where
  "received log = concat (map (\<lambda>a. case a of Received m \<Rightarrow> [m] | _ \<Rightarrow> []) log)"

definition processed_messages :: "action list \<Rightarrow> InboundMessage list" where
  "processed_messages log = concat (map (\<lambda>a. case a of Processed m \<Rightarrow> [m] | _ \<Rightarrow> []) log)"

definition delivered :: "action list \<Rightarrow> OutboundMessage list" where
  "delivered log = concat (map (\<lambda>a. case a of Delivered m \<Rightarrow> [m] | _ \<Rightarrow> []) log)"

lemmas log_defs = received_def processed_messages_def delivered_def

lemma log_append [simp]:
  "received (log @ acts) = received log @ received acts"
  "processed_messages (log @ acts) = processed_messages log @ processed_messages acts"
  "delivered (log @ acts) = delivered log @ delivered acts"
  by (simp_all add: log_defs)

lemma log_simps [simp]:
  "received [] = []" "processed_messages [] = []" "delivered [] = []"
  "received (Received m # log) = m # received log" "received (Processed m # log) = received log"
  "received (Delivered d # log) = received log" "received (Connected f # log) = received log"
  "processed_messages (Received m # log) = processed_messages log"
  "processed_messages (Processed m # log) = m # processed_messages log"
  "processed_messages (Delivered d # log) = processed_messages log"
  "processed_messages (Connected f # log) = processed_messages log"
  "delivered (Received m # log) = delivered log" "delivered (Processed m # log) = delivered log"
  "delivered (Delivered d # log) = d # delivered log" "delivered (Connected f # log) = delivered log"
  by (simp_all add: log_defs)

lemma log_received_in:
  assumes "queued q' = queued q @ ms"
  shows "received (received_in q q') = ms" "processed_messages (received_in q q') = []"
    "delivered (received_in q q') = []" "Connected f \<notin> set (received_in q q')"
  using assms by (simp_all add: received_in_def log_defs comp_def concat_map_singleton) auto

section \<open>Reachable states\<close>

lemma watch_setup:
  assumes "watch_ok os watched"
  shows "os_socket os k = (f, k') \<Longrightarrow> watched k' \<subseteq> watched k"
    and "os_bind os f p k = (b, k') \<Longrightarrow> watched k' \<subseteq> watched k"
    and "os_listen os f k = (b, k') \<Longrightarrow> watched k' \<subseteq> watched k"
    and "os_epoll_create os k = (f, k') \<Longrightarrow> watched k' \<subseteq> watched k"
    and "watched (os_reuseaddr os f k) \<subseteq> watched k"
  using assms unfolding watch_ok_def by (metis snd_conv)+

lemma start_ok:
  assumes w: "watch_ok os watched" and k: "watched (kernel s) = {}" and q: "queue_ok (inbound s)" "queue_ok (outbound s)"
    and s: "clients s = []" "pending_writes s = []" and st: "start os s = Inr s'"
  shows "server_ok watched s'"
proof -
  obtain f k1 where 1: "os_socket os (kernel s) = (f, k1)" by fastforce
  let ?k = "os_reuseaddr os f k1"
  obtain b2 k2 where 2: "os_bind os f (port s) ?k = (b2, k2)" by fastforce
  obtain b3 k3 where 3: "os_listen os f k2 = (b3, k3)" by fastforce
  obtain b4 k4 where 4: "os_nonblock os f k3 = (b4, k4)" by fastforce
  obtain ep k5 where 5: "os_epoll_create os k4 = (ep, k5)" by fastforce
  obtain b6 k6 where 6: "os_epoll_add os f k5 = (b6, k6)" by fastforce
  have "watched k5 = {}"
    using watch_setup(1) [OF w 1] watch_setup(2) [OF w 2] watch_setup(3) [OF w 3] watch_calls(3) [OF w 4]
      watch_setup(4) [OF w 5] watch_setup(5) [OF w, of f k1] k by blast
  then have "watched (os_nodelay os f k6) \<subseteq> {f}"
    using watch_calls(4) [OF w 6] watch_calls(9) [OF w, of f k6] by blast
  moreover have "s' = s\<lparr>server_fd := f, epoll_fd := ep, kernel := os_nodelay os f k6,
      clients := replicate 1024 empty_client\<rparr>"
    using st 1 2 3 4 5 6 s(1) by (simp add: start_def Let_def split: if_splits bool.splits)
  ultimately show ?thesis using q s(2) by (auto simp: server_ok_def list_all_iff)
qed

lemma boot_cases:
  assumes "boot os sfd efd din dout k = Inr x"
  obtains s where "start os (new_server sfd efd 8080 (new_ring DEFAULT_RING_CAPACITY din)
      (new_ring DEFAULT_RING_CAPACITY dout) k) = Inr s"
    "x = \<lparr>ex_pc = Draining, ex_server = s, ex_processor = new_processor, ex_answers = []\<rparr>"
  using assms by (auto simp: boot_def result_bind_Inr)

definition exchange_ok :: "endian \<Rightarrow> clock \<Rightarrow> ('k \<Rightarrow> fd set) \<Rightarrow> 'k exchange \<Rightarrow> bool" where
  "exchange_ok e clk watched x \<longleftrightarrow> thread_ok watched (ex_pc x) (ex_server x) \<and> proc_reach e clk (ex_processor x)"

lemma boot_ok:
  assumes "watch_ok os watched" and "watched k0 = {}" and "boot os sfd efd din dout k0 = Inr x"
  shows "exchange_ok e clk watched x"
proof -
  let ?s = "new_server sfd efd 8080 (new_ring DEFAULT_RING_CAPACITY din) (new_ring DEFAULT_RING_CAPACITY dout) k0"
  obtain s where s: "start os ?s = Inr s" "x = \<lparr>ex_pc = Draining, ex_server = s, ex_processor = new_processor, ex_answers = []\<rparr>"
    using boot_cases [OF assms(3)] by blast
  have "server_ok watched s"
    by (rule start_ok [OF assms(1) _ _ _ _ _ s(1)]) (use assms(2) in \<open>simp_all add: new_server_def\<close>)
  then show ?thesis using s(2) proc_reach.start by (simp add: exchange_ok_def thread_ok_def)
qed

text \<open>The other thread changes only the contents of the rings.\<close>

lemma thread_ok_rings:
  "thread_ok watched pc s \<Longrightarrow> queue_ok q \<Longrightarrow> thread_ok watched pc (s\<lparr>inbound := q\<rparr>)"
  "thread_ok watched pc s \<Longrightarrow> queue_ok r \<Longrightarrow> thread_ok watched pc (s\<lparr>outbound := r\<rparr>)"
proof -
  have "at_ok (s\<lparr>inbound := q\<rparr>) pc = at_ok s pc" "at_ok (s\<lparr>outbound := r\<rparr>) pc = at_ok s pc"
    by (cases pc; simp add: event_ok_def [abs_def])+
  then show "thread_ok watched pc s \<Longrightarrow> queue_ok q \<Longrightarrow> thread_ok watched pc (s\<lparr>inbound := q\<rparr>)"
    "thread_ok watched pc s \<Longrightarrow> queue_ok r \<Longrightarrow> thread_ok watched pc (s\<lparr>outbound := r\<rparr>)"
    by (simp_all add: thread_ok_def server_ok_def)
qed

lemma thread_ok_queues: "thread_ok watched pc s \<Longrightarrow> queue_ok (inbound s) \<and> queue_ok (outbound s)"
  by (simp add: thread_ok_def server_ok_def)

text \<open>A turn of the processing thread finds nothing, or takes the oldest message and processes it.\<close>

lemma turn_cases:
  assumes q: "queue_ok q" and turn: "run_turn e clk moved q p = Inr (q', p', outs)"
  obtains "q' = q" "p' = p" "outs = []" "taken_from moved q = []"
    | m where "queue_ok q'" "queued q = m # queued q'" "process e clk m p = Inr (p', outs)"
        "taken_from moved q = [Processed m]"
proof (cases rule: ring_queue.pop_cases [OF q, of moved])
  case 1
  then show ?thesis using turn that(1) by (simp add: run_turn_def taken_from_def)
next
  case (2 m q1)
  then show ?thesis using turn that(2) [of m] by (auto simp: run_turn_def taken_from_def result_bind_Inr)
qed

lemma exchange_step_ok:
  assumes os: "os_ok os left wire watched backlog" and st: "exchange_step e clk os moved_in moved_out x acts y"
    and x: "exchange_ok e clk watched x"
  shows "exchange_ok e clk watched y"
  using st
proof cases
  case (served pc s)
  have "step_ok os watched (ex_server x) (server_step e os moved_out (ex_pc x) (ex_server x))"
    by (rule server_step_ok [OF os]) (use x in \<open>simp add: exchange_ok_def\<close>)
  then show ?thesis using served x by (simp add: step_ok_def exchange_ok_def)
next
  case (processed q p outs)
  have q: "queue_ok (inbound (ex_server x))" using x thread_ok_queues by (auto simp: exchange_ok_def)
  have "queue_ok q \<and> proc_reach e clk p"
    by (rule turn_cases [OF q processed(4)]) (use q x proc_reach.turn in \<open>auto simp: exchange_ok_def\<close>)
  then show ?thesis using processed(2) x thread_ok_rings(1) by (auto simp: exchange_ok_def)
next
  case (pushed a outs ok q)
  have q: "queue_ok (outbound (ex_server x))" using x thread_ok_queues by (auto simp: exchange_ok_def)
  have "queue_ok q" by (cases rule: ring_queue.push_cases [OF q, of a]) (use pushed(4) q in auto)
  then show ?thesis using pushed(2) x thread_ok_rings(2) by (auto simp: exchange_ok_def)
next
  case found_empty
  then show ?thesis using x by (simp add: exchange_ok_def thread_ok_def server_ok_def)
next
  case (found_full f w evs q pc s)
  have "step_ok os watched ((ex_server x)\<lparr>inbound := q\<rparr>) (server_step e os moved_out (ex_pc x) ((ex_server x)\<lparr>inbound := q\<rparr>))"
    by (rule server_step_ok [OF os]) (use x found_full(3) thread_ok_rings(1) in \<open>auto simp: exchange_ok_def\<close>)
  then have s: "thread_ok watched pc s" using found_full(5) by (simp add: step_ok_def)
  have "queue_ok (inbound (ex_server x))" using x thread_ok_queues by (auto simp: exchange_ok_def)
  from thread_ok_rings(1) [OF s this] show ?thesis using found_full(1) x by (simp add: exchange_ok_def)
qed (use x in simp)

lemma exchange_run_ok:
  assumes "os_ok os left wire watched backlog" and "exchange_ok e clk watched x"
  shows "exchange_run e clk os moved_in moved_out x log y \<Longrightarrow> exchange_ok e clk watched y"
  by (induction rule: exchange_run.induct) (use assms exchange_step_ok in blast)+

lemma exchange_reach_ok:
  assumes "os_ok os left wire watched backlog" and "watched k0 = {}"
    and "exchange_reach e clk os moved_in moved_out k0 log x"
  shows "exchange_ok e clk watched x"
proof -
  obtain sfd efd din dout x0 where "boot os sfd efd din dout k0 = Inr x0" "exchange_run e clk os moved_in moved_out x0 log x"
    using assms(3) by (auto simp: exchange_reach_def)
  moreover have "watch_ok os watched" using assms(1) by (simp add: os_ok_def)
  ultimately show ?thesis using exchange_run_ok [OF assms(1) boot_ok] assms(2) by blast
qed

section \<open>Nothing is lost between the threads\<close>

definition from_client :: "fd \<Rightarrow> InboundMessage list \<Rightarrow> InboundMessage list" where
  "from_client g ms = filter (\<lambda>m. in_fd m = g) ms"

lemma from_client_simps [simp]:
  "from_client g [] = []" "from_client g (ms @ ms') = from_client g ms @ from_client g ms'"
  "from_client g (messages f fs) = (if f = g then messages f fs else [])"
  by (auto simp: from_client_def messages_def filter_empty_conv)

lemma addressed_append [simp]: "addressed g (ms @ ms') = addressed g ms @ addressed g ms'"
  by (simp add: addressed_def)

text \<open>
  What a part of an execution with log \<open>log\<close> does to the connection of descriptor \<open>g\<close>, as long as the
  connection stays: the bytes received become the messages of their frames, and the payloads of the
  answers delivered to it become bytes sent or to be sent.
\<close>

definition connection_kept ::
  "('k \<Rightarrow> fd \<Rightarrow> byte list) \<Rightarrow> ('k \<Rightarrow> fd \<Rightarrow> byte list) \<Rightarrow> fd \<Rightarrow> 'k server \<Rightarrow> action list \<Rightarrow> 'k server \<Rightarrow> bool" where
  "connection_kept left wire g s log s' \<longleftrightarrow>
     (\<forall>c'. client_at g s' = Inr c' \<and> active c' \<and> Connected g \<notin> set log \<longrightarrow>
       (\<exists>c. client_at g s = Inr c \<and> active c
         \<and> (\<exists>fs. fits fs \<and> from_client g (received log) = messages g fs
              \<and> held c @ left (kernel s) g = frames fs @ held c' @ left (kernel s') g)
         \<and> wire (kernel s') g @ unsent c' = wire (kernel s) g @ unsent c @ addressed g (delivered log)))"

lemma connection_keptI:
  assumes "\<And>c'. client_at g s' = Inr c' \<Longrightarrow> active c' \<Longrightarrow> Connected g \<notin> set log \<Longrightarrow>
      \<exists>c fs. client_at g s = Inr c \<and> active c \<and> fits fs \<and> from_client g (received log) = messages g fs
         \<and> held c @ left (kernel s) g = frames fs @ held c' @ left (kernel s') g
         \<and> wire (kernel s') g @ unsent c' = wire (kernel s) g @ unsent c @ addressed g (delivered log)"
  shows "connection_kept left wire g s log s'"
  using assms unfolding connection_kept_def by blast

lemma connection_kept_trans:
  assumes "connection_kept left wire g s log s'" and "connection_kept left wire g s' acts s''"
  shows "connection_kept left wire g s (log @ acts) s''"
proof (rule connection_keptI)
  fix c''
  assume c'': "client_at g s'' = Inr c''" "active c''" "Connected g \<notin> set (log @ acts)"
  then obtain c' fs' where c': "client_at g s' = Inr c'" "active c'" "fits fs'"
    "from_client g (received acts) = messages g fs'"
    "held c' @ left (kernel s') g = frames fs' @ held c'' @ left (kernel s'') g"
    "wire (kernel s'') g @ unsent c'' = wire (kernel s') g @ unsent c' @ addressed g (delivered acts)"
    using assms(2) unfolding connection_kept_def by auto
  then obtain c fs where c: "client_at g s = Inr c" "active c" "fits fs"
    "from_client g (received log) = messages g fs"
    "held c @ left (kernel s) g = frames fs @ held c' @ left (kernel s') g"
    "wire (kernel s') g @ unsent c' = wire (kernel s) g @ unsent c @ addressed g (delivered log)"
    using assms(1) c''(3) unfolding connection_kept_def by auto
  have "wire (kernel s'') g @ unsent c'' = (wire (kernel s') g @ unsent c') @ addressed g (delivered acts)"
    using c'(6) by simp
  then show "\<exists>c fs. client_at g s = Inr c \<and> active c \<and> fits fs
      \<and> from_client g (received (log @ acts)) = messages g fs
      \<and> held c @ left (kernel s) g = frames fs @ held c'' @ left (kernel s'') g
      \<and> wire (kernel s'') g @ unsent c'' = wire (kernel s) g @ unsent c @ addressed g (delivered (log @ acts))"
    using c c'(3-5) by (intro exI [of _ c] exI [of _ "fs @ fs'"]) simp
qed

text \<open>A step that does not read from the connection.\<close>

definition connection_unread ::
  "('k \<Rightarrow> fd \<Rightarrow> byte list) \<Rightarrow> ('k \<Rightarrow> fd \<Rightarrow> byte list) \<Rightarrow> fd \<Rightarrow> 'k server \<Rightarrow> action list \<Rightarrow> 'k server \<Rightarrow> bool" where
  "connection_unread left wire g s log s' \<longleftrightarrow> from_client g (received log) = [] \<and>
     (\<forall>c'. client_at g s' = Inr c' \<and> active c' \<and> Connected g \<notin> set log \<longrightarrow>
       (\<exists>c. client_at g s = Inr c \<and> active c \<and> held c' = held c \<and> left (kernel s') g = left (kernel s) g
         \<and> wire (kernel s') g @ unsent c' = wire (kernel s) g @ unsent c @ addressed g (delivered log)))"

lemma connection_unreadI:
  assumes "\<And>c'. client_at g s' = Inr c' \<Longrightarrow> active c' \<Longrightarrow> Connected g \<notin> set log \<Longrightarrow>
      \<exists>c. client_at g s = Inr c \<and> active c \<and> held c' = held c \<and> left (kernel s') g = left (kernel s) g
         \<and> wire (kernel s') g @ unsent c' = wire (kernel s) g @ unsent c @ addressed g (delivered log)"
    and "from_client g (received log) = []"
  shows "connection_unread left wire g s log s'"
  using assms unfolding connection_unread_def by blast

lemma connection_unread_kept: "connection_unread left wire g s log s' \<Longrightarrow> connection_kept left wire g s log s'"
proof (rule connection_keptI)
  fix c'
  assume "connection_unread left wire g s log s'" "client_at g s' = Inr c'" "active c'" "Connected g \<notin> set log"
  then obtain c where "client_at g s = Inr c" "active c" "held c' = held c" "left (kernel s') g = left (kernel s) g"
    "wire (kernel s') g @ unsent c' = wire (kernel s) g @ unsent c @ addressed g (delivered log)"
    "from_client g (received log) = []"
    unfolding connection_unread_def by blast
  then show "\<exists>c fs. client_at g s = Inr c \<and> active c \<and> fits fs \<and> from_client g (received log) = messages g fs
      \<and> held c @ left (kernel s) g = frames fs @ held c' @ left (kernel s') g
      \<and> wire (kernel s') g @ unsent c' = wire (kernel s) g @ unsent c @ addressed g (delivered log)"
    by (intro exI [of _ c] exI [of _ "[]"]) simp
qed

lemma connection_unread_trans:
  assumes "connection_unread left wire g s log s'" and "connection_unread left wire g s' acts s''"
  shows "connection_unread left wire g s (log @ acts) s''"
proof (rule connection_unreadI)
  fix c''
  assume c'': "client_at g s'' = Inr c''" "active c''" "Connected g \<notin> set (log @ acts)"
  then obtain c' where c': "client_at g s' = Inr c'" "active c'" "held c'' = held c'" "left (kernel s'') g = left (kernel s') g"
    "wire (kernel s'') g @ unsent c'' = wire (kernel s') g @ unsent c' @ addressed g (delivered acts)"
    using assms(2) unfolding connection_unread_def by auto
  then obtain c where c: "client_at g s = Inr c" "active c" "held c' = held c" "left (kernel s') g = left (kernel s) g"
    "wire (kernel s') g @ unsent c' = wire (kernel s) g @ unsent c @ addressed g (delivered log)"
    using assms(1) c''(3) unfolding connection_unread_def by auto
  have "wire (kernel s'') g @ unsent c'' = (wire (kernel s') g @ unsent c') @ addressed g (delivered acts)"
    using c'(5) by simp
  then show "\<exists>c. client_at g s = Inr c \<and> active c \<and> held c'' = held c \<and> left (kernel s'') g = left (kernel s) g
      \<and> wire (kernel s'') g @ unsent c'' = wire (kernel s) g @ unsent c @ addressed g (delivered (log @ acts))"
    using c c'(3,4) by (intro exI [of _ c]) simp
qed (use assms in \<open>simp add: connection_unread_def\<close>)

text \<open>A step that does not touch the connection.\<close>

lemma connection_same:
  assumes "\<And>c. client_at g s' = Inr c \<Longrightarrow> active c \<Longrightarrow> Connected g \<notin> set log \<Longrightarrow>
      client_at g s = Inr c \<and> left (kernel s') g = left (kernel s) g \<and> wire (kernel s') g = wire (kernel s) g"
    and "from_client g (received log) = []" and "addressed g (delivered log) = []"
  shows "connection_unread left wire g s log s'"
proof (rule connection_unreadI)
  fix c'
  assume "client_at g s' = Inr c'" "active c'" "Connected g \<notin> set log"
  note this(2) assms(1) [OF this]
  then show "\<exists>c. client_at g s = Inr c \<and> active c \<and> held c' = held c \<and> left (kernel s') g = left (kernel s) g
      \<and> wire (kernel s') g @ unsent c' = wire (kernel s) g @ unsent c @ addressed g (delivered log)"
    using assms(3) by (intro exI [of _ c']) simp
qed (rule assms(2))

text \<open>
  What a step of the server does to the rings and to every connection; \<open>r\<close> is the descriptor that is
  being read, if there is one.
\<close>

definition step_keeps ::
  "('k \<Rightarrow> fd \<Rightarrow> byte list) \<Rightarrow> ('k \<Rightarrow> fd \<Rightarrow> byte list) \<Rightarrow> fd option \<Rightarrow> 'k server \<Rightarrow> action list \<Rightarrow> 'k server \<Rightarrow> bool" where
  "step_keeps left wire r s acts s' \<longleftrightarrow>
     queued (inbound s') = queued (inbound s) @ received acts \<and> processed_messages acts = []
     \<and> queued (outbound s) = delivered acts @ queued (outbound s')
     \<and> (\<forall>g. connection_kept left wire g s acts s') \<and> (\<forall>g. r \<noteq> Some g \<longrightarrow> connection_unread left wire g s acts s')"

lemma step_keepsI:
  assumes "queued (inbound s') = queued (inbound s) @ received acts" and "processed_messages acts = []"
    and "queued (outbound s) = delivered acts @ queued (outbound s')" and "\<And>g. connection_unread left wire g s acts s'"
  shows "step_keeps left wire r s acts s'"
  unfolding step_keeps_def using assms connection_unread_kept by blast

lemma sends_keeps:
  assumes "sends os wire f s c s'" and c: "client_at f s = Inr c" "writer_ok c" and st: "streams_ok os left wire"
  shows "step_keeps left wire r s [] s'"
proof -
  obtain c' k where s': "s' = set_client f c' (s\<lparr>kernel := k\<rparr>)"
    "active c' \<Longrightarrow> active c \<and> held c' = held c \<and> wire k f @ unsent c' = wire (kernel s) f @ unsent c"
    "\<And>g. g \<noteq> f \<Longrightarrow> wire k g = wire (kernel s) g" "\<And>g. g \<noteq> f \<or> active c' \<Longrightarrow> left k g = left (kernel s) g"
    using assms(1) c(2) st unfolding sends_def by metis
  have at: "client_at g s' = (if g = f then Inr c' else client_at g s)" for g
    using client_at_set [of f "s\<lparr>kernel := k\<rparr>" c] c(1) by (simp add: s'(1))
  have "connection_unread left wire g s [] s'" for g
  proof (cases "g = f")
    case True
    show ?thesis
      by (rule connection_unreadI, rule exI [of _ c]) (use True at c(1) s' in auto)
  qed (rule connection_same, use at s' in auto)
  then show ?thesis by (intro step_keepsI) (simp_all add: s'(1) set_client_def)
qed

lemma queue_output_keeps:
  assumes w: "\<And>c. client_at (out_fd m) s = Inr c \<Longrightarrow> writer_ok c" and q: "queued (outbound s) = m # queued rest"
  shows "step_keeps left wire r s [Delivered m] (queue_output m (s\<lparr>outbound := rest\<rparr>))"
proof -
  let ?s = "queue_output m (s\<lparr>outbound := rest\<rparr>)"
  have "connection_unread left wire g s [Delivered m] ?s" for g
  proof (cases "g = out_fd m")
    case True
    show ?thesis
    proof (rule connection_unreadI)
      fix c'
      assume c': "client_at g ?s = Inr c'" "active c'"
      obtain c where at: "client_at g s = Inr c"
        using c'(1) by (cases "client_at g s") (simp_all add: queue_output_client)
      have eq: "c' = (if active c then c\<lparr>write_buffer := write_buffer c @ out_payload m\<rparr> else c)"
        using c'(1) at True by (simp add: queue_output_client)
      have c: "client_at g s = Inr c" "active c" "c' = c\<lparr>write_buffer := write_buffer c @ out_payload m\<rparr>"
        using at eq c'(2) by (cases "active c"; simp)+
      have "unsent c' = unsent c @ out_payload m"
        using w [of c] c True by (auto simp: unsent_def writer_ok_def)
      then show "\<exists>c. client_at g s = Inr c \<and> active c \<and> held c' = held c \<and> left (kernel ?s) g = left (kernel s) g
          \<and> wire (kernel ?s) g @ unsent c' = wire (kernel s) g @ unsent c @ addressed g (delivered [Delivered m])"
        using c True by (intro exI [of _ c]) simp
    qed simp
  next
    case False
    show ?thesis
      by (rule connection_same) (use False in \<open>auto simp: queue_output_client split: sum.splits\<close>)
  qed
  moreover have "inbound ?s = inbound s" by (simp add: queue_output_def set_client_def split: sum.split)
  ultimately show ?thesis using q by (intro step_keepsI) simp_all
qed

lemma kernel_keeps:
  assumes "left k = left (kernel s)" and "wire k = wire (kernel s)"
  shows "step_keeps left wire r s [] (s\<lparr>kernel := k\<rparr>)"
proof -
  have "connection_unread left wire g s [] (s\<lparr>kernel := k\<rparr>)" for g
    by (rule connection_same) (use assms in auto)
  then show ?thesis by (intro step_keepsI) simp_all
qed

lemma add_client_other:
  assumes "client_at g (add_client f s) = Inr c" and "active c" and "g \<noteq> f" and "0 \<le> f"
  shows "client_at g s = Inr c"
proof -
  have fresh: "\<not> active (replicate (n - l) empty_client ! (i - l))" if "\<not> i < l" "i < n" for n i l
    using that by (simp add: diff_less_mono)
  show ?thesis
    using assms fresh [of "nat g" "length (clients s)" "max (length (clients s) * 2) (nat (f + 1))"]
    by (auto simp: client_at_def add_client_def Let_def nth_append nat_eq_iff simp del: nth_replicate split: if_splits)
qed

lemma accept_one_keeps:
  assumes st: "streams_ok os left wire" and a: "accept_one os s = Inr (a, s')" and os: "accept_ok os backlog"
  shows "step_keeps left wire r s (case a of None \<Rightarrow> [] | Some f \<Rightarrow> [Connected f]) s'"
proof -
  obtain ar k where r: "os_accept os (server_fd s) (kernel s) = (ar, k)" by fastforce
  show ?thesis
  proof (cases ar)
    case (Accepted f)
    obtain b1 k1 where 1: "os_nonblock os f k = (b1, k1)" by fastforce
    obtain b2 k2 where 2: "os_epoll_add os f k1 = (b2, k2)" by fastforce
    have s': "a = Some f" "s' = add_client f (s\<lparr>kernel := os_nodelay os f k2\<rparr>)"
      using a r Accepted 1 2 by (auto simp: accept_one_def split: bool.splits)
    have f: "0 \<le> f" using os r Accepted by (auto simp: accept_ok_def)
    have k: "left (os_nodelay os f k2) g = left (kernel s) g \<and> wire (os_nodelay os f k2) g = wire (kernel s) g" if "g \<noteq> f" for g
      using stream_calls(10) [OF st r, of g] stream_calls(7) [OF st 1] stream_calls(8) [OF st 2] stream_calls(9) [OF st, of f k2]
        that Accepted by simp
    have eq: "kernel s' = os_nodelay os f k2" "inbound s' = inbound s" "outbound s' = outbound s"
      by (simp_all add: s' add_client_def Let_def)
    have "connection_unread left wire g s [Connected f] s'" for g
      by (rule connection_same) (use k add_client_other [of g f "s\<lparr>kernel := os_nodelay os f k2\<rparr>"] f eq s' in auto)
    then show ?thesis using s'(1) eq by (intro step_keepsI) simp_all
  next
    case Accept_again
    have "left k g = left (kernel s) g \<and> wire k g = wire (kernel s) g" for g
      using stream_calls(10) [OF st r, of g] Accept_again by simp
    then show ?thesis using a r Accept_again kernel_keeps [of left k s wire] by (auto simp: accept_one_def)
  next
    case Accept_error
    then show ?thesis using a r by (simp add: accept_one_def)
  qed
qed

lemma read_round_streams:
  assumes "streams_ok os left wire" and "read_round e os f c q k = Inr out"
  shows "wire (out_kernel out) = wire k" and "g \<noteq> f \<Longrightarrow> left (out_kernel out) g = left k g"
proof -
  have "wire (out_kernel out) = wire k \<and> (g \<noteq> f \<longrightarrow> left (out_kernel out) g = left k g)"
    by (rule read_round_kernel [of "\<lambda>k k'. wire k' = wire k \<and> (g \<noteq> f \<longrightarrow> left k' g = left k g)", OF _ _ _ assms(2)])
      (use stream_calls(2,3) [OF assms(1)] in auto)
  then show "wire (out_kernel out) = wire k" and "g \<noteq> f \<Longrightarrow> left (out_kernel out) g = left k g" by auto
qed

text \<open>The client that is read is replaced, its messages are pushed, and the other connections stay.\<close>

lemma replaced_keeps:
  assumes c: "client_at f s = Inr c" and q: "queued q = queued (inbound s) @ messages f fs"
    and k: "wire k = wire (kernel s)" "\<And>g. g \<noteq> f \<Longrightarrow> left k g = left (kernel s) g"
    and c': "active c' \<Longrightarrow> active c \<and> fits fs \<and> unsent c' = unsent c \<and>
      held c @ left (kernel s) f = frames fs @ held c' @ left k f"
  shows "step_keeps left wire (Some f) s (received_in (inbound s) q) (set_client f c' (s\<lparr>inbound := q, kernel := k\<rparr>))"
    (is "step_keeps left wire _ s ?acts ?s'")
proof -
  note log = log_received_in [OF q]
  have at: "client_at g ?s' = (if g = f then Inr c' else client_at g s)" for g
    using client_at_set [of f "s\<lparr>inbound := q, kernel := k\<rparr>" c g c'] c by simp
  have others: "connection_unread left wire g s ?acts ?s'" if "g \<noteq> f" for g
    by (rule connection_same) (use at k log that in auto)
  have "connection_kept left wire f s ?acts ?s'"
    by (rule connection_keptI, rule exI [of _ c], rule exI [of _ fs]) (use at c c' k(1) log in auto)
  then have "connection_kept left wire g s ?acts ?s'" for g
    using others [of g] connection_unread_kept by (cases "g = f") auto
  then show ?thesis using others log q by (simp add: step_keeps_def set_client_def)
qed

lemma reading_keeps:
  assumes os: "recv_ok os left" "watch_ok os watched" and st: "streams_ok os left wire"
    and s: "server_ok watched s" and f: "in_range s f" and sw: "send_ok os wire"
    and step: "server_step e os moved (Reading f w evs) s = Inr (pc', s', acts)"
  shows "step_keeps left wire (Some f) s acts s'"
proof -
  note streams = read_round_streams [OF st]
  have going: "step_keeps left wire (Some f) s (received_in (inbound s) q) (set_client f c' (s\<lparr>inbound := q, kernel := k\<rparr>))"
    if c: "client_at f s = Inr c" and r: "read_round e os f c (inbound s) (kernel s) = Inr out" "out_kernel out = k"
      and p: "progress left f c (inbound s) (kernel s) c' q k" for c c' q k out
  proof -
    obtain fs where fs: "fits fs" "queued q = queued (inbound s) @ messages f fs"
      "held c @ left (kernel s) f = frames fs @ held c' @ left k f" "active c' = active c" "unsent c' = unsent c"
      using p by (auto simp: progress_def unsent_def)
    show ?thesis by (rule replaced_keeps [OF c fs(2)]) (use streams [OF r(1)] r(2) fs in auto)
  qed
  show ?thesis
  proof (cases rule: reading_step [OF os s f, of e moved w evs])
    case (1 c c' q k)
    then show ?thesis using going [OF 1(1,3) _ 1(4)] step by simp
  next
    case (2 c c' q k)
    then show ?thesis using going [OF 2(1,3) _ 2(4)] step by simp
  next
    case (3 c q k fs)
    let ?k = "os_close os f (os_epoll_del os f k)"
    have "step_keeps left wire (Some f) s (received_in (inbound s) q) (set_client f empty_client (s\<lparr>inbound := q, kernel := ?k\<rparr>))"
      by (rule replaced_keeps [OF 3(1,4)])
        (use streams [OF 3(3)] send_ok_calls(2) [OF sw, of f k] stream_calls(5) [OF st, of _ f k] in auto)
    then show ?thesis using 3(2) step by simp
  qed
qed

text \<open>The descriptor that the thread is reading from.\<close>

fun reader :: "server_pc \<Rightarrow> fd option" where
  "reader (Reading f writable evs) = Some f"
| "reader pc = None"

lemma sent_keeps:
  assumes st: "streams_ok os left wire" and s: "server_ok watched s" and f: "in_range s f" and x: "x = Inr s'"
    and sends: "\<And>c. client_at f s = Inr c \<Longrightarrow> send_ends os wire f s c x"
  shows "step_keeps left wire r s [] s'"
proof -
  obtain c where c: "client_at f s = Inr c" using f by (auto simp: in_range_client)
  have "sends os wire f s c s'" using sends [OF c] x by simp
  from sends_keeps [OF this c _ st] show ?thesis using client_ok [OF s c] by simp
qed

lemma draining_keeps:
  assumes s: "server_ok watched s" and step: "server_step e os moved Draining s = Inr (pc', s', acts)"
  shows "step_keeps left wire r s acts s'"
proof -
  have q: "queue_ok (outbound s)" using s by (simp add: server_ok_def)
  show ?thesis
  proof (cases rule: ring_queue.pop_cases [OF q, of moved])
    case 1
    then show ?thesis using step kernel_keeps [of left "kernel s" s wire] by auto
  next
    case (2 m q')
    then show ?thesis using queue_output_keeps [OF _ 2(3)] client_ok [OF s] step by auto
  qed
qed

lemma flushing_keeps:
  assumes os: "send_ok os wire" "streams_ok os left wire" and s: "server_ok watched s" and fs: "list_all (in_range s) fs"
    and step: "server_step e os moved (Flushing fs) s = Inr (pc', s', acts)"
  shows "step_keeps left wire r s acts s'"
proof (cases fs)
  case Nil
  have "connection_unread left wire g s [] (s\<lparr>pending_writes := []\<rparr>)" for g by (rule connection_same) auto
  then show ?thesis using step Nil by (auto intro!: step_keepsI)
next
  case (Cons f fs')
  then show ?thesis
    using sent_keeps [OF os(2) s, of f "try_send os f s" s'] try_send_sends [OF os(1), of f s] step fs
    by (auto simp: result_bind_Inr)
qed

lemma server_step_keeps:
  assumes os: "os_ok os left wire watched backlog" and st: "streams_ok os left wire" and t: "thread_ok watched pc s"
    and step: "server_step e os moved pc s = Inr (pc', s', acts)"
  shows "step_keeps left wire (reader pc) s acts s'"
proof -
  have os': "recv_ok os left" "send_ok os wire" "watch_ok os watched" "accept_ok os backlog"
    using os by (simp_all add: os_ok_def)
  have s: "server_ok watched s" and pc: "at_ok s pc" using t by (simp_all add: thread_ok_def)
  show ?thesis
  proof (cases pc)
    case Draining
    from draining_keeps [OF s step [unfolded Draining]] show ?thesis .
  next
    case (Flushing fs)
    from flushing_keeps [OF os'(2) st s _ step [unfolded Flushing]] show ?thesis using pc Flushing by simp
  next
    case Waiting
    obtain evs k where w: "os_epoll_wait os (kernel s) = (evs, k)" by fastforce
    then show ?thesis using kernel_keeps [of left k s wire] stream_calls(6) [OF st w] step Waiting by auto
  next
    case (Handling evs)
    have "s' = s \<and> acts = []"
      using step Handling by (cases evs) (auto simp: result_bind_Inr split: if_splits)
    then show ?thesis using kernel_keeps [of left "kernel s" s wire] by simp
  next
    case (Accepting evs)
    then show ?thesis
      using step accept_one_keeps [OF st _ os'(4), of s] by (fastforce simp: result_bind_Inr split: option.splits)
  next
    case (Reading f w evs)
    have "in_range s f" using pc Reading by simp
    from reading_keeps [OF os'(1,3) st s this os'(2) step [unfolded Reading]] show ?thesis using Reading by simp
  next
    case (Writing f evs)
    then show ?thesis
      using sent_keeps [OF st s, of f "handle_write os f s" s'] handle_write_sends [OF os'(2), of f s] step pc
      by (auto simp: result_bind_Inr)
  qed
qed

text \<open>The same for a step of either thread, and for a part of an execution.\<close>

lemma taken_from_log [simp]: "received (taken_from moved q) = []" "delivered (taken_from moved q) = []"
  by (simp_all add: taken_from_def split: option.split)

text \<open>A step of the server that finds the inbound ring full pushes nothing.\<close>

lemma full_view_keeps:
  assumes os: "os_ok os left wire watched backlog" and st: "streams_ok os left wire" and x: "exchange_ok e clk watched x"
    and q: "queue_ok q" "length (queued q) = 2 ^ 13"
    and step: "server_step e os moved_out (ex_pc x) ((ex_server x)\<lparr>inbound := q\<rparr>) = Inr (pc, s, acts)"
  shows "step_keeps left wire (reader (ex_pc x)) ((ex_server x)\<lparr>inbound := q\<rparr>) acts s" and "received acts = []"
proof -
  have t: "thread_ok watched (ex_pc x) ((ex_server x)\<lparr>inbound := q\<rparr>)"
    using x q(1) thread_ok_rings(1) by (auto simp: exchange_ok_def)
  show keeps: "step_keeps left wire (reader (ex_pc x)) ((ex_server x)\<lparr>inbound := q\<rparr>) acts s"
    by (rule server_step_keeps [OF os st t step])
  have "queue_ok (inbound s)"
    using server_step_ok [OF os t, of e moved_out] step thread_ok_queues by (auto simp: step_ok_def)
  then have "length (queued (inbound s)) \<le> 2 ^ 13" by (rule ring_queue.bounded)
  then show "received acts = []" using keeps q(2) by (simp add: step_keeps_def)
qed

lemma exchange_step_connection:
  assumes os: "os_ok os left wire watched backlog" and st: "streams_ok os left wire" and x: "exchange_ok e clk watched x"
    and step: "exchange_step e clk os moved_in moved_out x acts y"
  shows "connection_kept left wire g (ex_server x) acts (ex_server y)"
  using step
proof cases
  case (served pc s)
  then show ?thesis using server_step_keeps [OF os st _ served(2)] x by (simp add: exchange_ok_def step_keeps_def)
next
  case (processed q p outs)
  show ?thesis by (rule connection_unread_kept, rule connection_same) (use processed(1,2) in auto)
next
  case (pushed a outs ok q)
  show ?thesis by (rule connection_unread_kept, rule connection_same) (use pushed(1,2) in auto)
next
  case found_empty
  show ?thesis by (rule connection_unread_kept, rule connection_same) (use found_empty in auto)
next
  case (found_full f w evs q pc s)
  have "connection_kept left wire g ((ex_server x)\<lparr>inbound := q\<rparr>) acts s"
    using full_view_keeps [OF os st x found_full(3-5)] by (simp add: step_keeps_def)
  then show ?thesis using found_full(1) by (simp add: connection_kept_def)
next
  case missed
  show ?thesis by (rule connection_unread_kept, rule connection_same) (use missed in auto)
qed

lemma exchange_run_connection:
  assumes os: "os_ok os left wire watched backlog" and st: "streams_ok os left wire" and x: "exchange_ok e clk watched x"
  shows "exchange_run e clk os moved_in moved_out x log y \<Longrightarrow> connection_kept left wire g (ex_server x) log (ex_server y)"
proof (induction rule: exchange_run.induct)
  case here
  show ?case by (rule connection_unread_kept, rule connection_same) auto
next
  case (on log y acts z)
  have "exchange_ok e clk watched y" using exchange_run_ok [OF os x on.hyps(1)] .
  from connection_kept_trans [OF on.IH exchange_step_connection [OF os st this on.hyps(2)]] show ?case .
qed

text \<open>
  The log of an execution from the start accounts for the state: what was received is what was
  processed and what is queued; the processor is in the state that the processed messages lead to one
  by one, and their answers are those delivered, queued and still to be pushed.
\<close>

definition accounted :: "endian \<Rightarrow> clock \<Rightarrow> action list \<Rightarrow> 'k exchange \<Rightarrow> bool" where
  "accounted e clk log x \<longleftrightarrow>
     received log = processed_messages log @ queued (inbound (ex_server x))
     \<and> process_all e clk (processed_messages log) new_processor =
         Inr (ex_processor x, delivered log @ queued (outbound (ex_server x)) @ ex_answers x)"

lemma process_all_snoc:
  "process_all e clk ms p = Inr (p1, outs) \<Longrightarrow> process e clk m p1 = Inr (p2, outs') \<Longrightarrow>
     process_all e clk (ms @ [m]) p = Inr (p2, outs @ outs')"
  by (induction ms arbitrary: p outs) (fastforce simp: result_bind_Inr)+

lemma exchange_step_accounted:
  assumes os: "os_ok os left wire watched backlog" and st: "streams_ok os left wire" and x: "exchange_ok e clk watched x"
    and step: "exchange_step e clk os moved_in moved_out x acts y" and log: "accounted e clk log x"
  shows "accounted e clk (log @ acts) y"
  using step
proof cases
  case (served pc s)
  then show ?thesis
    using server_step_keeps [OF os st _ served(2)] x log by (simp add: exchange_ok_def step_keeps_def accounted_def)
next
  case (processed q p outs)
  have q: "queue_ok (inbound (ex_server x))" using x thread_ok_queues by (auto simp: exchange_ok_def)
  show ?thesis
  proof (rule turn_cases [OF q processed(4)])
    fix m
    assume m: "queued (inbound (ex_server x)) = m # queued q" "process e clk m (ex_processor x) = Inr (p, outs)"
      "taken_from moved_in (inbound (ex_server x)) = [Processed m]"
    then show ?thesis
      using log processed process_all_snoc [OF _ m(2)] by (auto simp: accounted_def)
  qed (use log processed in \<open>simp add: accounted_def\<close>)
next
  case (pushed a outs ok q)
  have q: "queue_ok (outbound (ex_server x))" using x thread_ok_queues by (auto simp: exchange_ok_def)
  show ?thesis
    by (cases rule: ring_queue.push_cases [OF q, of a]) (use pushed log in \<open>auto simp: accounted_def\<close>)
next
  case found_empty
  then show ?thesis using log by (simp add: accounted_def)
next
  case (found_full f w evs q pc s)
  then show ?thesis
    using full_view_keeps [OF os st x found_full(3-5)] log by (simp add: step_keeps_def accounted_def)
qed (use log in simp)

lemma boot_accounted:
  assumes "boot os sfd efd din dout k0 = Inr x"
  shows "accounted e clk [] x"
proof -
  let ?s = "new_server sfd efd 8080 (new_ring DEFAULT_RING_CAPACITY din) (new_ring DEFAULT_RING_CAPACITY dout) k0"
  obtain s where s: "start os ?s = Inr s" "x = \<lparr>ex_pc = Draining, ex_server = s, ex_processor = new_processor, ex_answers = []\<rparr>"
    using boot_cases [OF assms] by blast
  have "inbound s = inbound ?s" "outbound s = outbound ?s"
    using s(1) by (auto simp: start_def Let_def split: prod.splits if_splits bool.splits)
  then show ?thesis using s(2) by (simp add: accounted_def new_server_def)
qed

lemma exchange_reach_accounted:
  assumes os: "os_ok os left wire watched backlog" and st: "streams_ok os left wire" and k0: "watched k0 = {}"
    and x: "exchange_reach e clk os moved_in moved_out k0 log x"
  shows "accounted e clk log x"
proof -
  obtain sfd efd din dout x0 where b: "boot os sfd efd din dout k0 = Inr x0"
    and run: "exchange_run e clk os moved_in moved_out x0 log x"
    using x by (auto simp: exchange_reach_def)
  have ok: "exchange_ok e clk watched x0" using boot_ok [of os watched, OF _ k0 b] os by (simp add: os_ok_def)
  show ?thesis
    using run
  proof (induction rule: exchange_run.induct)
    case here
    show ?case by (rule boot_accounted [OF b])
  next
    case (on log y acts z)
    show ?case using exchange_step_accounted [OF os st exchange_run_ok [OF os ok on.hyps(1)] on.hyps(2) on.IH] .
  qed
qed

section \<open>Runs of the server\<close>

lemma exchange_run_server:
  "server_run e os moved_out n (ex_pc x) (ex_server x) = Inr (pc, s, log) \<Longrightarrow>
     exchange_run e clk os moved_in moved_out x log (x\<lparr>ex_pc := pc, ex_server := s\<rparr>)"
proof (induction n arbitrary: pc s log)
  case 0
  then have "x\<lparr>ex_pc := pc, ex_server := s\<rparr> = x" "log = []" by auto
  then show ?case using exchange_run.here by simp
next
  case (Suc n)
  obtain pc1 s1 log1 acts where run: "server_run e os moved_out n (ex_pc x) (ex_server x) = Inr (pc1, s1, log1)"
    and step: "server_step e os moved_out pc1 s1 = Inr (pc, s, acts)" "log = log1 @ acts"
    using server_run_Suc [OF Suc.prems] by blast
  let ?y = "x\<lparr>ex_pc := pc1, ex_server := s1\<rparr>"
  have "exchange_step e clk os moved_in moved_out ?y acts (?y\<lparr>ex_pc := pc, ex_server := s\<rparr>)"
    by (rule exchange_step.served) (simp add: step(1))
  from exchange_run.on [OF Suc.IH [OF run] this] show ?case using step(2) by simp
qed

lemma exchange_run_trans:
  assumes "exchange_run e clk os moved_in moved_out x log y"
  shows "exchange_run e clk os moved_in moved_out y log' z \<Longrightarrow> exchange_run e clk os moved_in moved_out x (log @ log') z"
proof (induction rule: exchange_run.induct)
  case here
  then show ?case using assms by simp
next
  case (on log' z acts z')
  from exchange_run.on [OF on.IH on.hyps(2)] show ?case by simp
qed

lemma exchange_reach_run:
  "exchange_reach e clk os moved_in moved_out k0 log x \<Longrightarrow> exchange_run e clk os moved_in moved_out x log' y \<Longrightarrow>
     exchange_reach e clk os moved_in moved_out k0 (log @ log') y"
  unfolding exchange_reach_def using exchange_run_trans by blast

section \<open>A sample execution\<close>

text \<open>
  A client waits to be accepted as descriptor 5 and sends one frame, an order to sell. The server
  accepts it in its first round and receives its message in the second; the processing thread handles
  it.
\<close>

definition live_payload :: "byte list" where
  "live_payload = [0, 0, 0, 0, 5, 245, 225, 0, 0, 0, 0, 0, 0, 0, 1, 239, 0, 0, 0, 10, 1, 0]"

definition client_sends :: "byte list \<Rightarrow> live_kernel" where
  "client_sends bs = (\<lparr>pieces = (\<lambda>f. []) (5 := [bs]), sent_bytes = \<lambda>f. []\<rparr>, [5], [])"

definition booted_with :: "byte list \<Rightarrow> live_kernel server" where
  "booted_with bs = \<lparr>server_fd = 3, epoll_fd = 4, clients = replicate 1024 empty_client, pending_writes = [], port = 8080,
     inbound = new_ring DEFAULT_RING_CAPACITY \<lparr>in_fd = 0, in_type = 0, in_payload = []\<rparr>,
     outbound = new_ring DEFAULT_RING_CAPACITY \<lparr>out_fd = 0, out_payload = []\<rparr>, kernel = (fst (client_sends bs), [5], [3])\<rparr>"

definition connected_with :: "byte list \<Rightarrow> live_kernel server" where
  "connected_with bs = (booted_with bs)\<lparr>clients := (replicate 1024 empty_client)[5 := empty_client\<lparr>active := True\<rparr>],
     kernel := (fst (client_sends bs), [], [5, 3])\<rparr>"

definition live_frame :: "byte list" where
  "live_frame = [1, 0, 0, 0, 22] @ live_payload"

definition live_start :: live_kernel where
  "live_start = client_sends live_frame"

definition live_booted :: "live_kernel server" where
  "live_booted = booted_with live_frame"

definition live_connected :: "live_kernel server" where
  "live_connected = connected_with live_frame"

lemmas live_states = live_start_def live_booted_def live_connected_def client_sends_def booted_with_def connected_with_def
  live_frame_def

definition at_server :: "live_kernel server \<Rightarrow> live_kernel exchange" where
  "at_server s = \<lparr>ex_pc = Draining, ex_server = s, ex_processor = new_processor, ex_answers = []\<rparr>"

lemma boot_with:
  "boot live_os 0 0 \<lparr>in_fd = 0, in_type = 0, in_payload = []\<rparr> \<lparr>out_fd = 0, out_payload = []\<rparr> (client_sends bs) =
     Inr (at_server (booted_with bs))"
  by (simp add: boot_def start_def new_server_def live_os_def booted_with_def client_sends_def at_server_def)

lemma new_ring_pop [simp]: "try_pop moved c (new_ring c d) = (None, new_ring c d)"
  by (rule try_pop_empty) simp

lemma server_run_numeral [simp]:
  "server_run e os moved (numeral n) pc s =
     result_bind (server_step e os moved pc s) (\<lambda>(pc, s, acts).
     result_bind (server_run e os moved (pred_numeral n) pc s) (\<lambda>(pc, s, log). Inr (pc, s, acts @ log)))"
  by (simp add: numeral_eq_Suc [of n])

lemma connects_with:
  "server_run BE live_os (\<lambda>m. m) 7 Draining (booted_with bs) = Inr (Draining, connected_with bs, [Connected 5])"
  by (simp add: booted_with_def accept_one_def live_os_def add_client_def connected_with_def client_sends_def)

lemma reach_with:
  "exchange_reach BE sample_clock live_os (\<lambda>m. m) (\<lambda>m. m) (client_sends bs) [Connected 5] (at_server (connected_with bs))"
proof -
  have "exchange_run BE sample_clock live_os (\<lambda>m. m) (\<lambda>m. m) (at_server (booted_with bs)) [Connected 5]
      ((at_server (booted_with bs))\<lparr>ex_pc := Draining, ex_server := connected_with bs\<rparr>)"
    by (rule exchange_run_server [where n = 7]) (simp only: at_server_def exchange.simps connects_with)
  moreover have "(at_server (booted_with bs))\<lparr>ex_pc := Draining, ex_server := connected_with bs\<rparr> = at_server (connected_with bs)"
    by (simp add: at_server_def)
  ultimately show ?thesis unfolding exchange_reach_def using boot_with by (metis (no_types, lifting))
qed

lemma reads_with:
  assumes "bs \<noteq> []"
  shows "server_run BE live_os (\<lambda>m. m) 4 Draining (connected_with bs) = Inr (Reading 5 False [], connected_with bs, [])"
  using assms
  by (simp add: connected_with_def booted_with_def live_os_def client_sends_def sample_left_def client_at_def)

text \<open>The second round, up to the message.\<close>

definition live_message :: InboundMessage where
  "live_message = \<lparr>in_fd = 5, in_type = 1, in_payload = live_payload\<rparr>"

definition live_received :: "live_kernel server" where
  "live_received = live_booted\<lparr>
     clients := (replicate 1024 empty_client)[5 := empty_client\<lparr>active := True, message_type := 1,
       header_buffer := [1, 0, 0, 0, 22],
       read_buffer := live_payload, payload_length := 22\<rparr>],
     inbound := snd (try_push DEFAULT_RING_CAPACITY live_message (inbound live_booted)),
     kernel := (\<lparr>pieces = (\<lambda>f. []) (5 := [[]]), sent_bytes = \<lambda>f. []\<rparr>, [], [5, 3])\<rparr>"

lemma live_round:
  "read_round BE live_os 5 (empty_client\<lparr>active := True\<rparr>) (inbound live_booted) (fst live_start, [], [5, 3]) =
     Inr (Next (empty_client\<lparr>active := True, message_type := 1, header_buffer := [1, 0, 0, 0, 22],
         read_buffer := live_payload, payload_length := 22\<rparr>) (inbound live_received) (kernel live_received))"
  by (simp add: read_round_def header_part_def payload_part_def push_message_def parse_header_def
      live_os_def sample_recv_def read_object_def mem_read_def mem_write_def ntohl_def htonl_def
      object_value_def host_order_def vec_resize_def empty_client_def live_states Let_def live_received_def live_message_def live_payload_def
      try_push_def new_ring_def DEFAULT_RING_CAPACITY_def)

lemma live_queued: "queue_ok (inbound live_received)" "queued (inbound live_received) = [live_message]"
proof -
  have q: "queue_ok (inbound live_booted)" "queued (inbound live_booted) = []" by (simp_all add: live_states)
  then have "length (queued (inbound live_booted)) < 2 ^ 13" by simp
  from ring_queue.push_room [OF q(1) this, of live_message] q(2)
  show "queue_ok (inbound live_received)" "queued (inbound live_received) = [live_message]"
    by (auto simp: live_received_def)
qed

lemma live_receives:
  "server_run BE live_os (\<lambda>m. m) 5 Draining live_connected =
     Inr (Reading 5 False [], live_received, [Received live_message])"
proof -
  have k: "kernel live_connected = (fst live_start, [], [5, 3])" "inbound live_connected = inbound live_booted"
    "outbound live_connected = outbound live_booted" "pending_writes live_connected = []" "server_fd live_connected = 3"
    by (simp_all add: live_states)
  have c: "client_at 5 live_connected = Inr (empty_client\<lparr>active := True\<rparr>)"
    by (simp add: client_at_def live_states)
  have steps: "server_run BE live_os (\<lambda>m. m) 4 Draining live_connected = Inr (Reading 5 False [], live_connected, [])"
    unfolding live_connected_def by (rule reads_with) (simp add: live_frame_def)
  have "received_in (inbound live_booted) (inbound live_received) = [Received live_message]"
    using live_queued(2) by (simp add: received_in_def live_states)
  then have "server_step BE live_os (\<lambda>m. m) (Reading 5 False []) live_connected =
      Inr (Reading 5 False [], live_received, [Received live_message])"
    using c live_round by (simp add: k) (simp add: live_states live_received_def set_client_def)
  then show ?thesis using server_run_append [OF steps, of 1] by simp
qed

lemmas live_reach = reach_with [of live_frame, folded live_start_def live_connected_def]

definition live_reading :: "live_kernel exchange" where
  "live_reading = (at_server live_received)\<lparr>ex_pc := Reading 5 False []\<rparr>"

lemma live_run:
  "exchange_run BE sample_clock live_os (\<lambda>m. m) (\<lambda>m. m) (at_server live_connected) [Received live_message] live_reading"
proof -
  have "exchange_run BE sample_clock live_os (\<lambda>m. m) (\<lambda>m. m) (at_server live_connected) [Received live_message]
      ((at_server live_connected)\<lparr>ex_pc := Reading 5 False [], ex_server := live_received\<rparr>)"
    by (rule exchange_run_server [where n = 5]) (simp only: at_server_def exchange.simps live_receives)
  then show ?thesis by (simp add: live_reading_def at_server_def)
qed

lemma client_sends_watched [simp]: "live_watched (client_sends bs) = {}"
  by (simp add: live_watched_def client_sends_def)

lemmas live_start_watched = client_sends_watched [of live_frame, folded live_start_def]

lemmas live_reading_reach = exchange_reach_run [OF live_reach live_run, simplified append.simps]

text \<open>The other thread takes the message and has an answer to push.\<close>

definition live_order :: order where
  "live_order = limit_order 100000000 495 10 ASK"

lemma live_payload_order: "live_payload = order_payload BE live_order"
  by (simp add: live_payload_def order_payload_def live_order_def limit_order_def object_bytes_def host_order_def
      nat_bytes_numeral ASK_def LIMIT_def)

definition live_answer :: OutboundMessage where
  "live_answer = \<lparr>out_fd = 5, out_payload = frame ORDER_ACK (id_payload BE 100000000)\<rparr>"

lemma live_process: "\<exists>p. process BE sample_clock live_message new_processor = Inr (p, [live_answer])"
proof -
  let ?ord = "live_order\<lparr>o_timestamp := sample_clock 0\<rparr>"
  have wf: "book_wf (book new_processor)" "22 \<le> length (in_payload live_message)"
    using book_reach_inv [OF book_reach.start] by (simp_all add: new_processor_def live_message_def live_payload_order)
  have f: "field_order BE (sample_clock (reads new_processor)) (in_payload live_message) = Inr ?ord"
    by (simp add: live_message_def live_payload_order new_processor_def make_order_ok live_order_def limit_order_def)
  have v: "order_valid ?ord" using field_order_Inr [OF f] by blast
  obtain b r where m: "match sample_clock (Suc (reads new_processor)) (book new_processor) ?ord [] = (None, b, r)"
    using match_no_exception [OF wf(1) v] by blast
  have "trades r = []"
    using match_spec [OF wf(1) v, where clk = sample_clock and t = "Suc (reads new_processor)" and ts = "[]"] m
    by (auto simp: spec_match_def abs_book_def abs_side_def new_processor_def empty_book_def live_order_def limit_order_def)
  then show ?thesis
    using process_new_fields [OF wf, of BE sample_clock] f m
    by (simp add: process_def live_message_def NEW_ORDER_def trade_reports_def trade_frames_def reply_def
        live_answer_def live_order_def limit_order_def)
qed

lemma live_answer_run:
  obtains q p where "queue_ok q"
    "exchange_run BE sample_clock live_os (\<lambda>m. m) (\<lambda>m. m) (at_server live_connected) [Received live_message, Processed live_message]
       (live_reading\<lparr>ex_server := live_received\<lparr>inbound := q\<rparr>, ex_processor := p, ex_answers := [live_answer]\<rparr>)"
proof -
  obtain q where q: "try_pop (\<lambda>m. m) DEFAULT_RING_CAPACITY (inbound live_received) = (Some live_message, q)" "queue_ok q"
    using ring_queue.pop_next [OF live_queued] by blast
  obtain p where p: "process BE sample_clock live_message new_processor = Inr (p, [live_answer])" using live_process by blast
  have at: "ex_server live_reading = live_received" "ex_processor live_reading = new_processor" "ex_answers live_reading = []"
    by (simp_all add: live_reading_def at_server_def)
  have "exchange_step BE sample_clock live_os (\<lambda>m. m) (\<lambda>m. m) live_reading
      (taken_from (\<lambda>m. m) (inbound (ex_server live_reading)))
      (live_reading\<lparr>ex_server := (ex_server live_reading)\<lparr>inbound := q\<rparr>, ex_processor := p, ex_answers := [live_answer]\<rparr>)"
    by (rule exchange_step.processed) (use q(1) p in \<open>simp_all add: at run_turn_def\<close>)
  from exchange_run.on [OF live_run this] show ?thesis
    using that [OF q(2)] q(1) by (simp add: at taken_from_def)
qed

lemma live_answer_reach:
  "\<exists>x a. exchange_reach BE sample_clock live_os (\<lambda>m. m) (\<lambda>m. m) live_start
       [Connected 5, Received live_message, Processed live_message] x \<and> ex_answers x = [a]"
proof (rule live_answer_run)
  fix q p
  let ?x = "live_reading\<lparr>ex_server := live_received\<lparr>inbound := q\<rparr>, ex_processor := p, ex_answers := [live_answer]\<rparr>"
  assume "exchange_run BE sample_clock live_os (\<lambda>m. m) (\<lambda>m. m) (at_server live_connected) [Received live_message, Processed live_message] ?x"
  from exchange_reach_run [OF live_reach this] show ?thesis by (intro exI [of _ ?x] exI [of _ live_answer]) simp
qed

section \<open>Properties\<close>

text \<open>
  C5: The exchange keeps its invariants. In every state that the two threads of \<^verbatim>\<open>main\<close> reach together,
  whatever the clients send and however the steps of the threads interleave, in the middle of a
  handler too: the book is well formed and not crossed, both rings are consistent, and every client's
  read and write state is one that the handlers can continue from.
\<close>

theorem exchange_invariant:
  assumes "os_ok os left wire watched backlog" and "watched k0 = {}"
    and "exchange_reach e clk os moved_in moved_out k0 log x"
  shows "book_wf (book (ex_processor x)) \<and> uncrossed (book (ex_processor x))
    \<and> queue_ok (inbound (ex_server x)) \<and> queue_ok (outbound (ex_server x))
    \<and> list_all (\<lambda>c. reader_ok c \<and> writer_ok c) (clients (ex_server x))"
proof -
  have inv: "server_ok watched (ex_server x)" "proc_reach e clk (ex_processor x)"
    using exchange_reach_ok [OF assms] by (simp_all add: exchange_ok_def thread_ok_def)
  then show ?thesis
    using book_reach_inv [OF proc_reach_book [OF inv(2)]] by (simp add: server_ok_def)
qed

theorem exchange_invariant_witness:
  "book_wf (book (ex_processor live_reading)) \<and> queue_ok (inbound (ex_server live_reading))"
  using exchange_invariant [OF live_os_ok live_start_watched live_reading_reach] by blast

lemma round_faults:
  "f \<in> accept_faults \<union> send_faults os \<longleftrightarrow>
     f \<in> {Throw (Runtime_error ''accept failed''), Throw (Runtime_error ''failed to set socket to non blocking''),
       Throw (Runtime_error ''failed to register client with epoll'')}
     \<or> f = Sigpipe \<and> (\<exists>g bs k. fst (os_send os g bs k) = Send_pipe)"
  by (auto simp: accept_faults_def send_faults_def)

text \<open>
  C8: A round of the server ends, without undefined behaviour. In every reachable state, wherever in
  its loop the server thread is, the rest of the round ends and has one result: a new state, one of the
  three exceptions of \<^verbatim>\<open>accept_client\<close>, or the end of the process by \<^verbatim>\<open>SIGPIPE\<close>, which needs a kernel whose
  \<^verbatim>\<open>send\<close> reports a connection that the peer has closed. So every loop in it ends, the client vector is
  never indexed out of range, no buffer is overrun and no bytes that a client sends stop the thread.
\<close>

theorem server_round_ends_safely:
  assumes "os_ok os left wire watched backlog" and "watched k0 = {}"
    and "exchange_reach e clk os moved_in moved_out k0 log x"
  shows "\<exists>r. (\<forall>r'. round_result e os moved_out (ex_pc x) (ex_server x) r' \<longleftrightarrow> r' = r)
    \<and> (case r of Inr s' \<Rightarrow> length (clients (ex_server x)) \<le> length (clients s')
       | Inl f \<Rightarrow> f \<in> {Throw (Runtime_error ''accept failed''),
           Throw (Runtime_error ''failed to set socket to non blocking''),
           Throw (Runtime_error ''failed to register client with epoll'')}
         \<or> f = Sigpipe \<and> (\<exists>g bs k. fst (os_send os g bs k) = Send_pipe))"
proof -
  have t: "thread_ok watched (ex_pc x) (ex_server x)" using exchange_reach_ok [OF assms] by (simp add: exchange_ok_def)
  obtain r where r: "round_result e os moved_out (ex_pc x) (ex_server x) r" using round_ends_always [OF assms(1) t] by blast
  then have "\<forall>r'. round_result e os moved_out (ex_pc x) (ex_server x) r' \<longleftrightarrow> r' = r" using round_result_unique by blast
  moreover have "case r of Inr s' \<Rightarrow> length (clients (ex_server x)) \<le> length (clients s') | Inl f \<Rightarrow> f \<in> accept_faults \<union> send_faults os"
    using round_result_ok [OF assms(1) t r] by (simp add: ends_ok_def grows_def split: sum.splits)
  ultimately show ?thesis unfolding round_faults by blast
qed

theorem server_round_ends_safely_witness:
  "\<exists>r. round_result BE live_os (\<lambda>m. m) (ex_pc live_reading) (ex_server live_reading) r"
  using server_round_ends_safely [OF live_os_ok live_start_watched live_reading_reach] by blast

text \<open>
  C4: Nothing is lost between the threads. However the threads interleave, the messages received are
  those processed, in the order of their arrival, followed by those in the inbound ring. The processor
  is in the state that processing these messages one after the other leads to, and their answers, in
  order, are those that the server has taken, followed by those in the outbound ring and those still to
  be pushed. No message is processed twice or out of turn, and no answer is lost, repeated or
  overtaken: the concurrent program behaves as the sequential one.
\<close>

theorem threads_refine_sequential_processing:
  assumes "os_ok os left wire watched backlog" and "streams_ok os left wire" and "watched k0 = {}"
    and "exchange_reach e clk os moved_in moved_out k0 log x"
  shows "received log = processed_messages log @ queued (inbound (ex_server x))
    \<and> process_all e clk (processed_messages log) new_processor =
        Inr (ex_processor x, delivered log @ queued (outbound (ex_server x)) @ ex_answers x)"
  using exchange_reach_accounted [OF assms] by (simp add: accounted_def)

theorem threads_refine_sequential_processing_witness:
  "queued (inbound (ex_server live_reading)) = [live_message]"
  using threads_refine_sequential_processing [OF live_os_ok live_streams_ok live_start_watched live_reading_reach] by simp

text \<open>
  C6: The bytes of a connection. Over any part of an execution in which a client stays connected: the
  bytes it held at the beginning followed by those that were still to come are the frames of the
  messages received from it meanwhile, in order, followed by the bytes it holds at the end and those
  still to come. And what was handed to the kernel for it, followed by what is still to be sent, grows
  by exactly the payloads of the answers for it that the server takes meanwhile, in order. Steps for
  other clients and of the other thread, at any point between, change neither.
\<close>

theorem connection_bytes_are_kept:
  assumes "os_ok os left wire watched backlog" and "streams_ok os left wire" and "watched k0 = {}"
    and "exchange_reach e clk os moved_in moved_out k0 log0 x" and "exchange_run e clk os moved_in moved_out x log y"
    and "client_at f (ex_server y) = Inr c'" and "active c'" and "Connected f \<notin> set log"
  shows "\<exists>c fs. client_at f (ex_server x) = Inr c \<and> active c
    \<and> filter (\<lambda>m. in_fd m = f) (received log) = messages f fs
    \<and> held c @ left (kernel (ex_server x)) f = frames fs @ held c' @ left (kernel (ex_server y)) f
    \<and> wire (kernel (ex_server y)) f @ unsent c' =
        wire (kernel (ex_server x)) f @ unsent c @ addressed f (delivered log)"
proof -
  have "exchange_ok e clk watched x" by (rule exchange_reach_ok [OF assms(1,3,4)])
  from exchange_run_connection [OF assms(1,2) this assms(5), of f] assms(6-8)
  show ?thesis unfolding connection_kept_def from_client_def by blast
qed

theorem connection_bytes_are_kept_witness:
  "\<exists>fs. messages 5 fs = [live_message] \<and> live_left live_start 5 = frames fs"
proof -
  let ?c = "empty_client\<lparr>active := True, message_type := 1, header_buffer := [1, 0, 0, 0, 22],
       read_buffer := live_payload, payload_length := 22\<rparr>"
  have c: "client_at 5 (ex_server live_reading) = Inr ?c" "client_at 5 (ex_server (at_server live_connected)) = Inr (empty_client\<lparr>active := True\<rparr>)"
    by (simp_all add: client_at_def live_reading_def live_received_def at_server_def live_states)
  have left: "live_left (kernel (ex_server live_reading)) 5 = []" "held ?c = []"
    "live_left (kernel (ex_server (at_server live_connected))) 5 = live_left live_start 5"
    by (simp_all add: live_left_def sample_left_def live_reading_def live_received_def live_states at_server_def
        held_def empty_client_def)
  show ?thesis
    using connection_bytes_are_kept [OF live_os_ok live_streams_ok live_start_watched live_reach live_run c(1)] c(2) left
    by (simp add: live_message_def) auto
qed

text \<open>
  C14: A client's stream becomes its messages. When a connected client that has sent nothing so far
  sends a sequence of frames and all its bytes have been read, then the messages received from it are
  exactly these frames, in order, pings left out; unless the last of them waits, complete, for room in
  the inbound ring. It does not matter into what pieces the stream was cut, what the other clients did
  meanwhile and how the threads interleaved.
\<close>

theorem client_stream_is_received:
  assumes "os_ok os left wire watched backlog" and "streams_ok os left wire" and "watched k0 = {}"
    and "exchange_reach e clk os moved_in moved_out k0 log0 x" and "exchange_run e clk os moved_in moved_out x log y"
    and "client_at f (ex_server x) = Inr c" and "held c = []" and "left (kernel (ex_server x)) f = frames gs" and "fits gs"
    and "client_at f (ex_server y) = Inr c'" and "active c'" and "Connected f \<notin> set log"
    and "left (kernel (ex_server y)) f = []" and "\<not> blocked c'"
  shows "filter (\<lambda>m. in_fd m = f) (received log) = messages f gs"
proof -
  have x: "exchange_ok e clk watched x" by (rule exchange_reach_ok [OF assms(1,3,4)])
  have "exchange_ok e clk watched y" by (rule exchange_run_ok [OF assms(1) x assms(5)])
  then have r: "reader_ok c'" using client_ok [OF _ assms(10)] by (auto simp: exchange_ok_def thread_ok_def)
  obtain fs where fs: "fits fs" "from_client f (received log) = messages f fs"
    "held c @ left (kernel (ex_server x)) f = frames fs @ held c' @ left (kernel (ex_server y)) f"
    using exchange_run_connection [OF assms(1,2) x assms(5), of f] assms(6,10-12) unfolding connection_kept_def by auto
  have "frames gs = frames fs @ held c'" using fs(3) assms(7,8,13) by simp
  then have "gs = fs" by (rule stream_complete [OF _ fs(1) assms(9) r assms(14)])
  then show ?thesis using fs(2) by (simp add: from_client_def)
qed

theorem client_stream_is_received_witness:
  "received [Received live_message] = messages 5 [(1, live_payload)]"
proof -
  let ?c = "empty_client\<lparr>active := True, message_type := 1, header_buffer := [1, 0, 0, 0, 22],
       read_buffer := live_payload, payload_length := 22\<rparr>"
  have c: "client_at 5 (ex_server live_reading) = Inr ?c" "client_at 5 (ex_server (at_server live_connected)) = Inr (empty_client\<lparr>active := True\<rparr>)"
    by (simp_all add: client_at_def live_reading_def live_received_def at_server_def live_states)
  have left: "live_left (kernel (ex_server live_reading)) 5 = []" "\<not> blocked ?c"
    "live_left (kernel (ex_server (at_server live_connected))) 5 = frames [(1, live_payload)]"
    by (simp_all add: live_left_def sample_left_def live_reading_def live_received_def live_states at_server_def
        blocked_def empty_client_def frame_def object_bytes_def host_order_def nat_bytes_numeral
        live_payload_def)
  show ?thesis
    using client_stream_is_received [OF live_os_ok live_streams_ok live_start_watched live_reach live_run c(2) _ left(3) _ c(1) _ _ left(1,2)]
    by (simp add: live_message_def live_payload_def)
qed

text \<open>
  C18: The threads cannot block each other. When the processing thread has an answer to push, then
  wherever the server thread is, the server on its own, once its loads return the counters as they
  are, comes to a point at which the push succeeds, after finitely many steps; or it stops with one of
  the exceptions of \<^verbatim>\<open>accept_client\<close> or the signal of a \<^verbatim>\<open>send\<close> to a closed peer. A full outbound ring is
  always drained again, and the server never waits for the inbound ring.
\<close>

theorem waiting_push_gets_through:
  assumes "os_ok os left wire watched backlog" and "watched k0 = {}"
    and "exchange_reach e clk os moved_in moved_out k0 log x" and "ex_answers x = a # outs"
  shows "\<exists>n. case server_run e os moved_out n (ex_pc x) (ex_server x) of
      Inl f \<Rightarrow> f \<in> {Throw (Runtime_error ''accept failed''),
        Throw (Runtime_error ''failed to set socket to non blocking''),
        Throw (Runtime_error ''failed to register client with epoll'')}
        \<or> f = Sigpipe \<and> (\<exists>g bs k. fst (os_send os g bs k) = Send_pipe)
    | Inr (pc, s, log') \<Rightarrow> \<exists>q. try_push DEFAULT_RING_CAPACITY a (outbound s) = (True, q)"
proof -
  have t: "thread_ok watched (ex_pc x) (ex_server x)" using exchange_reach_ok [OF assms(1-3)] by (simp add: exchange_ok_def)
  show ?thesis
  proof (rule server_reaches_draining [OF assms(1) t, of e moved_out])
    fix n f
    assume "server_run e os moved_out n (ex_pc x) (ex_server x) = Inl f" "f \<in> accept_faults \<union> send_faults os"
    then show ?thesis unfolding round_faults by (intro exI [of _ n]) simp
  next
    fix n s log'
    assume n: "server_run e os moved_out n (ex_pc x) (ex_server x) = Inr (Draining, s, log')"
      and d: "thread_ok watched Draining s"
    have q: "queue_ok (outbound s)" using d thread_ok_queues by blast
    show ?thesis
    proof (cases rule: ring_queue.pop_cases [OF q, of moved_out])
      case 1
      then have "\<exists>q. try_push DEFAULT_RING_CAPACITY a (outbound s) = (True, q)"
        using ring_queue.push_room [OF q, of a] by auto
      then show ?thesis using n by (intro exI [of _ n]) simp
    next
      case (2 m q')
      have "server_run e os moved_out (n + 1) (ex_pc x) (ex_server x) =
          Inr (Draining, queue_output m (s\<lparr>outbound := q'\<rparr>), log' @ [Delivered m])"
        using server_run_append [OF n, of 1] 2(1) by simp
      moreover have "length (queued q') < 2 ^ 13" using ring_queue.bounded [OF q] 2(3) by simp
      then have "\<exists>q. try_push DEFAULT_RING_CAPACITY a q' = (True, q)" using ring_queue.push_room [OF 2(2), of a] by blast
      ultimately show ?thesis by (intro exI [of _ "n + 1"]) (simp del: server_run.simps)
    qed
  qed
qed

theorem waiting_push_gets_through_witness:
  "\<exists>log x a n. exchange_reach BE sample_clock live_os (\<lambda>m. m) (\<lambda>m. m) live_start log x \<and> ex_answers x = [a]
     \<and> (case server_run BE live_os (\<lambda>m. m) n (ex_pc x) (ex_server x) of
          Inl f \<Rightarrow> f \<noteq> UB
        | Inr (pc, s, log') \<Rightarrow> fst (try_push DEFAULT_RING_CAPACITY a (outbound s)))"
proof -
  obtain log x a where x: "exchange_reach BE sample_clock live_os (\<lambda>m. m) (\<lambda>m. m) live_start log x" "ex_answers x = [a]"
    using live_answer_reach by blast
  obtain n where "case server_run BE live_os (\<lambda>m. m) n (ex_pc x) (ex_server x) of
      Inl f \<Rightarrow> f \<in> {Throw (Runtime_error ''accept failed''),
        Throw (Runtime_error ''failed to set socket to non blocking''),
        Throw (Runtime_error ''failed to register client with epoll'')}
        \<or> f = Sigpipe \<and> (\<exists>g bs k. fst (os_send live_os g bs k) = Send_pipe)
    | Inr (pc, s, log') \<Rightarrow> \<exists>q. try_push DEFAULT_RING_CAPACITY a (outbound s) = (True, q)"
    using waiting_push_gets_through [OF live_os_ok live_start_watched x] by blast
  then have "case server_run BE live_os (\<lambda>m. m) n (ex_pc x) (ex_server x) of
      Inl f \<Rightarrow> f \<noteq> UB | Inr (pc, s, log') \<Rightarrow> fst (try_push DEFAULT_RING_CAPACITY a (outbound s))"
    by (auto split: sum.splits)
  then show ?thesis using x by blast
qed

end
