(* ===== verification/Market.thy ===== *)
theory Market
  imports Processor_Props Server_Output
begin

text \<open>
  What the exchange promises, without bytes, list nodes, index and ring buffers: a market that takes
  requests one after the other. Its state is the two queues of resting orders and who owns which
  order; a request is answered by notices to the client and to the owners of the orders it fills.

  The processor is shown to implement the market: a simulation relates its states to those of the
  market, and the messages it pushes are the encoded notices.
\<close>

section \<open>The market\<close>

text \<open>A new order, a cancellation, and a new order that is refused for its fields.\<close>

datatype request = Submit order | Cancel OrderId | Refuse OrderId string

datatype notice =
    Trade_notice trade
  | Order_acknowledged OrderId
  | Cancel_acknowledged OrderId
  | Rejected OrderId string

record market =
  m_queues :: queues
  m_owner :: "OrderId \<rightharpoonup> fd"
  m_time :: nat

definition new_market :: market where
  "new_market = \<lparr>m_queues = \<lparr>bid_queue = [], ask_queue = []\<rparr>, m_owner = Map.empty, m_time = 0\<rparr>"

definition open_orders :: "market \<Rightarrow> order list" where
  "open_orders mk = bid_queue (m_queues mk) @ ask_queue (m_queues mk)"

definition open_ids :: "market \<Rightarrow> OrderId set" where
  "open_ids mk = o_id ` set (open_orders mk)"

text \<open>
  An order is stamped on arrival and matched by price-time priority. Each trade is reported to the
  owner of the resting order; the client gets all its trades and the acknowledgement in one message.
  The time counts clock readings: one on arrival, one per trade and one for an order that comes to
  rest. A cancellation removes the order; one for an order that does not rest is acknowledged and
  then rejected.
\<close>

fun market_step :: "clock \<Rightarrow> market \<Rightarrow> fd \<times> request \<Rightarrow> market \<times> (fd \<times> notice list) list" where
  "market_step clk mk (f, Submit ord) =
     (case spec_match clk (Suc (m_time mk)) (m_queues mk) (ord\<lparr>o_timestamp := clk (m_time mk)\<rparr>) of (trs, qs, q) \<Rightarrow>
        (\<lparr>m_queues = qs, m_owner = (m_owner mk)(o_id ord \<mapsto> f),
          m_time = Suc (m_time mk) + length trs
            + (if 0 < q \<and> o_type ord = LIMIT \<and> o_side ord \<in> {BID, ASK} then 1 else 0)\<rparr>,
         map (\<lambda>tr. (the (m_owner mk (counterparty ord tr)), [Trade_notice tr])) trs
         @ [(f, map Trade_notice trs @ [Order_acknowledged (o_id ord)])]))"
| "market_step clk mk (f, Cancel oid) =
     (if oid \<in> open_ids mk
      then (mk\<lparr>m_queues := \<lparr>bid_queue = filter (\<lambda>ord. o_id ord \<noteq> oid) (bid_queue (m_queues mk)),
                           ask_queue = filter (\<lambda>ord. o_id ord \<noteq> oid) (ask_queue (m_queues mk))\<rparr>\<rparr>,
            [(f, [Cancel_acknowledged oid])])
      else (mk, [(f, [Cancel_acknowledged oid, Rejected oid ''order id not found in the book''])]))"
| "market_step clk mk (f, Refuse oid why) = (mk\<lparr>m_time := Suc (m_time mk)\<rparr>, [(f, [Rejected oid why])])"

fun market_run :: "clock \<Rightarrow> market \<Rightarrow> (fd \<times> request) list \<Rightarrow> market \<times> (fd \<times> notice list) list" where
  "market_run clk mk [] = (mk, [])"
| "market_run clk mk (r # rs) =
     (case market_step clk mk r of (mk', ns) \<Rightarrow>
      case market_run clk mk' rs of (mk'', ns') \<Rightarrow> (mk'', ns @ ns'))"

text \<open>Clients do not use the id of an order that rests for another order.\<close>

primrec admits :: "market \<Rightarrow> request \<Rightarrow> bool" where
  "admits mk (Submit ord) \<longleftrightarrow> o_id ord \<notin> open_ids mk"
| "admits mk (Cancel oid) \<longleftrightarrow> True"
| "admits mk (Refuse oid why) \<longleftrightarrow> True"

fun admissible :: "clock \<Rightarrow> market \<Rightarrow> (fd \<times> request) list \<Rightarrow> bool" where
  "admissible clk mk [] \<longleftrightarrow> True"
| "admissible clk mk (r # rs) \<longleftrightarrow> admits mk (snd r) \<and> admissible clk (fst (market_step clk mk r)) rs"

section \<open>Requests and notices as bytes\<close>

definition decode :: "endian \<Rightarrow> InboundMessage \<Rightarrow> request option" where
  "decode e m =
     (if in_type m = NEW_ORDER \<and> 22 \<le> length (in_payload m) then
        (case field_order e 0 (in_payload m) of
           Inl x \<Rightarrow> Some (Refuse (field_id e (in_payload m)) (what x))
         | Inr ord \<Rightarrow> Some (Submit ord))
      else if in_type m = CANCEL_ORDER \<and> 8 \<le> length (in_payload m) then Some (Cancel (field_id e (in_payload m)))
      else None)"

definition requests :: "endian \<Rightarrow> InboundMessage list \<Rightarrow> (fd \<times> request) list" where
  "requests e ms = map (\<lambda>m. (in_fd m, the (decode e m))) ms"

primrec notice_frame :: "endian \<Rightarrow> notice \<Rightarrow> byte list" where
  "notice_frame e (Trade_notice tr) = frame TRADE (trade_payload e tr)"
| "notice_frame e (Order_acknowledged oid) = frame ORDER_ACK (id_payload e oid)"
| "notice_frame e (Cancel_acknowledged oid) = frame CANCEL_ACK (id_payload e oid)"
| "notice_frame e (Rejected oid why) = frame REJECT (rejection_payload e \<lparr>rej_id = oid, reason = why\<rparr>)"

definition encode :: "endian \<Rightarrow> fd \<times> notice list \<Rightarrow> OutboundMessage" where
  "encode e a = \<lparr>out_fd = fst a, out_payload = concat (map (notice_frame e) (snd a))\<rparr>"

lemma field_order_stamp:
  "field_order e now bs =
     (case field_order e 0 bs of Inl x \<Rightarrow> Inl x | Inr ord \<Rightarrow> Inr (ord\<lparr>o_timestamp := now\<rparr>))"
  by (simp add: field_order_def make_order_def)

section \<open>The processor implements the market\<close>

definition market_sim :: "endian \<Rightarrow> clock \<Rightarrow> processor \<Rightarrow> market \<Rightarrow> bool" where
  "market_sim e clk p mk \<longleftrightarrow>
     routed e clk p (m_owner mk) \<and> m_queues mk = abs_book (book p) \<and> m_time mk = reads p"

lemma market_sim_start: "market_sim e clk new_processor new_market"
  using routed.routed_start [of e clk]
  by (simp add: market_sim_def new_market_def new_processor_def abs_book_def empty_book_def abs_side_def)

lemma open_ids_resting: "m_queues mk = abs_book b \<Longrightarrow> open_ids mk = resting_ids b"
  by (auto simp: open_ids_def open_orders_def abs_book_def abs_side_def resting_ids_def all_nodes_def)

lemma match_ticks:
  assumes wf: "book_wf b" and v: "order_valid ord" and m: "match clk t b ord [] = (x, b', r)"
  shows "ticks r = t + length (trades r)
    + (if 0 < unat (remaining_quantity r) \<and> o_type ord = LIMIT \<and> o_side ord \<in> {BID, ASK} then 1 else 0)"
proof (cases "o_side ord \<in> {BID, ASK}")
  case True
  obtain fs rest q where sw: "sweep (within ord) (unat (o_quantity ord)) (opp_nodes ord b) = (fs, rest, q)"
    by (metis prod_cases3)
  obtain b1 r1 where "r1 = after_fills (trade_of ord) clk ord fs q (fill_start t b ord [])" "q \<le> unat (o_quantity ord)"
    "match clk t b ord [] = (if 0 < q \<and> o_type ord = LIMIT
       then (None, add_order b1 (residual clk (t + length fs) ord q), r1\<lparr>ticks := Suc (ticks r1)\<rparr>)
       else (None, b1, r1))"
    by (rule match_nodes [OF wf v True sw])
  then show ?thesis using m True by (auto split: if_splits)
qed (use m match_other_side [of ord clk t b "[]"] in auto)

text \<open>A cancellation removes the order with the id from the queues, and no other.\<close>

lemma cancel_abs:
  assumes fr: "fresh_reach b" and c: "cancel_order b oid = Inr b'"
  shows "abs_book b' = \<lparr>bid_queue = filter (\<lambda>ord. o_id ord \<noteq> oid) (bid_queue (abs_book b)),
           ask_queue = filter (\<lambda>ord. o_id ord \<noteq> oid) (ask_queue (abs_book b))\<rparr>"
    and "oid \<in> resting_ids b"
proof -
  have wf: "book_wf b" and ix: "index_full b" using fresh_reach_inv [OF fr] book_reach_inv by auto
  obtain loc where "order_map b oid = Some loc"
    using c by (cases "order_map b oid") (simp_all add: cancel_order_def)
  then obtain b1 n where h: "cancel_order b oid = Inr b1" "n \<in> set (all_nodes b)" "o_id (node_order n) = oid"
    "side_nodes (bids b1) = filter (\<lambda>x. node_addr x \<noteq> list_position loc) (side_nodes (bids b))"
    "side_nodes (asks b1) = filter (\<lambda>x. node_addr x \<noteq> list_position loc) (side_nodes (asks b))"
    "node_addr n = list_position loc"
    by (rule cancel_order_nodes [OF wf])
  have ok: "nodes_ok (next_addr b) (all_nodes b)" "indexed (order_map b) (all_nodes b)"
    using wf ix by (simp_all add: book_wf_def index_full_def)
  have "node_addr x \<noteq> list_position loc \<longleftrightarrow> o_id (node_order x) \<noteq> oid" if "x \<in> set (all_nodes b)" for x
    using nodes_ok_inj [OF ok(1) that h(2)] indexed_inj [OF ok(2,1) that h(2)] h(3,6) by metis
  then have "filter (\<lambda>x. node_addr x \<noteq> list_position loc) ns = filter (\<lambda>x. o_id (node_order x) \<noteq> oid) ns"
    if "set ns \<subseteq> set (all_nodes b)" for ns using that by (intro filter_cong) auto
  from this [of "side_nodes (bids b)"] this [of "side_nodes (asks b)"] h(1,4,5) c
  show "abs_book b' = \<lparr>bid_queue = filter (\<lambda>ord. o_id ord \<noteq> oid) (bid_queue (abs_book b)),
           ask_queue = filter (\<lambda>ord. o_id ord \<noteq> oid) (ask_queue (abs_book b))\<rparr>"
    by (simp add: abs_book_def abs_side_def filter_map comp_def all_nodes_def)
  show "oid \<in> resting_ids b" using h(2,3) by (auto simp: resting_ids_def)
qed

lemma cancel_missing_id:
  assumes fr: "fresh_reach b" and c: "cancel_order b oid = Inl (Throw x)"
  shows "oid \<notin> resting_ids b" and "what x = ''order id not found in the book''"
proof -
  have reach: "book_reach b" and ix: "index_full b" using fresh_reach_inv [OF fr] by auto
  have none: "order_map b oid = None" "x = Invalid_argument ''order id not found in the book''"
    using cancel_is_safe [OF reach, of oid] c by auto
  show "what x = ''order id not found in the book''" using none(2) by simp
  show "oid \<notin> resting_ids b" using none(1) ix by (auto simp: index_full_def indexed_def resting_ids_def)
qed

text \<open>The processor handles exactly the messages that stand for a request.\<close>

lemma decode_process:
  assumes "proc_reach e clk p"
  shows "(\<exists>p' outs. process e clk m p = Inr (p', outs)) \<longleftrightarrow> decode e m \<noteq> None"
proof -
  have reach: "book_reach (book p)" and wf: "book_wf (book p)"
    using proc_reach_book [OF assms] book_reach_inv by blast+
  have new: "\<exists>p' outs. process e clk m p = Inr (p', outs)" if "in_type m = NEW_ORDER" "22 \<le> length (in_payload m)"
    using process_new_fields [OF wf that(2), of e clk] that(1)
    by (cases "field_order e (clk (reads p)) (in_payload m)") (auto simp: process_def split: prod.splits)
  have cancel: "\<exists>p' outs. process e clk m p = Inr (p', outs)" if "in_type m = CANCEL_ORDER" "8 \<le> length (in_payload m)"
  proof -
    have "cancel_order (book p) (field_id e (in_payload m)) \<notin> {Inl UB, Inl Sigpipe}"
      using cancel_is_safe [OF reach, of "field_id e (in_payload m)"] by (auto split: sum.splits)
    then show ?thesis
      using process_cancel_fields [OF that(2), of e p] that(1)
      by (auto simp: process_def message_types Let_def split: sum.splits fault.splits)
  qed
  show ?thesis
  proof
    assume "\<exists>p' outs. process e clk m p = Inr (p', outs)"
    then obtain p' outs where "process e clk m p = Inr (p', outs)" by blast
    from wf this show "decode e m \<noteq> None"
      by (cases rule: process_cases) (auto simp: decode_def message_types split: sum.split)
  next
    assume "decode e m \<noteq> None"
    then show "\<exists>p' outs. process e clk m p = Inr (p', outs)"
      using new cancel by (auto simp: decode_def split: if_splits)
  qed
qed

lemma routed_reach: "routed e clk p own \<Longrightarrow> proc_reach e clk p"
  by (induction rule: routed.induct) (auto intro: proc_reach.start proc_reach.turn)

lemma trade_reports_owned:
  assumes rt: "routed e clk p own" and v: "order_valid ord" and fresh: "o_id ord \<notin> resting_ids (book p)"
    and mt: "match clk t (book p) ord [] = (x, b, r)"
  shows "trade_reports e ord ((order_to_client_fd p)(o_id ord \<mapsto> f)) (trades r) =
    map (\<lambda>tr. \<lparr>out_fd = the (own (counterparty ord tr)), out_payload = frame TRADE (trade_payload e tr)\<rparr>) (trades r)"
proof -
  have inv: "fresh_reach (book p)" "\<forall>i \<in> resting_ids (book p). own i \<noteq> None \<and> order_to_client_fd p i = own i"
    using routed_inv [OF rt] by auto
  have wf: "book_wf (book p)" using fresh_reach_inv [OF inv(1)] book_reach_inv by blast
  have "fd_of ((order_to_client_fd p)(o_id ord \<mapsto> f)) (counterparty ord tr) = the (own (counterparty ord tr))"
    if "tr \<in> set (trades r)" for tr
  proof -
    have "counterparty ord tr \<in> resting_ids (book p)"
      using match_resting_ids(2) [OF wf v mt, of tr] that by simp
    then show ?thesis using inv(2) fresh by (auto simp: fd_of_def)
  qed
  then show ?thesis by (simp add: trade_reports_def)
qed

text \<open>One message: the simulation is kept, and the messages pushed are the encoded notices.\<close>

lemma market_step_sim:
  assumes sim: "market_sim e clk p mk" and pr: "process e clk m p = Inr (p', outs)"
    and ad: "admits mk (the (decode e m))"
  shows "market_sim e clk p' (fst (market_step clk mk (in_fd m, the (decode e m))))
    \<and> outs = map (encode e) (snd (market_step clk mk (in_fd m, the (decode e m))))"
proof -
  have rt: "routed e clk p (m_owner mk)" and qs: "m_queues mk = abs_book (book p)" and tm: "m_time mk = reads p"
    using sim by (simp_all add: market_sim_def)
  have fr: "fresh_reach (book p)" using routed_inv [OF rt] by simp
  then have wf: "book_wf (book p)" using fresh_reach_inv book_reach_inv by blast
  note ids = open_ids_resting [OF qs]
  from wf pr show ?thesis
  proof (cases rule: process_cases)
    case (rejected x)
    have "field_order e 0 (in_payload m) = Inl x"
      using rejected(3) by (simp add: field_order_stamp [of e "clk (reads p)"] split: sum.splits)
    then have d: "decode e m = Some (Refuse (field_id e (in_payload m)) (what x))"
      using rejected(1,2) by (simp add: decode_def)
    show ?thesis
      using routed.routed_rejected [OF rt rejected(1,3) pr] rejected(4,5) qs tm
      by (simp add: d market_sim_def encode_def reply_def)
  next
    case (accepted ord b r)
    obtain ord0 where f0: "field_order e 0 (in_payload m) = Inr ord0" "ord = ord0\<lparr>o_timestamp := clk (reads p)\<rparr>"
      using accepted(3) by (auto simp: field_order_stamp [of e "clk (reads p)"] split: sum.splits)
    have v: "order_valid ord" using field_order_Inr [OF accepted(3)] by simp
    have d: "decode e m = Some (Submit ord0)" using accepted(1,2) f0(1) by (simp add: decode_def)
    have fresh: "o_id ord \<notin> resting_ids (book p)" using ad d ids f0(2) by simp
    have sp: "spec_match clk (Suc (reads p)) (abs_book (book p)) ord =
        (trades r, abs_book b, unat (remaining_quantity r))"
      using match_spec [OF wf v, where clk = clk and t = "Suc (reads p)" and ts = "[]"] accepted(4) by simp
    have cp: "counterparty (ord0\<lparr>o_timestamp := t\<rparr>) = counterparty ord0" for t by (simp add: counterparty_def fun_eq_iff)
    note reports = trade_reports_owned [OF rt v fresh accepted(4), of "in_fd m"]
    have "outs = map (encode e) (snd (market_step clk mk (in_fd m, Submit ord0)))"
      using reports sp f0(2) accepted(6)
      by (simp add: qs tm cp encode_def comp_def reply_def trade_frames_def)
    moreover have "routed e clk p' ((m_owner mk)(o_id ord0 \<mapsto> in_fd m))"
      using routed.routed_accepted [OF rt accepted(1,3) fresh pr] f0(2) by simp
    moreover have "reads p' = Suc (reads p) + length (trades r)
        + (if 0 < unat (remaining_quantity r) \<and> o_type ord0 = LIMIT \<and> o_side ord0 \<in> {BID, ASK} then 1 else 0)"
      using match_ticks [OF wf v accepted(4)] accepted(5) f0(2) by simp
    ultimately show ?thesis
      using sp f0(2) accepted(5) by (simp add: d market_sim_def qs tm)
  next
    case (cancelled b)
    have d: "decode e m = Some (Cancel (field_id e (in_payload m)))"
      using cancelled(1,2) by (simp add: decode_def message_types)
    show ?thesis
      using routed.routed_cancel [OF rt cancelled(1) pr] cancelled(4,5) cancel_abs [OF fr cancelled(3)] qs tm ids
      by (simp add: d market_sim_def encode_def reply_def)
  next
    case (refused x)
    have d: "decode e m = Some (Cancel (field_id e (in_payload m)))"
      using refused(1,2) by (simp add: decode_def message_types)
    show ?thesis
      using routed.routed_cancel [OF rt refused(1) pr] refused(4,5) cancel_missing_id [OF fr refused(3)] qs tm ids
      by (simp add: d market_sim_def encode_def reply_def)
  qed
qed

lemma requests_Cons [simp]: "requests e (m # ms) = (in_fd m, the (decode e m)) # requests e ms"
  by (simp add: requests_def)

lemma market_run_sim:
  "market_sim e clk p mk \<Longrightarrow> process_all e clk ms p = Inr (p', outs) \<Longrightarrow> admissible clk mk (requests e ms) \<Longrightarrow>
     market_sim e clk p' (fst (market_run clk mk (requests e ms)))
     \<and> outs = map (encode e) (snd (market_run clk mk (requests e ms)))"
proof (induction ms arbitrary: p mk outs)
  case Nil
  then show ?case by (simp add: requests_def)
next
  case (Cons m ms)
  obtain p1 outs1 outs2 where 1: "process e clk m p = Inr (p1, outs1)" "process_all e clk ms p1 = Inr (p', outs2)"
    "outs = outs1 @ outs2"
    using Cons.prems(2) by (auto simp: result_bind_Inr)
  obtain mk1 ns where st: "market_step clk mk (in_fd m, the (decode e m)) = (mk1, ns)" by fastforce
  have s: "market_sim e clk p1 mk1" "outs1 = map (encode e) ns"
    using market_step_sim [OF Cons.prems(1) 1(1)] Cons.prems(3) st by simp_all
  have "admissible clk mk1 (requests e ms)" using Cons.prems(3) st by simp
  from Cons.IH [OF s(1) 1(2) this] show ?case
    using st s(2) 1(3) by (cases "market_run clk mk1 (requests e ms)") simp
qed

section \<open>Properties\<close>

text \<open>
  C9: The processor implements the market. In a state that corresponds to a state of the market, a
  message is handled without fault exactly when it stands for a request. When it does not reuse the id
  of a resting order, the new state corresponds to the market's new state, and the messages pushed
  are the market's notices, encoded, in the same order and for the same clients: matching by
  price-time priority, reports to the owners of the orders filled, cancellation of exactly the order
  named, and a rejection for everything refused.
\<close>

theorem processor_refines_market:
  assumes "market_sim e clk p mk"
  shows "(\<exists>p' outs. process e clk m p = Inr (p', outs)) = (decode e m \<noteq> None)
    \<and> (process e clk m p = Inr (p', outs) \<longrightarrow> admits mk (the (decode e m)) \<longrightarrow>
        (case market_step clk mk (in_fd m, the (decode e m)) of (mk', notices) \<Rightarrow>
           market_sim e clk p' mk' \<and> outs = map (encode e) notices))"
proof -
  have "proc_reach e clk p" using assms routed_reach unfolding market_sim_def by blast
  from decode_process [OF this, of m] market_step_sim [OF assms, of m p' outs]
  show ?thesis unfolding case_prod_unfold by blast
qed

text \<open>The processor with one resting sell order, and a buy order of another client that fills it.\<close>

definition sample_market :: market where
  "sample_market = \<lparr>m_queues = abs_book sample_resting, m_owner = [1 \<mapsto> 5], m_time = 2\<rparr>"

theorem processor_refines_market_witness:
  "\<exists>p' outs. process LE sample_clock sample_taker sample_processor = Inr (p', outs)
     \<and> map out_fd outs = [5, 6] \<and> m_queues (fst (market_step sample_clock sample_market (6, Submit (limit_order 2 100 50 BID)))) =
         abs_book (book p')"
proof -
  have sim: "market_sim LE sample_clock sample_processor sample_market"
    using sample_processor_routed by (simp add: market_sim_def sample_market_def sample_processor_def)
  have d: "decode LE sample_taker = Some (Submit ((limit_order 2 100 50 BID)\<lparr>o_timestamp := 0\<rparr>))"
    by (simp add: decode_def sample_taker_def make_order_ok limit_order_def)
  then obtain p' outs where p': "process LE sample_clock sample_taker sample_processor = Inr (p', outs)"
    using processor_refines_market [OF sim, of sample_taker] by blast
  have ad: "admits sample_market (the (decode LE sample_taker))"
    by (simp add: d open_ids_def open_orders_def sample_market_def sample_resting_def abs_book_def abs_side_def)
  have "case market_step sample_clock sample_market (in_fd sample_taker, the (decode LE sample_taker)) of (mk', notices) \<Rightarrow>
      market_sim LE sample_clock p' mk' \<and> outs = map (encode LE) notices"
    by (rule mp [OF mp [OF conjunct2 [OF processor_refines_market [OF sim]] p'] ad])
  then show ?thesis
    using p' unfolding d
    by (simp add: sample_taker_def market_sim_def sample_market_def sample_resting_def abs_book_def abs_side_def spec_match_def
        within_bid_def limit_order_def encode_def BID_def ASK_def bid_trade_def counterparty_def)
qed

text \<open>
  C39: A new connection can get the fills of an old one. The processing thread routes a fill to the
  descriptor from which the resting order came. When that client has disconnected and the descriptor
  has been given to a new connection, the report goes into the buffer of the new client, who never
  submitted the order: disconnecting changes nothing in the processor.
\<close>

theorem reused_descriptor_gets_old_fills:
  assumes "routed e clk p own" and "own oid = Some f" and "oid \<in> resting_ids (book p)"
    and "in_type m = NEW_ORDER" and "22 \<le> length (in_payload m)"
    and "field_order e (clk (reads p)) (in_payload m) = Inr ord" and "o_id ord \<notin> resting_ids (book p)"
    and "match clk (Suc (reads p)) (book p) ord [] = (x, b, r)" and "tr \<in> set (trades r)" and "counterparty ord tr = oid"
    and "0 \<le> f" and "disconnect_client os f s = Inr s1"
  shows "\<exists>p' outs. process e clk m p = Inr (p', outs)
    \<and> \<lparr>out_fd = f, out_payload = frame TRADE (trade_payload e tr)\<rparr> \<in> set outs
    \<and> client_at f (queue_output \<lparr>out_fd = f, out_payload = frame TRADE (trade_payload e tr)\<rparr> (add_client f s1)) =
        Inr (empty_client\<lparr>active := True, write_buffer := frame TRADE (trade_payload e tr)\<rparr>)"
proof -
  have "book_wf (book p)" using routed_inv [OF assms(1)] fresh_reach_inv book_reach_inv by blast
  note pn = process_new_fields [OF this assms(5), of e clk]
  have v: "order_valid ord" using field_order_Inr [OF assms(6)] by simp
  have "\<lparr>out_fd = f, out_payload = frame TRADE (trade_payload e tr)\<rparr> \<in>
      set (trade_reports e ord ((order_to_client_fd p)(o_id ord \<mapsto> in_fd m)) (trades r))"
    unfolding trade_reports_owned [OF assms(1) v assms(7,8)] using assms(2,9,10) by force
  moreover have fresh: "client_at f (add_client f s1) = Inr (empty_client\<lparr>active := True\<rparr>)"
    using assms(11) by (auto simp: client_at_def add_client_def Let_def less_max_iff_disj)
  have "client_at f (queue_output \<lparr>out_fd = f, out_payload = frame TRADE (trade_payload e tr)\<rparr> (add_client f s1)) =
      Inr (empty_client\<lparr>active := True, write_buffer := frame TRADE (trade_payload e tr)\<rparr>)"
    using fresh by (simp add: queue_output_client empty_client_def)
  ultimately show ?thesis using pn assms(4,6,8) by (auto simp: process_def)
qed

lemma sample_taker_fill:
  "match sample_clock 3 sample_resting ((limit_order 2 100 50 BID)\<lparr>o_timestamp := 2\<rparr>) [] =
     (None, \<lparr>bids = [], asks = [], order_map = Map.empty, next_addr = 1\<rparr>,
      \<lparr>remaining_quantity = 0, omap = Map.empty, trades = [\<lparr>t_price = 100, buyer_order_id = 2,
         seller_order_id = 1, t_quantity = 50, t_timestamp = 3\<rparr>], ticks = 4\<rparr>)"
  by (simp add: match_def match_asks_def match_loop.simps match_level.simps(2) filled_quantity_def
      record_fill_def forget_id_def sample_resting_def rest_order_def Let_def map_at_def map_erase_def
      bid_nocross_def bid_trade_def limit_order_def sample_clock_def fun_eq_iff)

theorem reused_descriptor_gets_old_fills_witness:
  "\<exists>p' outs s1. process LE sample_clock sample_taker sample_processor = Inr (p', outs)
     \<and> disconnect_client sample_os 5 (sample_server []) = Inr s1
     \<and> (\<exists>a \<in> set outs. client_at 5 (queue_output a (add_client 5 s1)) =
          Inr (empty_client\<lparr>active := True, write_buffer := out_payload a\<rparr>))"
proof -
  let ?ord = "(limit_order 2 100 50 BID)\<lparr>o_timestamp := sample_clock 2\<rparr>"
    and ?tr = "\<lparr>t_price = 100, buyer_order_id = 2, seller_order_id = 1, t_quantity = 50, t_timestamp = 3\<rparr>"
  have f: "field_order LE (sample_clock (reads sample_processor)) (in_payload sample_taker) = Inr ?ord"
    by (simp add: sample_processor_def sample_taker_def make_order_ok limit_order_def)
  have ids: "o_id ?ord \<notin> resting_ids (book sample_processor)" "1 \<in> resting_ids (book sample_processor)"
    by (simp_all add: sample_processor_def resting_ids_def all_nodes_def sample_resting_def)
  have mt: "match sample_clock (Suc (reads sample_processor)) (book sample_processor) ?ord [] =
     (None, \<lparr>bids = [], asks = [], order_map = Map.empty, next_addr = 1\<rparr>,
      \<lparr>remaining_quantity = 0, omap = Map.empty, trades = [?tr], ticks = 4\<rparr>)"
    using sample_taker_fill by (simp add: sample_processor_def sample_clock_def)
  have tr: "?tr \<in> set (trades \<lparr>remaining_quantity = 0, omap = Map.empty, trades = [?tr], ticks = 4\<rparr>)"
    "counterparty ?ord ?tr = 1" by (simp_all add: counterparty_def)
  obtain s1 where s1: "disconnect_client sample_os 5 (sample_server []) = Inr s1"
    using disconnect_eq [OF sample_client] by blast
  have m: "([1 \<mapsto> 5] :: OrderId \<rightharpoonup> fd) 1 = Some 5" "in_type sample_taker = NEW_ORDER" "22 \<le> length (in_payload sample_taker)"
    by (simp_all add: sample_taker_def)
  obtain p' outs where "process LE sample_clock sample_taker sample_processor = Inr (p', outs)"
    "\<lparr>out_fd = 5, out_payload = frame TRADE (trade_payload LE ?tr)\<rparr> \<in> set outs"
    "client_at 5 (queue_output \<lparr>out_fd = 5, out_payload = frame TRADE (trade_payload LE ?tr)\<rparr> (add_client 5 s1)) =
       Inr (empty_client\<lparr>active := True, write_buffer := frame TRADE (trade_payload LE ?tr)\<rparr>)"
    using reused_descriptor_gets_old_fills [OF sample_processor_routed m(1) ids(2) m(2,3) f ids(1) mt tr _ s1] by auto
  then show ?thesis using s1 by (intro exI [of _ p'] exI [of _ outs] exI [of _ s1] conjI bexI) simp_all
qed

end
