(* ===== verification/Network_Utils.thy ===== *)
theory Network_Utils
  imports Server_Props
begin

text \<open>
  The client side's blocking reads: \<^verbatim>\<open>src/network_utils.cpp\<close>. \<open>read_exact\<close> loops until the bytes
  asked for are there or \<^verbatim>\<open>recv\<close> returns no data, whatever the reason; its fuel counts the calls.
\<close>

section \<open>Operations\<close>

fun read_exact ::
  "'k os \<Rightarrow> fd \<Rightarrow> nat \<Rightarrow> nat \<Rightarrow> nat \<Rightarrow> byte list \<Rightarrow> 'k \<Rightarrow> (bool \<times> byte list \<times> 'k) result option" where
  "read_exact os f 0 n total_read buffer k = (if total_read < n then None else Some (Inr (True, buffer, k)))"
| "read_exact os f (Suc fuel) n total_read buffer k =
     (if total_read < n then
        (case os_recv os f (n - total_read) k of
           (Recv_data bs, k) \<Rightarrow>
             (case mem_write total_read bs buffer of
                Inl x \<Rightarrow> Some (Inl x)
              | Inr buffer \<Rightarrow> read_exact os f fuel n (total_read + length bs) buffer k)
         | (_, k) \<Rightarrow> Some (Inr (False, buffer, k)))
      else Some (Inr (True, buffer, k)))"

definition read_message ::
  "endian \<Rightarrow> 'k os \<Rightarrow> fd \<Rightarrow> nat \<Rightarrow> Message \<Rightarrow> 'k \<Rightarrow> (bool \<times> Message \<times> 'k) result option" where
  "read_message e os f fuel message k =
     opt_bind (read_exact os f fuel 5 0 (replicate 5 0) k) (\<lambda>(ok, header, k).
       if \<not> ok then Some (Inr (False, message, k))
       else
         let message = message\<lparr>msg_type := hd header\<rparr>
         in opt_bind (Some (read_object e 1 header)) (\<lambda>net_payload_length.
              let payload_length = ntohl e net_payload_length;
                  message = message\<lparr>payload := vec_resize (unat payload_length) (payload message)\<rparr>
              in opt_bind (read_exact os f fuel (unat payload_length) 0 (payload message) k) (\<lambda>(ok, bytes, k).
                   Some (Inr (ok, message\<lparr>payload := bytes\<rparr>, k)))))"

text \<open>A blocking socket: \<^verbatim>\<open>recv\<close> waits for data as long as the peer has some to send.\<close>

definition recv_waits :: "'k os \<Rightarrow> ('k \<Rightarrow> fd \<Rightarrow> byte list) \<Rightarrow> bool" where
  "recv_waits os left \<longleftrightarrow> (\<forall>f n k. 0 < n \<and> left k f \<noteq> [] \<longrightarrow> (\<exists>bs k'. os_recv os f n k = (Recv_data bs, k')))"

section \<open>Lemmas\<close>

lemma read_exact_ok:
  assumes os: "recv_ok os left" and w: "recv_waits os left"
  shows "got \<le> n \<Longrightarrow> length buf = n \<Longrightarrow> n - got \<le> length (left k f) \<Longrightarrow> n - got \<le> fuel \<Longrightarrow>
    \<exists>k'. read_exact os f fuel n got buf k =
        Some (Inr (True, take got buf @ take (n - got) (left k f), k'))
      \<and> left k' f = drop (n - got) (left k f)"
proof (induction fuel arbitrary: got buf k)
  case (Suc fuel)
  show ?case
  proof (cases "got < n")
    case False
    then show ?thesis using Suc.prems by auto
  next
    case True
    then have pos: "0 < n - got" "left k f \<noteq> []" using Suc.prems(3) by auto
    then obtain bs k1 where r: "os_recv os f (n - got) k = (Recv_data bs, k1)" using w unfolding recv_waits_def by blast
    have "bs \<noteq> [] \<and> length bs \<le> n - got \<and> left k f = bs @ left k1 f"
      by (rule recv_cases [OF os pos(1), of f k]) (use r in simp_all)
    then have b: "bs \<noteq> []" "length bs \<le> n - got" "left k f = bs @ left k1 f" by simp_all
    have len: "got + length bs \<le> length buf" using b(2) Suc.prems(1,2) by linarith
    obtain buf' where m: "mem_write got bs buf = Inr buf'" "length buf' = length buf"
      "take (got + length bs) buf' = take got buf @ bs"
      using mem_write_fill [OF len] by blast
    have "0 < length bs" "length (left k f) = length bs + length (left k1 f)" using b(1) by (simp_all add: b(3))
    then have "n - (got + length bs) \<le> fuel" "n - (got + length bs) \<le> length (left k1 f)" "got + length bs \<le> n"
      using b(2) Suc.prems(1,3,4) by linarith+
    from Suc.IH [OF this(3) _ this(2,1)] m(2) Suc.prems(2)
    obtain k' where "read_exact os f fuel n (got + length bs) buf' k1 =
        Some (Inr (True, take (got + length bs) buf' @ take (n - (got + length bs)) (left k1 f), k'))"
      "left k' f = drop (n - (got + length bs)) (left k1 f)" by auto
    then show ?thesis using True r m(1,3) b(2,3) by simp
  qed
qed auto

lemma read_message_frame:
  assumes "recv_ok os left" and "recv_waits os left" and "left k f = frame t p @ rest"
    and "length p < 2 ^ 32" and "5 + length p \<le> fuel"
  shows "\<exists>k'. read_message e os f fuel message k = Some (Inr (True, \<lparr>msg_type = t, payload = p\<rparr>, k'))
    \<and> left k' f = rest"
proof -
  let ?len = "object_bytes BE (of_nat (length p) :: 32 word)"
  have "\<exists>k1. read_exact os f fuel 5 0 (replicate 5 0) k =
      Some (Inr (True, take 0 (replicate 5 0) @ take (5 - 0) (left k f), k1)) \<and> left k1 f = drop (5 - 0) (left k f)"
    using assms(3,5) by (intro read_exact_ok [OF assms(1,2)]) simp_all
  then obtain k1 where h: "read_exact os f fuel 5 0 (replicate 5 0) k = Some (Inr (True, t # ?len, k1))"
    "left k1 f = p @ rest"
    using assms(3) by (auto simp: frame_def)
  let ?m = "vec_resize (length p) (payload message)"
  have "\<exists>k2. read_exact os f fuel (length p) 0 ?m k1 =
      Some (Inr (True, take 0 ?m @ take (length p - 0) (left k1 f), k2)) \<and> left k2 f = drop (length p - 0) (left k1 f)"
    using assms(5) h(2) by (intro read_exact_ok [OF assms(1,2)]) simp_all
  then obtain k2 where "read_exact os f fuel (length p) 0 ?m k1 = Some (Inr (True, p, k2))" "left k2 f = rest"
    using h(2) by auto
  moreover have "read_object e 1 (t # ?len) = Inr (object_value e ?len :: 32 word)"
    by (simp add: read_object_compute)
  moreover have "unat (ntohl e (object_value e ?len :: 32 word)) = length p"
    using assms(4) by (simp add: ntohl_network unat_of_nat)
  ultimately show ?thesis
    using h(1) by (simp add: read_message_def opt_bind_def Let_def)
qed

section \<open>Properties\<close>

text \<open>
  C31: A blocking read takes exactly one frame. When the peer's stream begins with a frame, on a socket
  whose \<^verbatim>\<open>recv\<close> delivers it in any pieces, \<^verbatim>\<open>read_message\<close> returns true with the frame's type and
  payload, and the stream goes on behind the frame; the calls of \<^verbatim>\<open>recv\<close> are at most one per byte.
\<close>

theorem read_message_takes_one_frame:
  assumes "recv_ok os left" and "recv_waits os left" and "left k f = frame t p @ rest"
    and "length p < 2 ^ 32" and "5 + length p \<le> fuel"
  shows "\<exists>k'. read_message e os f fuel message k = Some (Inr (True, \<lparr>msg_type = t, payload = p\<rparr>, k'))
    \<and> left k' f = rest"
  by (rule read_message_frame [OF assms])

lemma sample_recv_waits: "recv_waits sample_os sample_left"
proof -
  have "\<exists>bs k'. sample_recv f n k = (Recv_data bs, k')" if "concat (pieces k f) \<noteq> []" for f n k
    using that concat_filter_Nil [of "pieces k f"]
    by (cases "filter (\<lambda>p. p \<noteq> []) (pieces k f)") (simp_all add: sample_recv_def)
  then show ?thesis by (simp add: recv_waits_def sample_os_def sample_left_def)
qed

theorem read_message_takes_one_frame_witness:
  "\<exists>k'. read_message LE sample_os 5 20 \<lparr>msg_type = 0, payload = []\<rparr>
     \<lparr>pieces = (\<lambda>f. []) (5 := [[3, 0, 0], [0, 1], [9, 8]]), sent_bytes = \<lambda>f. []\<rparr> =
       Some (Inr (True, \<lparr>msg_type = 3, payload = [9]\<rparr>, k')) \<and> sample_left k' 5 = [8]"
proof -
  let ?k = "\<lparr>pieces = (\<lambda>f. []) (5 := [[3, 0, 0], [0, 1], [9, 8]]), sent_bytes = \<lambda>f. []\<rparr>"
  have "sample_left ?k 5 = frame 3 [9] @ [8]"
    by (simp add: sample_left_def frame_def object_bytes_def host_order_def nat_bytes_numeral)
  from read_message_takes_one_frame [OF sample_recv_ok sample_recv_waits this, of 20 LE] show ?thesis by simp
qed

end
