(* ===== verification/Client.thy ===== *)
theory Client
  imports Network_Utils Server_Output "HOL-Library.Signed_Division"
begin

text \<open>
  The load-generating client: \<^verbatim>\<open>src/order_simulator.cpp\<close>, \<^verbatim>\<open>src/exchange_client.cpp\<close> and
  the thread function of \<^verbatim>\<open>src/client_main.cpp\<close>. The random number generator and its distributions are parameters: a
  draw takes the generator's state to a value and a new state. The price draw is the sampled
  \<^verbatim>\<open>double\<close> after \<^verbatim>\<open>std::llround\<close>.
\<close>

section \<open>The order simulator\<close>

record 'r draws =
  side_dist :: "'r \<Rightarrow> int \<times> 'r"
  order_type_dist :: "'r \<Rightarrow> int \<times> 'r"
  price_dist :: "Price \<Rightarrow> 'r \<Rightarrow> int \<times> 'r"
  quantity_dist :: "'r \<Rightarrow> Quantity \<times> 'r"

record 'r simulator =
  id_counter :: OrderId
  center_price :: Price
  rng :: 'r

definition new_simulator :: "Price \<Rightarrow> OrderId \<Rightarrow> 'r \<Rightarrow> 'r simulator" where
  "new_simulator cp starting_id seed = \<lparr>id_counter = starting_id, center_price = cp, rng = seed\<rparr>"

definition generate_order :: "'r draws \<Rightarrow> Timestamp \<Rightarrow> 'r simulator \<Rightarrow> order result \<times> 'r simulator" where
  "generate_order d now sim =
     (case side_dist d (rng sim) of (s, g) \<Rightarrow>
      case order_type_dist d g of (ty, g) \<Rightarrow>
      let side = (if s = 0 then BID else ASK); orderType = (if ty = 0 then LIMIT else MARKET)
      in case (if orderType = LIMIT then price_dist d (center_price sim) g else (0, g)) of (rounded, g) \<Rightarrow>
      let price = (if orderType = LIMIT then of_int (if rounded < 1 then 1 else rounded) else 0)
      in case quantity_dist d g of (quantity, g) \<Rightarrow>
         ((case make_order now (id_counter sim) price quantity side orderType of
             Inl x \<Rightarrow> Inl (Throw x) | Inr ord \<Rightarrow> Inr ord),
          sim\<lparr>id_counter := id_counter sim + 1, rng := g\<rparr>))"

text \<open>The loop of \<^verbatim>\<open>generate_n_orders\<close>; \<open>t\<close> counts the clock readings.\<close>

fun generate_loop ::
  "'r draws \<Rightarrow> clock \<Rightarrow> nat \<Rightarrow> nat \<Rightarrow> 'r simulator \<Rightarrow> order list result \<times> 'r simulator" where
  "generate_loop d clk t 0 sim = (Inr [], sim)"
| "generate_loop d clk t (Suc n) sim =
     (case generate_order d (clk t) sim of
        (Inl x, sim) \<Rightarrow> (Inl x, sim)
      | (Inr ord, sim) \<Rightarrow>
          (case generate_loop d clk (Suc t) n sim of
             (Inl x, sim) \<Rightarrow> (Inl x, sim)
           | (Inr ords, sim) \<Rightarrow> (Inr (ord # ords), sim)))"

definition generate_n_orders ::
  "'r draws \<Rightarrow> clock \<Rightarrow> nat \<Rightarrow> int \<Rightarrow> 'r simulator \<Rightarrow> order list result \<times> 'r simulator" where
  "generate_n_orders d clk t n sim =
     (if n < 0 then (Inl (Throw (Length_error ''vector::reserve'')), sim)
      else generate_loop d clk t (nat n) sim)"

text \<open>
  What the distributions promise: a quantity in the closed interval of the constructor's arguments,
  and a rounded price that fits a \<^verbatim>\<open>long long\<close>.
\<close>

definition draws_ok :: "'r draws \<Rightarrow> bool" where
  "draws_ok d \<longleftrightarrow> (\<forall>g. 1 \<le> fst (quantity_dist d g) \<and> fst (quantity_dist d g) \<le> 1000)
     \<and> (\<forall>cp g. fst (price_dist d cp g) < 2 ^ 63)"

section \<open>The client\<close>

definition NUM_ORDERS :: nat where "NUM_ORDERS = 1000000"
definition BATCH_SIZE :: nat where "BATCH_SIZE = 10000"

text \<open>
  The call of \<^verbatim>\<open>send\<close>, whose result is ignored: it has no flags, so that sending to a closed peer ends the
  process.
\<close>

definition client_send :: "'k os \<Rightarrow> fd \<Rightarrow> byte list \<Rightarrow> 'k \<Rightarrow> 'k result" where
  "client_send os f msg_buffer k = (case os_send os f msg_buffer k of (Send_pipe, k) \<Rightarrow> Inl Sigpipe | (_, k) \<Rightarrow> Inr k)"

lemma client_send_Sent [simp]: "os_send os f bs k = (Sent n, k') \<Longrightarrow> client_send os f bs k = Inr k'"
  by (simp add: client_send_def)

text \<open>
  Sending \<open>n\<close> orders: each is serialized into the cleared buffer and sent. \<open>send_batches\<close> is the loop over
  the batches.
\<close>

fun send_orders ::
  "endian \<Rightarrow> 'k os \<Rightarrow> 'r draws \<Rightarrow> clock \<Rightarrow> fd \<Rightarrow> nat \<Rightarrow> nat \<Rightarrow> 'r simulator \<Rightarrow> 'k \<Rightarrow> ('r simulator \<times> 'k) result" where
  "send_orders e os d clk f t 0 sim k = Inr (sim, k)"
| "send_orders e os d clk f t (Suc n) sim k =
     (case generate_order d (clk t) sim of
        (Inl x, sim) \<Rightarrow> Inl x
      | (Inr ord, sim) \<Rightarrow>
          result_bind (serialize_order e ord []) (\<lambda>msg_buffer.
            result_bind (client_send os f msg_buffer k) (send_orders e os d clk f (Suc t) n sim)))"

fun send_batches ::
  "endian \<Rightarrow> 'k os \<Rightarrow> 'r draws \<Rightarrow> clock \<Rightarrow> fd \<Rightarrow> nat \<Rightarrow> nat \<Rightarrow> 'r simulator \<Rightarrow> 'k \<Rightarrow> ('r simulator \<times> 'k) result" where
  "send_batches e os d clk f t 0 sim k = Inr (sim, k)"
| "send_batches e os d clk f t (Suc batches) sim k =
     result_bind (send_orders e os d clk f t BATCH_SIZE sim k) (\<lambda>(sim, k).
       send_batches e os d clk f (t + BATCH_SIZE) batches sim k)"

text \<open>
  \<^verbatim>\<open>run\<close> reads the clock before the first and after the last order and prints the rate, which divides
  by the elapsed milliseconds: a division by zero when there are none. The printed text is left out.
\<close>

definition elapsed_ms :: "Timestamp \<Rightarrow> Timestamp \<Rightarrow> int" where
  "elapsed_ms t0 t1 = (sint t1 - sint t0) sdiv 1000000"

definition client_run ::
  "endian \<Rightarrow> 'k os \<Rightarrow> 'r draws \<Rightarrow> clock \<Rightarrow> fd \<Rightarrow> 'r simulator \<Rightarrow> 'k \<Rightarrow> ('r simulator \<times> 'k) result" where
  "client_run e os d clk f sim k =
     result_bind (send_batches e os d clk f 1 (NUM_ORDERS div BATCH_SIZE) sim k) (\<lambda>(sim, k).
       if elapsed_ms (clk 0) (clk (Suc NUM_ORDERS)) = 0 then Inl UB else Inr (sim, os_close os f k))"

definition client_connect :: "'k os \<Rightarrow> string \<Rightarrow> 16 word \<Rightarrow> 'k \<Rightarrow> fd result \<times> 'k" where
  "client_connect os host p k =
     (case os_socket os k of (f, k) \<Rightarrow>
        if f = - 1 then (Inl (Throw (Runtime_error ''socket creation failed'')), k)
        else (case os_connect os f host p k of
                (False, k) \<Rightarrow> (Inl (Throw (Runtime_error ''failed to connect'')), k)
              | (True, k) \<Rightarrow> (Inr f, os_nodelay os f k)))"

text \<open>
  \<^verbatim>\<open>client_main.cpp\<close>: the first order id of a thread, in unsigned 64-bit arithmetic, and the thread.
  An exception is caught and its text printed: the thread then ends with that text.
\<close>

definition starting_id :: "int \<Rightarrow> OrderId" where
  "starting_id thread_id = of_int (thread_id + 1) * 100000000"

definition run_client_thread ::
  "endian \<Rightarrow> 'k os \<Rightarrow> 'r draws \<Rightarrow> clock \<Rightarrow> 'r \<Rightarrow> int \<Rightarrow> 'k \<Rightarrow> (string + 'r simulator \<times> 'k) result" where
  "run_client_thread e os d clk seed thread_id k =
     (let simulator = new_simulator 1000 (starting_id thread_id) seed
      in case (case client_connect os ''127.0.0.1'' 8080 k of
                 (Inl x, k) \<Rightarrow> Inl x
               | (Inr f, k) \<Rightarrow> client_run e os d clk f simulator k) of
           Inl (Throw x) \<Rightarrow> Inr (Inl (what x))
         | Inl f \<Rightarrow> Inl f
         | Inr r \<Rightarrow> Inr (Inr r))"

section \<open>Lemmas\<close>

lemma client_send_sample [simp]: "client_send sample_os f bs k = Inr (snd (sample_send f bs k))"
  by (simp add: client_send_def sample_os_def sample_send_def)

text \<open>The ids that a simulator gives to its next \<open>n\<close> orders.\<close>

definition next_ids :: "OrderId \<Rightarrow> nat \<Rightarrow> OrderId list" where
  "next_ids i n = map (\<lambda>j. i + of_nat j) [0..<n]"

lemma next_ids_Suc: "next_ids i (Suc n) = i # next_ids (i + 1) n"
proof -
  have "[0..<Suc n] = 0 # map Suc [0..<n]" by (simp add: map_Suc_upt upt_conv_Cons del: upt_Suc)
  then show ?thesis by (simp add: next_ids_def add.assoc)
qed

lemma next_ids_0 [simp]: "next_ids i 0 = []"
  by (simp add: next_ids_def)

lemma length_next_ids [simp]: "length (next_ids i n) = n"
  by (simp add: next_ids_def)

lemma next_ids_add: "next_ids i (m + n) = next_ids i m @ next_ids (i + of_nat m) n"
  by (induction m arbitrary: i) (simp_all add: next_ids_Suc add.assoc)

text \<open>An order that a client may submit: the constructor and the matching engine accept it.\<close>

definition submittable :: "order \<Rightarrow> bool" where
  "submittable ord \<longleftrightarrow> order_valid ord \<and> o_side ord \<in> {BID, ASK} \<and> o_type ord \<in> {LIMIT, MARKET}"

lemma clamped_price_positive:
  assumes "z < 2 ^ 63"
  shows "(0 :: Price) < of_int (if z < 1 then 1 else z)"
proof -
  define y where "y = (if z < 1 then 1 else z)"
  have "1 \<le> y" "y < 2 ^ 64" using assms by (auto simp: y_def)
  then have "uint (of_int y :: Price) = y" by (simp add: uint_word_of_int)
  then show ?thesis using \<open>1 \<le> y\<close> by (simp add: word_less_def y_def [symmetric])
qed

lemma generate_order_ok:
  assumes "draws_ok d"
  obtains ord g where "generate_order d now sim = (Inr ord, sim\<lparr>id_counter := id_counter sim + 1, rng := g\<rparr>)"
    "submittable ord" "o_id ord = id_counter sim" "o_timestamp ord = now"
proof -
  obtain s g1 where 1: "side_dist d (rng sim) = (s, g1)" by (cases "side_dist d (rng sim)")
  obtain ty g2 where 2: "order_type_dist d g1 = (ty, g2)" by (cases "order_type_dist d g1")
  obtain z g3 where 3: "(if ty = 0 then price_dist d (center_price sim) g2 else (0, g2)) = (z, g3)" by fastforce
  obtain q g4 where 4: "quantity_dist d g3 = (q, g4)" by (cases "quantity_dist d g3")
  let ?price = "if ty = 0 then of_int (if z < 1 then 1 else z) else (0 :: Price)"
  let ?ord = "\<lparr>o_timestamp = now, o_id = id_counter sim, o_price = ?price, o_quantity = q,
      o_side = (if s = 0 then BID else ASK), o_type = (if ty = 0 then LIMIT else MARKET)\<rparr>"
  have "1 \<le> q" using assms 4 unfolding draws_ok_def by (metis fst_conv)
  then have q: "0 < q" by (metis less_le_trans word_zero_le zero_neq_one order_neq_le_trans)
  have p: "0 < ?price" if "ty = 0"
  proof -
    have "z < 2 ^ 63" using assms 3 that unfolding draws_ok_def by (metis fst_conv)
    then show ?thesis using clamped_price_positive [of z] that by simp
  qed
  have "generate_order d now sim = (Inr ?ord, sim\<lparr>id_counter := id_counter sim + 1, rng := g4\<rparr>)"
    using p q 3 4 by (auto simp: generate_order_def 1 2 make_order_ok Let_def split: if_splits)
  moreover have "submittable ?ord" using p q by (auto simp: submittable_def order_valid_def)
  ultimately show ?thesis by (rule that) simp_all
qed

lemma generate_loop_ok:
  "draws_ok d \<Longrightarrow> \<exists>ords sim'. generate_loop d clk t n sim = (Inr ords, sim')
     \<and> list_all submittable ords \<and> map o_id ords = next_ids (id_counter sim) n
     \<and> id_counter sim' = id_counter sim + of_nat n"
proof (induction n arbitrary: t sim)
  case (Suc n)
  obtain ord g where o: "generate_order d (clk t) sim = (Inr ord, sim\<lparr>id_counter := id_counter sim + 1, rng := g\<rparr>)"
    "submittable ord" "o_id ord = id_counter sim" "o_timestamp ord = clk t"
    by (rule generate_order_ok [OF Suc.prems])
  obtain ords sim' where "generate_loop d clk (Suc t) n (sim\<lparr>id_counter := id_counter sim + 1, rng := g\<rparr>) = (Inr ords, sim')"
    "list_all submittable ords" "map o_id ords = next_ids (id_counter sim + 1) n"
    "id_counter sim' = id_counter sim + 1 + of_nat n"
    using Suc.IH [OF Suc.prems, of "Suc t" "sim\<lparr>id_counter := id_counter sim + 1, rng := g\<rparr>"] by auto
  then show ?case using o(1-3) by (simp add: next_ids_Suc)
qed simp

text \<open>A client's socket takes every message whole.\<close>

definition sends_all :: "'k os \<Rightarrow> fd \<Rightarrow> bool" where
  "sends_all os f \<longleftrightarrow> (\<forall>bs k. fst (os_send os f bs k) = Sent (length bs))"

definition order_frames :: "endian \<Rightarrow> order list \<Rightarrow> (MessageType \<times> byte list) list" where
  "order_frames e ords = map (\<lambda>ord. (NEW_ORDER, order_payload e ord)) ords"

lemma send_orders_ok:
  assumes d: "draws_ok d" and os: "send_ok os wire" and sa: "sends_all os f"
  shows "\<exists>ords sim' k'. send_orders e os d clk f t n sim k = Inr (sim', k')
     \<and> list_all submittable ords \<and> map o_id ords = next_ids (id_counter sim) n
     \<and> id_counter sim' = id_counter sim + of_nat n \<and> wire k' f = wire k f @ frames (order_frames e ords)"
proof (induction n arbitrary: t sim k)
  case 0
  show ?case by (intro exI [of _ "[]"]) (simp add: order_frames_def)
next
  case (Suc n)
  obtain ord g where o: "generate_order d (clk t) sim = (Inr ord, sim\<lparr>id_counter := id_counter sim + 1, rng := g\<rparr>)"
    "submittable ord" "o_id ord = id_counter sim" "o_timestamp ord = clk t"
    by (rule generate_order_ok [OF d])
  let ?sim = "sim\<lparr>id_counter := id_counter sim + 1, rng := g\<rparr>" and ?bs = "frame NEW_ORDER (order_payload e ord)"
  obtain r k1 where r: "os_send os f ?bs k = (r, k1)" by (cases "os_send os f ?bs k")
  then have s: "r = Sent (length ?bs)" using sa unfolding sends_all_def by (metis fst_conv)
  then have w: "wire k1 f = wire k f @ ?bs" using send_facts(2) [OF os r] by simp
  obtain ords sim' k' where h: "send_orders e os d clk f (Suc t) n ?sim k1 = Inr (sim', k')"
    "list_all submittable ords" "map o_id ords = next_ids (id_counter sim + 1) n"
    "id_counter sim' = id_counter sim + 1 + of_nat n" "wire k' f = wire k1 f @ frames (order_frames e ords)"
    using Suc.IH [of "Suc t" ?sim k1] by auto
  then show ?case
    using o(1-3) r s w
    by (intro exI [of _ "ord # ords"] exI [of _ sim'] exI [of _ k'])
      (simp add: serialize_order_frame next_ids_Suc order_frames_def)
qed

lemma send_batches_ok:
  assumes d: "draws_ok d" and os: "send_ok os wire" and sa: "sends_all os f"
  shows "\<exists>ords sim' k'. send_batches e os d clk f t n sim k = Inr (sim', k')
     \<and> list_all submittable ords \<and> map o_id ords = next_ids (id_counter sim) (n * BATCH_SIZE)
     \<and> id_counter sim' = id_counter sim + of_nat (n * BATCH_SIZE) \<and> wire k' f = wire k f @ frames (order_frames e ords)"
proof (induction n arbitrary: t sim k)
  case 0
  show ?case by (intro exI [of _ "[]"]) (simp add: order_frames_def)
next
  case (Suc n)
  obtain ords sim1 k1 where 1: "send_orders e os d clk f t BATCH_SIZE sim k = Inr (sim1, k1)"
    "list_all submittable ords" "map o_id ords = next_ids (id_counter sim) BATCH_SIZE"
    "id_counter sim1 = id_counter sim + of_nat BATCH_SIZE" "wire k1 f = wire k f @ frames (order_frames e ords)"
    using send_orders_ok [OF d os sa, of e clk t BATCH_SIZE sim k] by blast
  obtain ords' sim2 k2 where 2: "send_batches e os d clk f (t + BATCH_SIZE) n sim1 k1 = Inr (sim2, k2)"
    "list_all submittable ords'" "map o_id ords' = next_ids (id_counter sim1) (n * BATCH_SIZE)"
    "id_counter sim2 = id_counter sim1 + of_nat (n * BATCH_SIZE)" "wire k2 f = wire k1 f @ frames (order_frames e ords')"
    using Suc.IH [of "t + BATCH_SIZE" sim1 k1] by blast
  show ?case
    using 1 2 by (intro exI [of _ "ords @ ords'"] exI [of _ sim2] exI [of _ k2])
      (simp add: order_frames_def next_ids_add add.assoc)
qed

lemma client_run_ok:
  assumes "draws_ok d" and "send_ok os wire" and "sends_all os f"
  shows "if elapsed_ms (clk 0) (clk 1000001) = 0 then client_run e os d clk f sim k = Inl UB
    else \<exists>ords sim' k'. client_run e os d clk f sim k = Inr (sim', k') \<and> length ords = 1000000
      \<and> list_all submittable ords \<and> map o_id ords = next_ids (id_counter sim) 1000000
      \<and> wire k' f = wire k f @ frames (order_frames e ords)"
proof -
  have total: "NUM_ORDERS div BATCH_SIZE * BATCH_SIZE = 1000000" by (simp add: NUM_ORDERS_def BATCH_SIZE_def)
  have readings: "Suc NUM_ORDERS = 1000001" by (simp add: NUM_ORDERS_def)
  obtain ords sim' k' where h: "send_batches e os d clk f 1 (NUM_ORDERS div BATCH_SIZE) sim k = Inr (sim', k')"
    "list_all submittable ords" "map o_id ords = next_ids (id_counter sim) 1000000"
    "wire k' f = wire k f @ frames (order_frames e ords)"
    using send_batches_ok [OF assms(1-3), of e clk 1 "NUM_ORDERS div BATCH_SIZE" sim k] unfolding total by blast
  have "length (map o_id ords) = 1000000" unfolding h(3) by (rule length_next_ids)
  then have "length ords = 1000000" by simp
  then have "\<exists>ords sim' k'. client_run e os d clk f sim k = Inr (sim', k') \<and> length ords = 1000000
      \<and> list_all submittable ords \<and> map o_id ords = next_ids (id_counter sim) 1000000
      \<and> wire k' f = wire k f @ frames (order_frames e ords)"
    if "elapsed_ms (clk 0) (clk 1000001) \<noteq> 0"
    using h send_ok_calls(3) [OF assms(2)] that
    by (intro exI [of _ ords] exI [of _ sim'] exI [of _ "os_close os f k'"]) (simp add: client_run_def readings)
  then show ?thesis using h(1) by (simp add: client_run_def readings)
qed

text \<open>
  The ids that the threads give to their orders: two orders of the \<^verbatim>\<open>NUM_ORDERS\<close> of each thread have
  different ids unless they are the same order of the same thread, for every number of threads that
  an \<^verbatim>\<open>int\<close> can count. The 64-bit arithmetic does not wrap.
\<close>

lemma starting_ids_disjoint:
  assumes "0 \<le> i" and "i < 2 ^ 31 - 1" and "0 \<le> j" and "j < 2 ^ 31 - 1" and "m < NUM_ORDERS" and "n < NUM_ORDERS"
    and "starting_id i + of_nat m = starting_id j + of_nat n"
  shows "i = j \<and> m = n"
proof -
  have u: "uint (starting_id z + of_nat l) = (z + 1) * 100000000 + int l"
    if "0 \<le> z" "z < 2 ^ 31 - 1" "l < 1000000" for z l
  proof -
    have "starting_id z + of_nat l = of_int ((z + 1) * 100000000 + int l)"
      by (simp add: starting_id_def)
    moreover have "0 \<le> (z + 1) * 100000000 + int l" "(z + 1) * 100000000 + int l < 18446744073709551616"
      using that by auto
    ultimately show ?thesis by (simp only: uint_word_of_int) simp
  qed
  have mn: "m < 1000000" "n < 1000000" using assms(5,6) unfolding NUM_ORDERS_def by simp_all
  have eq: "(i + 1) * 100000000 + int m = (j + 1) * 100000000 + int n"
    using u [OF assms(1,2) mn(1)] u [OF assms(3,4) mn(2)] by (simp only: assms(7))
  have "i = ((i + 1) * 100000000 + int m) div 100000000 - 1" using mn by simp
  also have "\<dots> = j" unfolding eq using mn by simp
  finally have "i = j" .
  then show ?thesis using eq by simp
qed

section \<open>Properties\<close>

text \<open>
  C33: The simulator's orders are accepted. For every \<open>n \<ge> 0\<close> and every draw of the distributions,
  \<^verbatim>\<open>generate_n_orders\<close> throws nothing and returns \<open>n\<close> orders, each of a kind the exchange accepts, with
  consecutive ids from the counter on; a negative \<open>n\<close> is refused by \<^verbatim>\<open>reserve\<close>, which throws.
\<close>

theorem generated_orders_are_accepted:
  assumes "draws_ok d"
  shows "case generate_n_orders d clk t n sim of
      (Inl x, _) \<Rightarrow> n < 0 \<and> x = Throw (Length_error ''vector::reserve'')
    | (Inr ords, sim') \<Rightarrow> 0 \<le> n \<and> list_all submittable ords \<and> map o_id ords = next_ids (id_counter sim) (nat n)
        \<and> id_counter sim' = id_counter sim + of_nat (nat n)"
  using generate_loop_ok [OF assms, of clk t "nat n" sim] by (auto simp: generate_n_orders_def)

text \<open>A generator whose state is a counter.\<close>

definition sample_draws :: "nat draws" where
  "sample_draws = \<lparr>side_dist = \<lambda>g. (int (g mod 2), g + 1), order_type_dist = \<lambda>g. (int (g mod 2), g + 1),
     price_dist = \<lambda>cp g. (uint cp div 2 - 5, g + 1), quantity_dist = \<lambda>g. (10, g + 1)\<rparr>"

lemma sample_draws_ok: "draws_ok sample_draws"
proof -
  have "uint cp div 2 - 5 < 2 ^ 63" for cp :: Price using uint_lt2p [of cp] by simp
  then show ?thesis by (simp add: draws_ok_def sample_draws_def)
qed

theorem generated_orders_are_accepted_witness:
  "\<exists>ords sim'. generate_n_orders sample_draws sample_clock 0 2 (new_simulator 1000 7 0) = (Inr ords, sim')
     \<and> map o_id ords = [7, 8]"
  using generated_orders_are_accepted [OF sample_draws_ok, where clk = sample_clock and t = 0 and n = 2
      and sim = "new_simulator 1000 7 0"]
  by (auto simp: new_simulator_def next_ids_Suc numeral_2_eq_2 split: prod.splits sum.splits)

text \<open>
  C32: What a client thread puts on the wire. When the connection is refused, the thread ends with the
  text of the exception. When it is made, and if the connection's socket takes every message whole, the
  thread sends one million new-order frames, of acceptable orders with consecutive ids from its starting
  id; it then ends, unless the run took less than a millisecond: the rate is then a division by zero.
\<close>

theorem client_thread_sends_orders:
  assumes "draws_ok d" and "send_ok os wire"
  shows "case client_connect os ''127.0.0.1'' 8080 k of
      (Inl f, k1) \<Rightarrow> (\<exists>x. f = Throw x \<and> run_client_thread e os d clk seed i k = Inr (Inl (what x)))
    | (Inr f, k1) \<Rightarrow> sends_all os f \<longrightarrow>
        (if elapsed_ms (clk 0) (clk 1000001) = 0 then run_client_thread e os d clk seed i k = Inl UB
         else \<exists>ords sim' k'. run_client_thread e os d clk seed i k = Inr (Inr (sim', k'))
           \<and> length ords = 1000000 \<and> list_all submittable ords
           \<and> map o_id ords = next_ids (starting_id i) 1000000
           \<and> wire k' f = wire k1 f @ frames (order_frames e ords))"
proof -
  obtain r k1 where c: "client_connect os ''127.0.0.1'' 8080 k = (r, k1)" by fastforce
  show ?thesis
  proof (cases r)
    case (Inl f)
    then have "\<exists>x. f = Throw x" using c by (auto simp: client_connect_def split: prod.splits if_splits bool.splits)
    then show ?thesis using Inl c by (auto simp: run_client_thread_def)
  next
    case (Inr f)
    let ?sim = "new_simulator 1000 (starting_id i) seed"
    have run: "run_client_thread e os d clk seed i k = (case client_run e os d clk f ?sim k1 of
        Inl (Throw x) \<Rightarrow> Inr (Inl (what x)) | Inl y \<Rightarrow> Inl y | Inr r \<Rightarrow> Inr (Inr r))"
      using Inr c by (simp add: run_client_thread_def)
    have ids: "id_counter ?sim = starting_id i" by (simp add: new_simulator_def)
    note sent = client_run_ok [OF assms, of f clk e ?sim k1, unfolded ids]
    show ?thesis
    proof (cases "elapsed_ms (clk 0) (clk 1000001) = 0")
      case True
      then show ?thesis using sent Inr c run by simp
    next
      case False
      have "\<exists>ords sim' k'. run_client_thread e os d clk seed i k = Inr (Inr (sim', k'))
           \<and> length ords = 1000000 \<and> list_all submittable ords
           \<and> map o_id ords = next_ids (starting_id i) 1000000
           \<and> wire k' f = wire k1 f @ frames (order_frames e ords)" if "sends_all os f"
        using sent [OF that] False run by (simp del: split_paired_Ex) (metis (no_types, lifting) sum.simps(6))
      then show ?thesis using False Inr c by simp
    qed
  qed
qed

theorem client_thread_sends_orders_witness:
  "\<exists>ords sim' k'. run_client_thread LE sample_os sample_draws (\<lambda>n. of_nat n * 1000) 0 0
      \<lparr>pieces = \<lambda>f. [], sent_bytes = \<lambda>f. []\<rparr> = Inr (Inr (sim', k'))
    \<and> length ords = 1000000 \<and> sent_bytes k' 3 = frames (order_frames LE ords)"
proof -
  have c: "client_connect sample_os ''127.0.0.1'' 8080 k = (Inr 3, k)" for k
    by (simp add: client_connect_def sample_os_def)
  have s: "sends_all sample_os f" for f by (simp add: sends_all_def sample_os_def sample_send_def)
  have t: "elapsed_ms (of_nat 0 * 1000) (of_nat 1000001 * 1000) \<noteq> 0"
    by (simp add: elapsed_ms_def signed_divide_int_def)
  from client_thread_sends_orders [OF sample_draws_ok sample_send_ok, where k = "\<lparr>pieces = \<lambda>f. [], sent_bytes = \<lambda>f. []\<rparr>"
      and e = LE and clk = "\<lambda>n. of_nat n * 1000" and seed = 0 and i = 0]
  show ?thesis using s [of 3] t by (auto simp: c)
qed

end
