(* ===== verification/Client_Main.thy ===== *)
theory Client_Main
  imports Client
begin

text \<open>
  The client program, \<^verbatim>\<open>src/client_main.cpp\<close>: \<^verbatim>\<open>main\<close> reads the number of threads from its argument,
  starts them and joins them. The threads run interleaved on one kernel; a step of a thread connects,
  sends one order, or closes the socket. What a thread does on its own is \<open>run_client_thread\<close>.
\<close>

section \<open>The number of threads\<close>

text \<open>
  \<^verbatim>\<open>std::stoi\<close> in base ten: leading white space is skipped, a sign and at least one digit are
  expected, and what follows the digits is ignored.
\<close>

definition isspace :: "char \<Rightarrow> bool" where
  "isspace c \<longleftrightarrow> c = CHR '' '' \<or> 9 \<le> (of_char c :: nat) \<and> (of_char c :: nat) \<le> 13"

definition stoi :: "string \<Rightarrow> int result" where
  "stoi str =
     (let s = dropWhile isspace str;
          neg = (s \<noteq> [] \<and> hd s = CHR ''-'');
          digits = takeWhile isdigit (if s \<noteq> [] \<and> hd s \<in> {CHR ''-'', CHR ''+''} then tl s else s);
          v = (if neg then - int (digits_value digits) else int (digits_value digits))
      in if digits = [] then Inl (Throw (Invalid_argument ''stoi''))
         else if v < - (2 ^ 31) \<or> 2 ^ 31 \<le> v then Inl (Throw (Out_of_range ''stoi''))
         else Inr v)"

text \<open>The arguments include the name of the program. Exceptions are not caught here.\<close>

definition num_threads :: "string list \<Rightarrow> int result" where
  "num_threads argv = (if length argv < 2 then Inr 1 else stoi (argv ! 1))"

text \<open>
  The program starts as many threads as its argument says. Without an argument it starts one. A
  decimal number as it is printed is read back, whatever white space precedes it, when an \<^verbatim>\<open>int\<close> can
  hold it; a larger one, an empty argument and one that does not begin with a number end the program
  with an exception before any thread is started.
\<close>

lemma argument_sets_number_of_threads:
  "num_threads [prog] = Inr 1
   \<and> num_threads [prog, replicate k CHR '' '' @ dec n] =
       (if n < 2 ^ 31 then Inr (int n) else Inl (Throw (Out_of_range ''stoi'')))
   \<and> num_threads [prog, []] = Inl (Throw (Invalid_argument ''stoi''))
   \<and> num_threads [prog, CHR ''x'' # arg] = Inl (Throw (Invalid_argument ''stoi''))"
proof -
  have hd: "hd (dec n) \<noteq> CHR ''-''" "hd (dec n) \<noteq> CHR ''+''" "\<not> isspace (hd (dec n))"
    using dec_digits [of n] by (cases "dec n"; auto simp: isdigit_def isspace_def)+
  have ne: "dec n \<noteq> []" "digits_value (dec n) = n" using dec_digits [of n] by simp_all
  have dw: "dropWhile isspace (replicate k CHR '' '' @ dec n) = dec n"
  proof (induction k)
    case 0
    then show ?case using hd(3) ne(1) by (cases "dec n") simp_all
  qed (simp add: isspace_def)
  have tw: "takeWhile isdigit (dec n) = dec n" using dec_digits [of n] by (simp add: list_all_iff takeWhile_eq_all_conv)
  have "stoi (replicate k CHR '' '' @ dec n) = (if n < 2 ^ 31 then Inr (int n) else Inl (Throw (Out_of_range ''stoi'')))"
    unfolding stoi_def dw Let_def by (simp add: hd ne tw)
  then show ?thesis by (simp add: num_threads_def) (simp add: stoi_def isspace_def isdigit_def)
qed

section \<open>The threads\<close>

text \<open>
  Where a thread is: not connected yet, sending with the number of orders sent and the simulator, or
  finished, with the text of the exception if there was one. A fault that is not an exception ends the
  whole program, as does the signal of a \<^verbatim>\<open>send\<close> to a closed peer; there is no step then.
\<close>

datatype 'r client_pc = Starting | Sending fd nat "'r simulator" | Finished "string option"

text \<open>A step returns the order sent, if one was. Reading \<open>0\<close> of the thread's clock is the start time.\<close>

fun client_step ::
  "endian \<Rightarrow> 'k os \<Rightarrow> 'r draws \<Rightarrow> clock \<Rightarrow> 'r \<Rightarrow> int \<Rightarrow> 'r client_pc \<Rightarrow> 'k \<Rightarrow> ('r client_pc \<times> 'k \<times> order list) result" where
  "client_step e os d clk seed thread_id Starting k =
     (case client_connect os ''127.0.0.1'' 8080 k of
        (Inl (Throw x), k) \<Rightarrow> Inr (Finished (Some (what x)), k, [])
      | (Inl y, k) \<Rightarrow> Inl y
      | (Inr f, k) \<Rightarrow> Inr (Sending f 0 (new_simulator 1000 (starting_id thread_id) seed), k, []))"
| "client_step e os d clk seed thread_id (Sending f n sim) k =
     (if n < NUM_ORDERS then
        (case generate_order d (clk (Suc n)) sim of
           (Inl (Throw x), sim) \<Rightarrow> Inr (Finished (Some (what x)), k, [])
         | (Inl y, sim) \<Rightarrow> Inl y
         | (Inr ord, sim) \<Rightarrow>
             result_bind (serialize_order e ord []) (\<lambda>msg_buffer.
             result_bind (client_send os f msg_buffer k) (\<lambda>k. Inr (Sending f (Suc n) sim, k, [ord]))))
      else if elapsed_ms (clk 0) (clk (Suc NUM_ORDERS)) = 0 then Inl UB
      else Inr (Finished None, os_close os f k, []))"
| "client_step e os d clk seed thread_id (Finished x) k = Inr (Finished x, k, [])"

text \<open>
  The program: \<open>clks i\<close> and \<open>seeds i\<close> are the clock readings and the random seed of thread \<open>i\<close>. A thread
  that has been started but not scheduled yet is \<open>Starting\<close>. The log records the orders sent, each
  with its thread.
\<close>

inductive client_main ::
  "endian \<Rightarrow> 'k os \<Rightarrow> 'r draws \<Rightarrow> (nat \<Rightarrow> clock) \<Rightarrow> (nat \<Rightarrow> 'r) \<Rightarrow> string list \<Rightarrow> 'k \<Rightarrow>
     (nat \<times> order) list \<Rightarrow> 'r client_pc list \<Rightarrow> 'k \<Rightarrow> bool" for e os d clks seeds argv k0 where
  started: "num_threads argv = Inr n \<Longrightarrow>
    client_main e os d clks seeds argv k0 [] (replicate (nat n) Starting) k0"
| scheduled: "client_main e os d clks seeds argv k0 log threads k \<Longrightarrow> i < length threads \<Longrightarrow>
    client_step e os d (clks i) (seeds i) (int i) (threads ! i) k = Inr (pc, k', ords) \<Longrightarrow>
    client_main e os d clks seeds argv k0 (log @ map (Pair i) ords) (threads[i := pc]) k'"

inductive_cases client_mainE: "client_main e os d clks seeds argv k0 log threads k"

section \<open>A thread on its own\<close>

inductive thread_steps ::
  "endian \<Rightarrow> 'k os \<Rightarrow> 'r draws \<Rightarrow> clock \<Rightarrow> 'r \<Rightarrow> int \<Rightarrow> 'r client_pc \<Rightarrow> 'k \<Rightarrow> 'r client_pc \<Rightarrow> 'k \<Rightarrow> bool"
  for e os d clk seed i where
  none: "thread_steps e os d clk seed i pc k pc k"
| more: "client_step e os d clk seed i pc k = Inr (pc1, k1, ords) \<Longrightarrow> thread_steps e os d clk seed i pc1 k1 pc2 k2 \<Longrightarrow>
    thread_steps e os d clk seed i pc k pc2 k2"

lemma thread_steps_trans:
  "thread_steps e os d clk seed i pc k pc1 k1 \<Longrightarrow> thread_steps e os d clk seed i pc1 k1 pc2 k2 \<Longrightarrow>
     thread_steps e os d clk seed i pc k pc2 k2"
  by (induction rule: thread_steps.induct) (auto intro: thread_steps.more)

lemma send_orders_steps:
  "send_orders e os d clk f (Suc m) n sim k = Inr (sim', k') \<Longrightarrow> m + n \<le> NUM_ORDERS \<Longrightarrow>
     thread_steps e os d clk seed i (Sending f m sim) k (Sending f (m + n) sim') k'"
proof (induction n arbitrary: m sim k)
  case 0
  then show ?case by (auto intro: thread_steps.none)
next
  case (Suc n)
  obtain ord sim1 buf k1 where g: "generate_order d (clk (Suc m)) sim = (Inr ord, sim1)" "serialize_order e ord [] = Inr buf"
    "client_send os f buf k = Inr k1" "send_orders e os d clk f (Suc (Suc m)) n sim1 k1 = Inr (sim', k')"
    using Suc.prems(1) by (auto simp: result_bind_Inr split: prod.splits sum.splits if_splits)
  have "client_step e os d clk seed i (Sending f m sim) k = Inr (Sending f (Suc m) sim1, k1, [ord])"
    using g(1-3) Suc.prems(2) by simp
  moreover have "thread_steps e os d clk seed i (Sending f (Suc m) sim1) k1 (Sending f (Suc m + n) sim') k'"
    by (rule Suc.IH [OF g(4)]) (use Suc.prems(2) in simp)
  ultimately show ?case by (auto intro: thread_steps.more)
qed

lemma send_batches_steps:
  "send_batches e os d clk f (Suc m) n sim k = Inr (sim', k') \<Longrightarrow> m + n * BATCH_SIZE \<le> NUM_ORDERS \<Longrightarrow>
     thread_steps e os d clk seed i (Sending f m sim) k (Sending f (m + n * BATCH_SIZE) sim') k'"
proof (induction n arbitrary: m sim k)
  case 0
  then show ?case by (auto intro: thread_steps.none)
next
  case (Suc n)
  obtain sim1 k1 where b: "send_orders e os d clk f (Suc m) BATCH_SIZE sim k = Inr (sim1, k1)"
    "send_batches e os d clk f (Suc (m + BATCH_SIZE)) n sim1 k1 = Inr (sim', k')"
    using Suc.prems(1) by (auto simp: result_bind_Inr)
  have le: "m + BATCH_SIZE \<le> NUM_ORDERS" "m + BATCH_SIZE + n * BATCH_SIZE \<le> NUM_ORDERS" using Suc.prems(2) by simp_all
  from thread_steps_trans [OF send_orders_steps [OF b(1) le(1)] Suc.IH [OF b(2) le(2)]]
  show ?case by (simp add: add.assoc)
qed

text \<open>When nothing comes between its steps, a thread does what the thread function does.\<close>

lemma thread_steps_run:
  assumes "run_client_thread e os d clk seed i k = Inr (Inr (sim', k'))"
  shows "thread_steps e os d clk seed i Starting k (Finished None) k'"
proof -
  let ?sim = "new_simulator 1000 (starting_id i) seed"
  obtain f k1 where c: "client_connect os ''127.0.0.1'' 8080 k = (Inr f, k1)" "client_run e os d clk f ?sim k1 = Inr (sim', k')"
    using assms by (auto simp: run_client_thread_def Let_def split: prod.splits sum.splits fault.splits)
  then obtain k2 where b: "send_batches e os d clk f (Suc 0) (NUM_ORDERS div BATCH_SIZE) ?sim k1 = Inr (sim', k2)"
    "elapsed_ms (clk 0) (clk (Suc NUM_ORDERS)) \<noteq> 0" "k' = os_close os f k2"
    by (auto simp: client_run_def result_bind_Inr split: if_splits)
  have n: "NUM_ORDERS div BATCH_SIZE * BATCH_SIZE = NUM_ORDERS" by (simp add: NUM_ORDERS_def BATCH_SIZE_def)
  have "thread_steps e os d clk seed i (Sending f 0 ?sim) k1 (Sending f NUM_ORDERS sim') k2"
    using send_batches_steps [OF b(1), of seed i] n by simp
  moreover have "thread_steps e os d clk seed i (Sending f NUM_ORDERS sim') k2 (Finished None) k'"
    by (rule thread_steps.more [OF _ thread_steps.none]) (use b in simp)
  ultimately have "thread_steps e os d clk seed i (Sending f 0 ?sim) k1 (Finished None) k'"
    by (rule thread_steps_trans)
  then show ?thesis by (rule thread_steps.more [rotated]) (use c(1) in simp)
qed

section \<open>All threads\<close>

definition ids_of :: "nat \<Rightarrow> (nat \<times> order) list \<Rightarrow> OrderId list" where
  "ids_of i log = map (\<lambda>x. o_id (snd x)) (filter (\<lambda>x. fst x = i) log)"

definition sent_so_far :: "int \<Rightarrow> 'r client_pc \<Rightarrow> OrderId list \<Rightarrow> bool" where
  "sent_so_far i pc ids \<longleftrightarrow> (case pc of
       Starting \<Rightarrow> ids = []
     | Sending f n sim \<Rightarrow> n \<le> NUM_ORDERS \<and> ids = next_ids (starting_id i) n \<and> id_counter sim = starting_id i + of_nat n
     | Finished x \<Rightarrow> \<exists>n \<le> NUM_ORDERS. ids = next_ids (starting_id i) n)"

definition main_inv :: "(nat \<times> order) list \<Rightarrow> 'r client_pc list \<Rightarrow> bool" where
  "main_inv log threads \<longleftrightarrow> length threads < 2 ^ 31 \<and> list_all (\<lambda>x. fst x < length threads \<and> submittable (snd x)) log
     \<and> (\<forall>i < length threads. sent_so_far (int i) (threads ! i) (ids_of i log))
     \<and> distinct (map (\<lambda>x. o_id (snd x)) log)"

lemma next_ids_snoc: "next_ids i (Suc n) = next_ids i n @ [i + of_nat n]"
  by (simp add: next_ids_def)

lemma ids_of_append: "ids_of i (log @ map (Pair j) ords) = ids_of i log @ (if i = j then map o_id ords else [])"
  by (simp add: ids_of_def filter_map comp_def)

lemma next_ids_in: "x \<in> set (next_ids i n) \<longleftrightarrow> (\<exists>j < n. x = i + of_nat j)"
  by (auto simp: next_ids_def)

text \<open>What is sent so far by any thread is among its ids.\<close>

lemma sent_ids:
  assumes "main_inv log threads" and "x \<in> set log"
  obtains m where "m < NUM_ORDERS" "o_id (snd x) = starting_id (int (fst x)) + of_nat m" "fst x < length threads"
proof -
  have i: "fst x < length threads" "sent_so_far (int (fst x)) (threads ! fst x) (ids_of (fst x) log)"
    using assms by (auto simp: main_inv_def list_all_iff)
  have "o_id (snd x) \<in> set (ids_of (fst x) log)" using assms(2) by (auto simp: ids_of_def)
  moreover have "\<exists>n \<le> NUM_ORDERS. set (ids_of (fst x) log) \<subseteq> set (next_ids (starting_id (int (fst x))) n)"
    using i(2) by (auto simp: sent_so_far_def split: client_pc.splits)
  ultimately show ?thesis using that i(1) by (auto simp: next_ids_in) (meson less_le_trans next_ids_in subsetD)
qed

lemma client_step_sent:
  assumes d: "draws_ok d" and st: "client_step e os d clk seed i pc k = Inr (pc', k', ords)" and ids: "sent_so_far i pc ids"
  shows "sent_so_far i pc' (ids @ map o_id ords)" and "list_all submittable ords"
    and "ords = [] \<or> (\<exists>ord n. ords = [ord] \<and> n < NUM_ORDERS \<and> ids = next_ids (starting_id i) n \<and> o_id ord = starting_id i + of_nat n)"
proof -
  have "sent_so_far i pc' (ids @ map o_id ords) \<and> list_all submittable ords
    \<and> (ords = [] \<or> (\<exists>ord n. ords = [ord] \<and> n < NUM_ORDERS \<and> ids = next_ids (starting_id i) n \<and> o_id ord = starting_id i + of_nat n))"
  proof (cases pc)
    case Starting
    have "\<exists>n \<le> NUM_ORDERS. [] = next_ids (starting_id i) n" by (rule exI [of _ 0]) simp
    with Starting show ?thesis
      using st ids by (auto simp: sent_so_far_def new_simulator_def split: prod.splits sum.splits fault.splits)
  next
    case (Sending f n sim)
    have n: "n \<le> NUM_ORDERS" "ids = next_ids (starting_id i) n" "id_counter sim = starting_id i + of_nat n"
      using ids Sending by (simp_all add: sent_so_far_def)
    show ?thesis
    proof (cases "n < NUM_ORDERS")
      case True
      obtain ord g where o: "generate_order d (clk (Suc n)) sim = (Inr ord, sim\<lparr>id_counter := id_counter sim + 1, rng := g\<rparr>)"
        "submittable ord" "o_id ord = id_counter sim"
        by (rule generate_order_ok [OF d])
      have "pc' = Sending f (Suc n) (sim\<lparr>id_counter := id_counter sim + 1, rng := g\<rparr>)" "ords = [ord]"
        using st Sending True o(1) by (auto simp: result_bind_Inr)
      then show ?thesis using n True o by (auto simp: sent_so_far_def next_ids_snoc ac_simps)
    next
      case False
      then show ?thesis using st Sending n by (auto simp: sent_so_far_def split: if_splits)
    qed
  next
    case (Finished x)
    then show ?thesis using st ids by (auto simp: sent_so_far_def)
  qed
  then show "sent_so_far i pc' (ids @ map o_id ords)" "list_all submittable ords"
    "ords = [] \<or> (\<exists>ord n. ords = [ord] \<and> n < NUM_ORDERS \<and> ids = next_ids (starting_id i) n \<and> o_id ord = starting_id i + of_nat n)"
    by blast+
qed

lemma num_threads_bound: "num_threads argv = Inr n \<Longrightarrow> n < 2 ^ 31"
  by (auto simp: num_threads_def stoi_def Let_def split: if_splits)

lemma client_main_inv:
  assumes d: "draws_ok d"
  shows "client_main e os d clks seeds argv k0 log threads k \<Longrightarrow> main_inv log threads"
proof (induction rule: client_main.induct)
  case (started n)
  have "nat n < 2 ^ 31" using num_threads_bound [OF started] by simp
  then show ?case by (simp add: main_inv_def ids_of_def sent_so_far_def)
next
  case (scheduled log threads k i pc k' ords)
  note inv = scheduled.IH and i = scheduled.hyps(2)
  have ids: "sent_so_far (int i) (threads ! i) (ids_of i log)" using inv i by (simp add: main_inv_def)
  note step = client_step_sent [OF d scheduled.hyps(3) ids]
  have "sent_so_far (int j) (threads[i := pc] ! j) (ids_of j (log @ map (Pair i) ords))" if "j < length threads" for j
    using step(1) inv that i by (cases "j = i") (auto simp: ids_of_append main_inv_def)
  moreover have "distinct (map (\<lambda>x. o_id (snd x)) (log @ map (Pair i) ords))"
    using step(3)
  proof
    assume "\<exists>ord n. ords = [ord] \<and> n < NUM_ORDERS \<and> ids_of i log = next_ids (starting_id (int i)) n
        \<and> o_id ord = starting_id (int i) + of_nat n"
    then obtain ord n where o: "ords = [ord]" "n < NUM_ORDERS" "ids_of i log = next_ids (starting_id (int i)) n"
      "o_id ord = starting_id (int i) + of_nat n" by blast
    have "o_id (snd x) \<noteq> o_id ord" if x: "x \<in> set log" for x
    proof
      assume eq: "o_id (snd x) = o_id ord"
      obtain m where m: "m < NUM_ORDERS" "o_id (snd x) = starting_id (int (fst x)) + of_nat m" "fst x < length threads"
        by (rule sent_ids [OF inv x])
      have "length threads < 2 ^ 31" using inv by (simp add: main_inv_def)
      then have "int (fst x) < 2 ^ 31 - 1" "int i < 2 ^ 31 - 1" using m(3) i by simp_all
      then have same: "int (fst x) = int i \<and> m = n"
        using starting_ids_disjoint [of "int (fst x)" "int i" m n] m(1,2) o(2,4) eq by simp
      have "o_id (snd x) \<in> set (ids_of i log)" using x same by (auto simp: ids_of_def)
      then obtain j where "j < n" "o_id (snd x) = starting_id (int i) + of_nat j" unfolding o(3) next_ids_in by blast
      then have "j = n"
        using starting_ids_disjoint [of "int i" "int i" j n] o(2,4) eq \<open>int i < 2 ^ 31 - 1\<close> by simp
      with \<open>j < n\<close> show False by simp
    qed
    then have "o_id ord \<notin> (\<lambda>x. o_id (snd x)) ` set log" by force
    then show ?thesis using inv o(1) by (simp add: main_inv_def)
  qed (use inv in \<open>simp add: main_inv_def\<close>)
  moreover have "list_all (\<lambda>x. fst x < length threads \<and> submittable (snd x)) (log @ map (Pair i) ords)"
    using inv step(2) i by (auto simp: main_inv_def list_all_iff)
  ultimately show ?case using inv by (simp add: main_inv_def)
qed

section \<open>Properties\<close>

text \<open>
  C22: The client program never uses an order id twice. However its threads interleave, the orders that
  they have sent so far all have different ids, over all threads, and the exchange accepts each of
  them; the orders of one thread have consecutive ids from its starting id on.
\<close>

theorem client_program_ids_distinct:
  assumes "draws_ok d" and "client_main e os d clks seeds argv k0 log threads k"
  shows "distinct (map (\<lambda>x. o_id (snd x)) log) \<and> list_all (\<lambda>x. fst x < length threads \<and> submittable (snd x)) log
    \<and> map (\<lambda>x. o_id (snd x)) (filter (\<lambda>x. fst x = i) log) =
        next_ids (starting_id (int i)) (length (filter (\<lambda>x. fst x = i) log))"
proof -
  have inv: "main_inv log threads" by (rule client_main_inv [OF assms])
  have "ids_of i log = next_ids (starting_id (int i)) (length (ids_of i log))"
  proof (cases "i < length threads")
    case True
    then have "sent_so_far (int i) (threads ! i) (ids_of i log)" using inv by (simp add: main_inv_def)
    then show ?thesis by (auto simp: sent_so_far_def split: client_pc.splits)
  next
    case False
    then have "filter (\<lambda>x. fst x = i) log = []"
      using inv by (auto simp: main_inv_def list_all_iff filter_empty_conv)
    then show ?thesis by (simp add: ids_of_def)
  qed
  then show ?thesis using inv by (auto simp: main_inv_def ids_of_def)
qed

text \<open>Two threads, the second of which has sent its first order.\<close>

theorem client_program_ids_distinct_witness:
  "\<exists>log threads k. client_main LE sample_os sample_draws (\<lambda>i. sample_clock) (\<lambda>i. 0) [''client'', ''2''] \<lparr>pieces = \<lambda>f. [], sent_bytes = \<lambda>f. []\<rparr>
      log threads k \<and> map fst log = [1] \<and> map (\<lambda>x. o_id (snd x)) log = [200000000]"
proof -
  let ?main = "client_main LE sample_os sample_draws (\<lambda>i. sample_clock) (\<lambda>i. 0) [''client'', ''2''] \<lparr>pieces = \<lambda>f. [], sent_bytes = \<lambda>f. []\<rparr>"
  have "num_threads [''client'', ''2''] = Inr 2"
    by (simp add: num_threads_def stoi_def isspace_def isdigit_def digits_value_def of_char_def)
  from client_main.started [OF this]
  have s: "?main [] [Starting, Starting] \<lparr>pieces = \<lambda>f. [], sent_bytes = \<lambda>f. []\<rparr>" by (simp add: numeral_2_eq_2)
  have "?main [] [Starting, Sending 3 0 (new_simulator 1000 (starting_id 1) 0)] \<lparr>pieces = \<lambda>f. [], sent_bytes = \<lambda>f. []\<rparr>"
    using client_main.scheduled [OF s, of 1 "Sending 3 0 (new_simulator 1000 (starting_id 1) 0)" _ "[]"]
    by (simp add: client_connect_def sample_os_def)
  note step = client_main.scheduled [OF this, of 1]
  obtain ord g where o: "generate_order sample_draws (sample_clock (Suc 0)) (new_simulator 1000 (starting_id 1) 0) =
      (Inr ord, (new_simulator 1000 (starting_id 1) 0)\<lparr>id_counter := id_counter (new_simulator 1000 (starting_id 1) (0 :: nat)) + 1, rng := g\<rparr>)"
    by (rule generate_order_ok [OF sample_draws_ok])
  obtain threads k where m: "?main [(1, ord)] threads k"
    using step [of _ _ "[ord]"] o by (auto simp: NUM_ORDERS_def serialize_order_frame)
  have "map (\<lambda>x. o_id (snd x)) [(1, ord)] = [200000000]"
    using client_program_ids_distinct [OF sample_draws_ok m, of 1] by (simp add: next_ids_Suc starting_id_def)
  with m show ?thesis by (intro exI [of _ "[(1, ord)]"] exI [of _ threads] exI [of _ k]) simp
qed

text \<open>
  C40: A short send truncates an order. The client ignores the result of \<^verbatim>\<open>send\<close>: when the kernel takes
  only the first \<open>m\<close> bytes of a frame, the thread goes on with the next order as if the frame had been
  sent. The rest of the frame is never sent, and the server reads the next order's bytes in its place.
\<close>

theorem short_send_truncates_the_frame:
  assumes "draws_ok d" and "send_ok os wire" and "n < NUM_ORDERS" and "\<And>bs. fst (os_send os f bs k) = Sent (m bs)"
  shows "\<exists>ord sim' k'. client_step e os d clk seed i (Sending f n sim) k = Inr (Sending f (Suc n) sim', k', [ord])
    \<and> wire k' f = wire k f @ take (m (frame NEW_ORDER (order_payload e ord))) (frame NEW_ORDER (order_payload e ord))"
proof -
  obtain ord g where o: "generate_order d (clk (Suc n)) sim = (Inr ord, sim\<lparr>id_counter := id_counter sim + 1, rng := g\<rparr>)"
    by (rule generate_order_ok [OF assms(1)])
  let ?bs = "frame NEW_ORDER (order_payload e ord)"
  obtain k' where k': "os_send os f ?bs k = (Sent (m ?bs), k')" using assms(4) [of ?bs] by (metis prod.collapse)
  have "wire k' f = wire k f @ take (m ?bs) ?bs" using send_facts(2) [OF assms(2) k'] by simp
  then show ?thesis using o assms(3) k' by (simp add: serialize_order_frame)
qed

text \<open>A kernel that takes four bytes at a time: not even the header of the frame.\<close>

definition slow_os :: "sample_kernel os" where
  "slow_os = sample_os\<lparr>os_send := \<lambda>f bs k. (Sent (min 4 (length bs)), snd (sample_send f (take 4 bs) k))\<rparr>"

theorem short_send_truncates_the_frame_witness:
  "\<exists>sim' k' ord. client_step LE slow_os sample_draws sample_clock 0 0 (Sending 3 0 (new_simulator 1000 1 0))
       \<lparr>pieces = \<lambda>f. [], sent_bytes = \<lambda>f. []\<rparr> = Inr (Sending 3 1 sim', k', [ord])
     \<and> length (sent_bytes k' 3) = 4"
proof -
  have ok: "send_ok slow_os sent_bytes"
    by (auto simp: send_ok_def slow_os_def sample_os_def sample_send_def min_def)
  have n: "0 < NUM_ORDERS" by (simp add: NUM_ORDERS_def)
  have s: "fst (os_send slow_os 3 bs k) = Sent (min 4 (length bs))" for bs k by (simp add: slow_os_def)
  show ?thesis
    using short_send_truncates_the_frame [OF sample_draws_ok ok n s, where e = LE and clk = sample_clock and seed = 0
        and i = 0 and sim = "new_simulator 1000 1 0" and k = "\<lparr>pieces = \<lambda>f. [], sent_bytes = \<lambda>f. []\<rparr>"]
    by (auto simp: frame_def simp del: client_step.simps)
qed

end
