(* ===== verification/Served_Clients.thy ===== *)
theory Served_Clients
  imports Exchange Market Client_Main Network_Utils
begin

text \<open>
  The exchange together with its clients. The orders of the client program never reuse an id, so the
  market answers each of them; and a client that reads its socket with \<^verbatim>\<open>read_message\<close> gets the
  market's notices for it, in order. The loop of the client program that reads the answers is commented
  out in \<^verbatim>\<open>src/exchange_client.cpp\<close>; \<open>read_messages\<close> stands for any client that calls \<^verbatim>\<open>read_message\<close>.
\<close>

section \<open>The exchange and the market\<close>

text \<open>Messages that the processing thread handled without fault stand for requests.\<close>

lemma processed_are_requests:
  "proc_reach e clk p \<Longrightarrow> process_all e clk ms p = Inr (p', outs) \<Longrightarrow> list_all (\<lambda>m. decode e m \<noteq> None) ms"
proof (induction ms arbitrary: p outs)
  case (Cons m ms)
  obtain p1 outs1 outs2 where "process e clk m p = Inr (p1, outs1)" "process_all e clk ms p1 = Inr (p', outs2)"
    using Cons.prems(2) by (auto simp: result_bind_Inr)
  with Cons.IH [of p1] proc_reach.turn [OF Cons.prems(1)] decode_process [OF Cons.prems(1), of m] show ?case by auto
qed simp

lemma exchange_takes_requests:
  assumes "os_ok os left wire watched backlog" and "streams_ok os left wire" and "watched k0 = {}"
    and "exchange_reach e clk os moved_in moved_out k0 log x"
  shows "received log = processed_messages log @ queued (inbound (ex_server x))"
    and "process_all e clk (processed_messages log) new_processor =
      Inr (ex_processor x, delivered log @ queued (outbound (ex_server x)) @ ex_answers x)"
    and "list_all (\<lambda>m. decode e m \<noteq> None) (processed_messages log)"
proof -
  show "received log = processed_messages log @ queued (inbound (ex_server x))"
    and run: "process_all e clk (processed_messages log) new_processor =
      Inr (ex_processor x, delivered log @ queued (outbound (ex_server x)) @ ex_answers x)"
    using exchange_reach_accounted [OF assms] by (simp_all add: accounted_def)
  show "list_all (\<lambda>m. decode e m \<noteq> None) (processed_messages log)"
    by (rule processed_are_requests [OF proc_reach.start run])
qed

lemma exchange_runs_market:
  assumes "os_ok os left wire watched backlog" and "streams_ok os left wire" and "watched k0 = {}"
    and "exchange_reach e clk os moved_in moved_out k0 log x"
    and "admissible clk new_market (requests e (processed_messages log))"
    and "market_run clk new_market (requests e (processed_messages log)) = (mk, notices)"
  shows "abs_book (book (ex_processor x)) = m_queues mk"
    and "delivered log @ queued (outbound (ex_server x)) @ ex_answers x = map (encode e) notices"
  using market_run_sim [OF market_sim_start exchange_takes_requests(2) [OF assms(1-4)] assms(5)] assms(6)
  by (simp_all add: market_sim_def)

section \<open>Ids that are not reused\<close>

lemma distinct_subseteq: "mset xs \<subseteq># mset ys \<Longrightarrow> distinct ys \<Longrightarrow> distinct xs"
proof -
  assume sub: "mset xs \<subseteq># mset ys" and d: "distinct ys"
  have "count (mset xs) a \<le> 1" for a
    using mset_subset_eq_count [OF sub, of a] d by (auto simp: distinct_count_atmost_1 count_mset_0_iff [THEN iffD2] split: if_splits)
  moreover have "a \<in> set xs \<Longrightarrow> 1 \<le> count (mset xs) a" for a by (simp add: Suc_le_eq)
  ultimately show "distinct xs" unfolding distinct_count_atmost_1
    by (metis count_mset_0_iff le_antisym)
qed

text \<open>The ids of the orders submitted.\<close>

fun submitted :: "(fd \<times> request) list \<Rightarrow> OrderId list" where
  "submitted [] = []"
| "submitted ((f, Submit ord) # rs) = o_id ord # submitted rs"
| "submitted ((f, r) # rs) = submitted rs"

lemma spec_insert_set [simp]: "set (spec_insert lt x xs) = insert x (set xs)"
proof -
  have "set (takeWhile P xs) \<union> set (dropWhile P xs) = set xs" for P :: "order \<Rightarrow> bool"
    by (metis set_append takeWhile_dropWhile_id)
  then show ?thesis by (auto simp: spec_insert_def)
qed

text \<open>Matching adds at most the order's own id to those in the queues.\<close>

lemma spec_match_ids:
  assumes "spec_match clk t qs ord = (trs, qs', q)"
  shows "o_id ` set (bid_queue qs' @ ask_queue qs') \<subseteq> insert (o_id ord) (o_id ` set (bid_queue qs @ ask_queue qs))"
proof -
  obtain fs rest q1 where b: "spec_sweep (within_bid ord) (unat (o_quantity ord)) (ask_queue qs) = (fs, rest, q1)"
    by (metis prod_cases3)
  obtain fs' rest' q2 where a: "spec_sweep (within_ask ord) (unat (o_quantity ord)) (bid_queue qs) = (fs', rest', q2)"
    by (metis prod_cases3)
  have ids: "o_id y \<in> o_id ` set (ask_queue qs)" if "y \<in> set rest" for y using spec_sweep_rest_ids [OF b] that by blast
  have ids': "o_id y \<in> o_id ` set (bid_queue qs)" if "y \<in> set rest'" for y using spec_sweep_rest_ids [OF a] that by blast
  show ?thesis
  proof (cases "o_side ord \<in> {BID, ASK}")
    case True
    with assms a b show ?thesis
      by (auto simp: spec_match_def Let_def image_Un dest: ids ids' split: if_splits)
  next
    case False
    with assms show ?thesis by (auto simp: spec_match_def)
  qed
qed

lemma market_step_ids:
  "open_ids (fst (market_step clk mk r)) \<subseteq> open_ids mk \<union> set (submitted [r])"
proof (cases r)
  case (Pair f req)
  show ?thesis
  proof (cases req)
    case (Submit ord)
    obtain trs qs q where m: "spec_match clk (Suc (m_time mk)) (m_queues mk) (ord\<lparr>o_timestamp := clk (m_time mk)\<rparr>) = (trs, qs, q)"
      by (metis prod_cases3)
    show ?thesis using spec_match_ids [OF m] m Pair Submit by (simp add: open_ids_def open_orders_def)
  qed (auto simp: Pair open_ids_def open_orders_def)
qed

lemma distinct_submissions_admissible:
  "distinct (submitted rs) \<Longrightarrow> open_ids mk \<inter> set (submitted rs) = {} \<Longrightarrow> admissible clk mk rs"
proof (induction rs arbitrary: mk)
  case (Cons r rs)
  let ?mk = "fst (market_step clk mk r)"
  have split: "submitted (r # rs) = submitted [r] @ submitted rs"
    by (cases r; cases "snd r") simp_all
  have "open_ids ?mk \<inter> set (submitted rs) = {}"
    using market_step_ids [of clk mk r] Cons.prems unfolding split by auto
  moreover have "admits mk (snd r)"
    using Cons.prems(2) by (cases r; cases "snd r") auto
  moreover have "distinct (submitted rs)" using Cons.prems(1) by (simp add: split)
  ultimately show ?case using Cons.IH [of ?mk] by simp
qed simp

text \<open>Who is told that an order is accepted, and who that something is refused.\<close>

definition acknowledged :: "(fd \<times> notice list) list \<Rightarrow> (fd \<times> OrderId) list" where
  "acknowledged ns = [(fst a, oid). a \<leftarrow> ns, Order_acknowledged oid \<leftarrow> snd a]"

definition refused :: "(fd \<times> notice list) list \<Rightarrow> (fd \<times> OrderId) list" where
  "refused ns = [(fst a, oid). a \<leftarrow> ns, Rejected oid why \<leftarrow> snd a]"

lemma notices_append [simp]:
  "acknowledged (ns @ ns') = acknowledged ns @ acknowledged ns'" "refused (ns @ ns') = refused ns @ refused ns'"
  by (simp_all add: acknowledged_def refused_def)

lemma trade_notices [simp]:
  "acknowledged (map (\<lambda>tr. (g tr, [Trade_notice tr])) trs) = []" "refused (map (\<lambda>tr. (g tr, [Trade_notice tr])) trs) = []"
  "acknowledged [(f, map Trade_notice trs @ [Order_acknowledged oid])] = [(f, oid)]"
  "refused [(f, map Trade_notice trs @ [Order_acknowledged oid])] = []"
  by (induction trs) (simp_all add: acknowledged_def refused_def)

definition submissions :: "(fd \<times> order) list \<Rightarrow> (fd \<times> request) list" where
  "submissions subs = map (\<lambda>(f, ord). (f, Submit ord)) subs"

lemma submissions_simps [simp]:
  "submissions [] = []" "submissions ((f, ord) # subs) = (f, Submit ord) # submissions subs"
  by (simp_all add: submissions_def)

lemma submitted_submissions [simp]: "submitted (submissions subs) = map (\<lambda>s. o_id (snd s)) subs"
  by (induction subs) auto

lemma submissions_acknowledged:
  "acknowledged (snd (market_run clk mk (submissions subs))) = map (\<lambda>(f, ord). (f, o_id ord)) subs
   \<and> refused (snd (market_run clk mk (submissions subs))) = []"
proof (induction subs arbitrary: mk)
  case Nil
  then show ?case by (simp add: acknowledged_def refused_def)
next
  case (Cons s subs)
  obtain f ord where s: "s = (f, ord)" by (cases s)
  obtain mk' ns where st: "market_step clk mk (f, Submit ord) = (mk', ns)" by fastforce
  have "acknowledged ns = [(f, o_id ord)]" "refused ns = []" using st by (auto split: prod.splits)
  then show ?case
    using Cons.IH [of mk'] s st by (auto simp del: market_step.simps split: prod.splits)
qed

text \<open>The message that the client program sends for an order stands for its submission.\<close>

definition submission_message :: "endian \<Rightarrow> fd \<times> order \<Rightarrow> InboundMessage" where
  "submission_message e s = \<lparr>in_fd = fst s, in_type = NEW_ORDER, in_payload = order_payload e (snd s)\<rparr>"

lemma decode_submission_message:
  assumes "order_valid (snd s)"
  shows "decode e (submission_message e s) = Some (Submit ((snd s)\<lparr>o_timestamp := 0\<rparr>))"
proof -
  have "deserialize_order e 0 \<lparr>msg_type = NEW_ORDER, payload = order_payload e (snd s)\<rparr> = Inr ((snd s)\<lparr>o_timestamp := 0\<rparr>)"
    using assms by (simp add: deserialize_order_payload)
  then have "field_order e 0 (order_payload e (snd s)) = Inr ((snd s)\<lparr>o_timestamp := 0\<rparr>)"
    using deserialize_order_fields [of "\<lparr>msg_type = NEW_ORDER, payload = order_payload e (snd s)\<rparr>" e 0]
    by (auto split: sum.splits)
  then show ?thesis by (simp add: decode_def submission_message_def)
qed

lemma market_step_stamp: "market_step clk mk (f, Submit (ord\<lparr>o_timestamp := t\<rparr>)) = market_step clk mk (f, Submit ord)"
  by (simp add: counterparty_def)

lemma requests_submission_messages:
  "list_all (\<lambda>s. order_valid (snd s)) subs \<Longrightarrow>
     market_run clk mk (requests e (map (submission_message e) subs)) = market_run clk mk (submissions subs)
     \<and> submitted (requests e (map (submission_message e) subs)) = map (\<lambda>s. o_id (snd s)) subs"
proof (induction subs arbitrary: mk)
  case (Cons s subs)
  obtain f ord where s: "s = (f, ord)" by (cases s)
  have d: "decode e (submission_message e s) = Some (Submit (ord\<lparr>o_timestamp := 0\<rparr>))" "in_fd (submission_message e s) = f"
    using decode_submission_message [of s e] Cons.prems by (simp_all add: s submission_message_def)
  show ?case using Cons s d market_step_stamp by (simp del: market_step.simps)
qed (simp add: requests_def)

section \<open>Reading the answers\<close>

text \<open>A client that reads one message after the other, and what it makes of a message.\<close>

primrec read_messages ::
  "endian \<Rightarrow> 'k os \<Rightarrow> fd \<Rightarrow> nat \<Rightarrow> nat \<Rightarrow> Message \<Rightarrow> 'k \<Rightarrow> (Message list \<times> 'k) result option" where
  "read_messages e os f fuel 0 message k = Some (Inr ([], k))"
| "read_messages e os f fuel (Suc n) message k =
     opt_bind (read_message e os f fuel message k) (\<lambda>(ok, message, k).
       if ok then opt_bind (read_messages e os f fuel n message k) (\<lambda>(ms, k). Some (Inr (message # ms, k)))
       else Some (Inr ([], k)))"

definition understood :: "endian \<Rightarrow> Message \<Rightarrow> notice result" where
  "understood e m =
     (if msg_type m = TRADE then result_bind (deserialize_trade e m) (\<lambda>tr. Inr (Trade_notice tr))
      else if msg_type m = ORDER_ACK then result_bind (deserialize_acknowledgement e m) (\<lambda>a. Inr (Order_acknowledged (ack_id a)))
      else if msg_type m = CANCEL_ACK then result_bind (deserialize_cancel_ack e m) (\<lambda>a. Inr (Cancel_acknowledged (ack_id a)))
      else result_bind (deserialize_rejection e m) (\<lambda>r. Inr (Rejected (rej_id r) (reason r))))"

lemma read_messages_frames:
  assumes os: "recv_ok os left" "recv_waits os left"
  shows "left k f = frames fs @ rest \<Longrightarrow> fits fs \<Longrightarrow> length (frames fs) \<le> fuel \<Longrightarrow>
    \<exists>k'. read_messages e os f fuel (length fs) message k =
        Some (Inr (map (\<lambda>(t, p). \<lparr>msg_type = t, payload = p\<rparr>) fs, k')) \<and> left k' f = rest"
proof (induction fs arbitrary: k message)
  case (Cons x fs)
  obtain t p where x: "x = (t, p)" by (cases x)
  have l: "left k f = frame t p @ (frames fs @ rest)" "length p < 2 ^ 32" "5 + length p \<le> fuel"
    using Cons.prems x by simp_all
  obtain k1 where 1: "read_message e os f fuel message k = Some (Inr (True, \<lparr>msg_type = t, payload = p\<rparr>, k1))"
    "left k1 f = frames fs @ rest"
    using read_message_frame [OF os l] by blast
  obtain k2 where "read_messages e os f fuel (length fs) \<lparr>msg_type = t, payload = p\<rparr> k1 =
      Some (Inr (map (\<lambda>(t, p). \<lparr>msg_type = t, payload = p\<rparr>) fs, k2))" "left k2 f = rest"
    using Cons.IH [OF 1(2)] Cons.prems(2,3) x by auto
  then show ?case using 1(1) x by simp
qed simp

text \<open>The frame of a notice, as type and payload.\<close>

primrec notice_parts :: "endian \<Rightarrow> notice \<Rightarrow> MessageType \<times> byte list" where
  "notice_parts e (Trade_notice tr) = (TRADE, trade_payload e tr)"
| "notice_parts e (Order_acknowledged oid) = (ORDER_ACK, id_payload e oid)"
| "notice_parts e (Cancel_acknowledged oid) = (CANCEL_ACK, id_payload e oid)"
| "notice_parts e (Rejected oid why) = (REJECT, rejection_payload e \<lparr>rej_id = oid, reason = why\<rparr>)"

lemma frames_notices: "frames (map (notice_parts e) ns) = concat (map (notice_frame e) ns)"
proof (induction ns)
  case (Cons n ns)
  then show ?case by (cases n) simp_all
qed simp

text \<open>Rejections are understood between little-endian hosts, and their texts are short.\<close>

primrec legible :: "endian \<Rightarrow> notice \<Rightarrow> bool" where
  "legible e (Trade_notice tr) \<longleftrightarrow> True"
| "legible e (Order_acknowledged oid) \<longleftrightarrow> True"
| "legible e (Cancel_acknowledged oid) \<longleftrightarrow> True"
| "legible e (Rejected oid why) \<longleftrightarrow> e = LE \<and> length why < 2 ^ 32 - 12"

lemma understood_notice:
  "legible e n \<Longrightarrow> (case notice_parts e n of (t, p) \<Rightarrow> understood e \<lparr>msg_type = t, payload = p\<rparr>) = Inr n"
  by (cases n)
    (simp_all add: understood_def message_types deserialize_trade_payload deserialize_id_payload deserialize_rejection_payload)

lemma legible_fits: "list_all (legible e) ns \<Longrightarrow> fits (map (notice_parts e) ns)"
proof (induction ns)
  case (Cons n ns)
  then show ?case by (cases n) auto
qed simp

text \<open>The texts of the market are those of the exceptions.\<close>

lemma decode_refusal: "decode e m = Some (Refuse oid why) \<Longrightarrow> length why < 100"
  by (auto simp: decode_def field_order_def make_order_def split: if_splits sum.splits)

lemma market_step_texts:
  assumes "\<And>oid why. snd r = Refuse oid why \<Longrightarrow> length why < 100" and "a \<in> set (snd (market_step clk mk r))"
    and "Rejected oid why \<in> set (snd a)"
  shows "length why < 100"
proof (cases r)
  case (Pair f req)
  with assms show ?thesis by (cases req) (auto split: prod.splits if_splits)
qed

lemma market_run_texts:
  "list_all (\<lambda>m. decode e m \<noteq> None) ms \<Longrightarrow> a \<in> set (snd (market_run clk mk (requests e ms))) \<Longrightarrow>
     Rejected oid why \<in> set (snd a) \<Longrightarrow> length why < 100"
proof (induction ms arbitrary: mk)
  case (Cons m ms)
  obtain mk' ns where st: "market_step clk mk (in_fd m, the (decode e m)) = (mk', ns)" by fastforce
  obtain mk'' ns' where run: "market_run clk mk' (requests e ms) = (mk'', ns')" by fastforce
  consider "a \<in> set ns" | "a \<in> set ns'" using Cons.prems(2) st run by auto
  then show ?case
  proof cases
    case 1
    show ?thesis
      by (rule market_step_texts [of "(in_fd m, the (decode e m))" a clk mk oid])
        (use 1 st Cons.prems decode_refusal in \<open>auto simp del: market_step.simps\<close>)
  next
    case 2
    then show ?thesis using Cons.IH [of mk'] Cons.prems run by simp
  qed
qed (simp add: requests_def)

text \<open>The notices for a client, and the bytes that they are.\<close>

definition notices_to :: "fd \<Rightarrow> (fd \<times> notice list) list \<Rightarrow> notice list" where
  "notices_to f ns = concat (map snd (filter (\<lambda>a. fst a = f) ns))"

lemma addressed_notices: "addressed f (map (encode e) ns) = frames (map (notice_parts e) (notices_to f ns))"
  unfolding frames_notices by (induction ns) (simp_all add: notices_to_def encode_def)

lemma delivered_notices:
  assumes "delivered (log0 @ log) @ rest = map (encode e) notices"
  shows "delivered log = map (encode e) (take (length (delivered log)) (drop (length (delivered log0)) notices))"
proof -
  have "take (length (delivered log)) (drop (length (delivered log0)) (map (encode e) notices)) = delivered log"
    unfolding assms [symmetric] by simp
  then show ?thesis by (simp add: take_map drop_map)
qed

section \<open>A sample: the order is answered\<close>

text \<open>The rest of the second round and the beginning of the third, in which the answer is sent.\<close>

lemma live_sends:
  assumes r: "try_pop (\<lambda>m. m) DEFAULT_RING_CAPACITY r = (Some live_answer, r')"
    "try_pop (\<lambda>m. m) DEFAULT_RING_CAPACITY r' = (None, r')"
  shows "\<exists>s. server_run BE live_os (\<lambda>m. m) 5 (Reading 5 False []) (live_received\<lparr>inbound := q, outbound := r\<rparr>) =
      Inr (Flushing [], s, [Delivered live_answer])
    \<and> client_at 5 s = Inr (empty_client\<lparr>active := True, message_type := 1, header_buffer := [1, 0, 0, 0, 22],
        read_buffer := live_payload, payload_length := 22\<rparr>)
    \<and> live_wire (kernel s) 5 = out_payload live_answer"
  by (simp add: r live_received_def live_states client_at_def read_round_def header_part_def live_os_def sample_recv_def
      empty_client_def set_client_def accept_one_def received_in_def after_read_def
      queue_output_def live_answer_def try_send_def sample_send_def Let_def live_wire_def frame_def)

lemma live_answered_run:
  obtains y c where
    "exchange_run BE sample_clock live_os (\<lambda>m. m) (\<lambda>m. m) (at_server live_connected)
       [Received live_message, Processed live_message, Delivered live_answer] y"
    "client_at 5 (ex_server y) = Inr c" "active c" "unsent c = []" "live_wire (kernel (ex_server y)) 5 = out_payload live_answer"
proof (rule live_answer_run)
  fix q p
  let ?x = "live_reading\<lparr>ex_server := live_received\<lparr>inbound := q\<rparr>, ex_processor := p, ex_answers := [live_answer]\<rparr>"
  assume run: "exchange_run BE sample_clock live_os (\<lambda>m. m) (\<lambda>m. m) (at_server live_connected)
      [Received live_message, Processed live_message] ?x"
  have o: "queue_ok (outbound live_received)" "queued (outbound live_received) = []"
    by (simp_all add: live_received_def live_states)
  obtain r where r: "try_push DEFAULT_RING_CAPACITY live_answer (outbound live_received) = (True, r)" "queue_ok r" "queued r = [live_answer]"
    using ring_queue.push_room [OF o(1), of live_answer] o(2) by auto
  obtain r' where r': "try_pop (\<lambda>m. m) DEFAULT_RING_CAPACITY r = (Some live_answer, r')" "queue_ok r'" "queued r' = []"
    using ring_queue.pop_next [OF r(2,3)] by blast
  have none: "try_pop (\<lambda>m. m) DEFAULT_RING_CAPACITY r' = (None, r')" by (rule try_pop_empty [OF r'(3)])
  let ?y = "?x\<lparr>ex_server := (ex_server ?x)\<lparr>outbound := r\<rparr>, ex_answers := if True then [] else [live_answer]\<rparr>"
  have "exchange_step BE sample_clock live_os (\<lambda>m. m) (\<lambda>m. m) ?x [] ?y"
    by (rule exchange_step.pushed) (use r(1) in simp_all)
  note pushed = exchange_run.on [OF run this]
  obtain s where s: "server_run BE live_os (\<lambda>m. m) 5 (ex_pc ?y) (ex_server ?y) = Inr (Flushing [], s, [Delivered live_answer])"
    "client_at 5 s = Inr (empty_client\<lparr>active := True, message_type := 1, header_buffer := [1, 0, 0, 0, 22],
        read_buffer := live_payload, payload_length := 22\<rparr>)" "live_wire (kernel s) 5 = out_payload live_answer"
    using live_sends [OF r'(1) none, of q] by (auto simp: live_reading_def simp del: server_run_numeral)
  let ?z = "?y\<lparr>ex_pc := Flushing [], ex_server := s\<rparr>"
  have "exchange_run BE sample_clock live_os (\<lambda>m. m) (\<lambda>m. m) (at_server live_connected)
      [Received live_message, Processed live_message, Delivered live_answer] ?z"
    using exchange_run_trans [OF pushed exchange_run_server [OF s(1)]] unfolding append.simps .
  then show thesis
    by (rule that [of _ "empty_client\<lparr>active := True, message_type := 1, header_buffer := [1, 0, 0, 0, 22],
        read_buffer := live_payload, payload_length := 22\<rparr>"])
      (use s(2,3) in \<open>simp_all add: unsent_def empty_client_def\<close>)
qed

lemma live_request: "requests BE [live_message] = [(5, Submit (live_order\<lparr>o_timestamp := 0\<rparr>))]"
proof -
  have "live_message = submission_message BE (5, live_order)"
    by (simp add: live_message_def submission_message_def live_payload_order NEW_ORDER_def)
  then have "decode BE live_message = Some (Submit (live_order\<lparr>o_timestamp := 0\<rparr>))"
    using decode_submission_message [of "(5, live_order)" BE] by (simp add: live_order_def)
  moreover have "in_fd live_message = 5" by (simp add: live_message_def)
  ultimately show ?thesis by (simp add: requests_def)
qed

section \<open>Properties\<close>

text \<open>
  C3: The orders of the client program are all accepted. Let the exchange process orders that the
  client program has sent, each at most once, from any connections and in any order, with its threads
  interleaved in any way. Then the book holds what price-time priority makes of these orders taken one
  after the other; the sender of every order gets exactly one acknowledgement for it, in the order in
  which they were processed; and nobody is sent a rejection. The reason is that no two orders of the
  client program share an id and that the constructor accepts each of them.
\<close>

theorem simulated_orders_are_acknowledged:
  assumes "draws_ok d" and "client_main e cos d clks seeds argv ck0 clog threads ck"
    and "os_ok os left wire watched backlog" and "streams_ok os left wire" and "watched k0 = {}"
    and "exchange_reach e clk os moved_in moved_out k0 log x"
    and "processed_messages log = map (submission_message e) subs" and "mset (map snd subs) \<subseteq># mset (map snd clog)"
  shows "case market_run clk new_market (submissions subs) of (mk, notices) \<Rightarrow>
      abs_book (book (ex_processor x)) = m_queues mk
      \<and> delivered log @ queued (outbound (ex_server x)) @ ex_answers x = map (encode e) notices
      \<and> acknowledged notices = map (\<lambda>(f, ord). (f, o_id ord)) subs \<and> refused notices = []"
proof -
  have inv: "main_inv clog threads" by (rule client_main_inv [OF assms(1,2)])
  have sub: "set (map snd subs) \<subseteq> set (map snd clog)" using set_mset_mono [OF assms(8)] by simp
  have v: "list_all (\<lambda>s. order_valid (snd s)) subs"
    using inv sub by (fastforce simp: main_inv_def list_all_iff submittable_def)
  have "mset (map o_id (map snd subs)) \<subseteq># mset (map o_id (map snd clog))"
    using image_mset_subseteq_mono [OF assms(8), of o_id] unfolding mset_map .
  from distinct_subseteq [OF this] have dist: "distinct (map (\<lambda>s. o_id (snd s)) subs)"
    using inv by (simp add: main_inv_def comp_def)
  note req = requests_submission_messages [OF v, of clk new_market e]
  obtain mk notices where run: "market_run clk new_market (submissions subs) = (mk, notices)" by fastforce
  have "admissible clk new_market (requests e (processed_messages log))"
    by (rule distinct_submissions_admissible)
      (use dist req assms(7) in \<open>simp_all add: open_ids_def open_orders_def new_market_def\<close>)
  note market = exchange_runs_market [OF assms(3-6) this, of mk notices]
  show ?thesis
    using market req run assms(7) submissions_acknowledged [of clk new_market subs] by simp
qed

text \<open>The order of the sample execution is the first that the client program sends.\<close>

definition live_sent :: order where
  "live_sent = live_order\<lparr>o_timestamp := sample_clock 1\<rparr>"

lemma live_client_main:
  "\<exists>threads k. client_main BE sample_os sample_draws (\<lambda>i. sample_clock) (\<lambda>i. 1) [''client'']
     \<lparr>pieces = \<lambda>f. [], sent_bytes = \<lambda>f. []\<rparr> [(0, live_sent)] threads k"
proof -
  let ?k = "\<lparr>pieces = \<lambda>f. [], sent_bytes = \<lambda>f. []\<rparr>"
  let ?main = "client_main BE sample_os sample_draws (\<lambda>i. sample_clock) (\<lambda>i. 1) [''client''] ?k"
  let ?sim = "new_simulator 1000 (starting_id 0) (1 :: nat)"
  have s: "?main [] [Starting] ?k"
    using client_main.started [of "[''client'']" 1] by (simp add: num_threads_def)
  have "?main [] [Sending 3 0 ?sim] ?k"
    using client_main.scheduled [OF s, of 0 "Sending 3 0 ?sim" _ "[]"] by (simp add: client_connect_def sample_os_def)
  note step = client_main.scheduled [OF this, of 0]
  have "generate_order sample_draws (sample_clock (Suc 0)) ?sim =
      (Inr live_sent, ?sim\<lparr>id_counter := id_counter ?sim + 1, rng := 5\<rparr>)"
    by (simp add: generate_order_def sample_draws_def new_simulator_def starting_id_def make_order_def live_sent_def
        live_order_def limit_order_def Let_def)
  then show ?thesis using step [of _ _ "[live_sent]"] by (auto simp: NUM_ORDERS_def serialize_order_frame)
qed

theorem simulated_orders_are_acknowledged_witness:
  "\<exists>x threads k. client_main BE sample_os sample_draws (\<lambda>i. sample_clock) (\<lambda>i. 1) [''client'']
       \<lparr>pieces = \<lambda>f. [], sent_bytes = \<lambda>f. []\<rparr> [(0, live_sent)] threads k
     \<and> exchange_reach BE sample_clock live_os (\<lambda>m. m) (\<lambda>m. m) live_start
       [Connected 5, Received live_message, Processed live_message, Delivered live_answer] x
     \<and> map o_id (ask_queue (abs_book (book (ex_processor x)))) = [100000000]"
proof (rule live_answered_run)
  fix y c
  assume "exchange_run BE sample_clock live_os (\<lambda>m. m) (\<lambda>m. m) (at_server live_connected)
       [Received live_message, Processed live_message, Delivered live_answer] y"
  from exchange_reach_run [OF live_reach this]
  have y: "exchange_reach BE sample_clock live_os (\<lambda>m. m) (\<lambda>m. m) live_start
       [Connected 5, Received live_message, Processed live_message, Delivered live_answer] y" by simp
  obtain threads k where c: "client_main BE sample_os sample_draws (\<lambda>i. sample_clock) (\<lambda>i. 1) [''client'']
     \<lparr>pieces = \<lambda>f. [], sent_bytes = \<lambda>f. []\<rparr> [(0, live_sent)] threads k"
    using live_client_main by blast
  have m: "processed_messages [Connected 5, Received live_message, Processed live_message, Delivered live_answer] =
      map (submission_message BE) [(5, live_sent)]"
    by (simp add: live_message_def submission_message_def live_payload_order NEW_ORDER_def live_sent_def order_payload_def)
  have "mset (map snd [(5 :: fd, live_sent)]) \<subseteq># mset (map snd [(0 :: nat, live_sent)])" by simp
  from simulated_orders_are_acknowledged [OF sample_draws_ok c live_os_ok live_streams_ok live_start_watched y m this]
  have "map o_id (ask_queue (abs_book (book (ex_processor y)))) = [100000000]"
    by (simp add: spec_match_def new_market_def live_sent_def live_order_def limit_order_def spec_insert_def)
  with c y show ?thesis by (intro exI [of _ y] exI [of _ threads] exI [of _ k]) simp
qed

text \<open>
  C7: A client can read its notices. Take a client from the moment at which nothing has been sent to it
  and nothing is to be sent, as when it has just connected, to a later moment at which it is still
  connected and everything for it has been sent. If it then reads its socket with \<^verbatim>\<open>read_message\<close>, in
  whatever pieces the bytes arrive, and decodes each message, it gets exactly the market's notices for
  it that the server has taken from the ring meanwhile, every one of them and in order, provided that
  no request processed reuses the id of a resting order. On big-endian hosts this holds as long as there
  is no rejection among them, whose text is lost there.
\<close>

theorem clients_read_their_notices:
  assumes "os_ok os left wire watched backlog" and "streams_ok os left wire" and "watched k0 = {}"
    and "exchange_reach e clk os moved_in moved_out k0 log0 x" and "exchange_run e clk os moved_in moved_out x log y"
    and "admissible clk new_market (requests e (processed_messages (log0 @ log)))"
    and "client_at f (ex_server x) = Inr c" and "wire (kernel (ex_server x)) f = []" and "unsent c = []"
    and "client_at f (ex_server y) = Inr c'" and "active c'" and "Connected f \<notin> set log" and "unsent c' = []"
    and "recv_ok cos cleft" and "recv_waits cos cleft" and "cleft ck cf = wire (kernel (ex_server y)) f"
    and "length (cleft ck cf) \<le> fuel"
  shows "case market_run clk new_market (requests e (processed_messages (log0 @ log))) of (mk, notices) \<Rightarrow>
    let mine = notices_to f (take (length (delivered log)) (drop (length (delivered log0)) notices)) in
      e = LE \<or> (\<forall>oid why. Rejected oid why \<notin> set mine) \<longrightarrow>
      (\<exists>ms k'. read_messages e cos cf fuel (length mine) message ck = Some (Inr (ms, k'))
         \<and> map (understood e) ms = map Inr mine \<and> cleft k' cf = [])"
proof -
  obtain mk notices where run: "market_run clk new_market (requests e (processed_messages (log0 @ log))) = (mk, notices)"
    by fastforce
  define seg where "seg = take (length (delivered log)) (drop (length (delivered log0)) notices)"
  let ?mine = "notices_to f seg"
  have y: "exchange_reach e clk os moved_in moved_out k0 (log0 @ log) y" by (rule exchange_reach_run [OF assms(4,5)])
  note market = exchange_runs_market [OF assms(1-3) y assms(6) run]
  have seg: "delivered log = map (encode e) seg" unfolding seg_def by (rule delivered_notices [OF market(2)])
  have "exchange_ok e clk watched x" by (rule exchange_reach_ok [OF assms(1,3,4)])
  from exchange_run_connection [OF assms(1,2) this assms(5), of f] assms(7-13)
  have "wire (kernel (ex_server y)) f = addressed f (delivered log)" unfolding connection_kept_def by auto
  then have bytes: "cleft ck cf = frames (map (notice_parts e) ?mine) @ []"
    unfolding assms(16) seg addressed_notices by simp
  have short: "length why < 100" if rej: "Rejected oid why \<in> set ?mine" for oid why
  proof -
    obtain a where "a \<in> set notices" "Rejected oid why \<in> set (snd a)"
      using rej by (auto simp: notices_to_def seg_def dest!: in_set_takeD in_set_dropD)
    then show ?thesis using market_run_texts [OF exchange_takes_requests(3) [OF assms(1-3) y], of a clk new_market oid why] run by simp
  qed
  have "\<exists>ms k'. read_messages e cos cf fuel (length ?mine) message ck = Some (Inr (ms, k'))
      \<and> map (understood e) ms = map Inr ?mine \<and> cleft k' cf = []"
    if ok: "e = LE \<or> (\<forall>oid why. Rejected oid why \<notin> set ?mine)"
  proof -
    have leg: "legible e n" if n: "n \<in> set ?mine" for n
    proof (cases n)
      case (Rejected oid why)
      then show ?thesis using n ok short [of oid why] by auto
    qed simp_all
    then have "list_all (legible e) ?mine" by (simp add: list_all_iff)
    from read_messages_frames [OF assms(14,15) bytes legible_fits [OF this], of fuel e message] assms(17)
    show ?thesis using understood_notice leg by (fastforce simp: bytes comp_def case_prod_unfold)
  qed
  then show ?thesis unfolding run prod.case seg_def [symmetric] Let_def by blast
qed

text \<open>In the sample execution the client reads the acknowledgement of its order.\<close>

theorem clients_read_their_notices_witness:
  "\<exists>y ms k'. exchange_reach BE sample_clock live_os (\<lambda>m. m) (\<lambda>m. m) live_start
       [Connected 5, Received live_message, Processed live_message, Delivered live_answer] y
     \<and> read_messages BE sample_os 3 100 1 \<lparr>msg_type = 0, payload = []\<rparr>
         \<lparr>pieces = (\<lambda>f. []) (3 := [live_wire (kernel (ex_server y)) 5]), sent_bytes = \<lambda>f. []\<rparr> = Some (Inr (ms, k'))
     \<and> map (understood BE) ms = [Inr (Order_acknowledged 100000000)]"
proof (rule live_answered_run)
  fix y c
  assume y: "exchange_run BE sample_clock live_os (\<lambda>m. m) (\<lambda>m. m) (at_server live_connected)
       [Received live_message, Processed live_message, Delivered live_answer] y"
    "client_at 5 (ex_server y) = Inr c" "active c" "unsent c = []" "live_wire (kernel (ex_server y)) 5 = out_payload live_answer"
  let ?ck = "\<lparr>pieces = (\<lambda>f. []) (3 := [live_wire (kernel (ex_server y)) 5]), sent_bytes = \<lambda>f. []\<rparr>"
  have x: "client_at 5 (ex_server (at_server live_connected)) = Inr (empty_client\<lparr>active := True\<rparr>)"
    "live_wire (kernel (ex_server (at_server live_connected))) 5 = []" "unsent (empty_client\<lparr>active := True\<rparr>) = []"
    by (simp_all add: client_at_def at_server_def live_states live_wire_def
        unsent_def empty_client_def)
  have ad: "admissible sample_clock new_market (requests BE (processed_messages
      ([Connected 5] @ [Received live_message, Processed live_message, Delivered live_answer])))"
    by (simp add: live_request open_ids_def open_orders_def new_market_def del: requests_Cons)
  have left: "sample_left ?ck 3 = live_wire (kernel (ex_server y)) 5" "length (sample_left ?ck 3) \<le> 100"
    by (simp_all add: sample_left_def y(5) live_answer_def)
  have "\<exists>ms k'. read_messages BE sample_os 3 100 1 \<lparr>msg_type = 0, payload = []\<rparr> ?ck = Some (Inr (ms, k'))
      \<and> map (understood BE) ms = [Inr (Order_acknowledged 100000000)] \<and> sample_left k' 3 = []"
    using clients_read_their_notices [OF live_os_ok live_streams_ok live_start_watched live_reach y(1) ad x y(2,3) _ y(4)
        sample_recv_ok sample_recv_waits left, where message = "\<lparr>msg_type = 0, payload = []\<rparr>"]
    by (simp add: live_request spec_match_def new_market_def live_order_def limit_order_def notices_to_def
        del: requests_Cons read_messages.simps)
  with exchange_reach_run [OF live_reach y(1)] show ?thesis by auto
qed

end
