(* ===== verification/Starvation.thy ===== *)
theory Starvation
  imports Exchange
begin

text \<open>
  A message that finds the inbound ring full. The server keeps it in the client's read buffer and
  leaves \<^verbatim>\<open>handle_read\<close>, which pushes it when it is called again; but it is called only when the client's
  socket is readable. Shown is that the message is not pushed unless the client sends more or closes.
\<close>

section \<open>A connection that is not read\<close>

text \<open>The events that the thread has still to handle.\<close>

fun pending_events :: "server_pc \<Rightarrow> event list" where
  "pending_events (Handling evs) = evs"
| "pending_events (Accepting evs) = evs"
| "pending_events (Reading f writable evs) = evs"
| "pending_events (Writing f evs) = evs"
| "pending_events pc = []"

definition unread :: "fd \<Rightarrow> server_pc \<Rightarrow> bool" where
  "unread f pc \<longleftrightarrow> reader pc \<noteq> Some f \<and> (\<forall>w. (f, True, w) \<notin> set (pending_events pc))"

definition silent :: "fd \<Rightarrow> 'k os \<Rightarrow> 'k \<Rightarrow> bool" where
  "silent f os k \<longleftrightarrow> (\<forall>w. (f, True, w) \<notin> set (fst (os_epoll_wait os k)))"

lemma unread_after_read: "unread f (after_read g w evs) \<longleftrightarrow> (\<forall>w. (f, True, w) \<notin> set evs)"
  by (simp add: unread_def after_read_def)

lemma server_step_unread:
  assumes "server_step e os moved pc s = Inr (pc', s', acts)" and "unread f pc" and "silent f os (kernel s)"
  shows "unread f pc'"
proof (cases pc)
  case Draining
  then show ?thesis using assms(1) by (auto simp: unread_def split: prod.splits option.splits)
next
  case (Flushing fs)
  then show ?thesis using assms(1) by (cases fs) (auto simp: unread_def result_bind_Inr)
next
  case Waiting
  then show ?thesis
    using assms(1,3) by (auto simp: unread_def silent_def split: prod.splits dest!: in_set_takeD)
next
  case (Handling evs)
  show ?thesis
  proof (cases evs)
    case Nil
    then show ?thesis using assms(1) Handling by (auto simp: unread_def)
  next
    case (Cons ev evs')
    obtain g r w where ev: "ev = (g, r, w)" by (cases ev)
    have no: "\<not> (g = f \<and> r)" "\<forall>w. (f, True, w) \<notin> set evs'" using assms(2) Handling Cons ev by (auto simp: unread_def)
    have "unread f (after_read g w evs')" "unread f (Accepting evs')" "g \<noteq> f \<Longrightarrow> unread f (Reading g w evs')"
      using no by (simp_all add: unread_after_read) (simp_all add: unread_def)
    then show ?thesis
      using assms(1) Handling Cons ev no(1) by (auto simp: result_bind_Inr split: if_splits)
  qed
next
  case (Accepting evs)
  then show ?thesis using assms(1,2) by (auto simp: unread_def result_bind_Inr split: option.splits)
next
  case (Reading g w evs)
  have after: "unread f (after_read g w evs)" using assms(2) Reading by (simp add: unread_after_read) (simp add: unread_def)
  obtain c out where "client_at g s = Inr c" "read_round e os g c (inbound s) (kernel s) = Inr out"
    using assms(1) Reading by (auto simp: result_bind_Inr)
  then show ?thesis using assms(1,2) Reading after by (cases out) (auto simp: result_bind_Inr)
next
  case (Writing g evs)
  then show ?thesis using assms(1,2) by (auto simp: unread_def result_bind_Inr)
qed

text \<open>A step of either thread while the connection is silent does not read from it.\<close>

lemma exchange_step_unread:
  assumes os: "os_ok os left wire watched backlog" and st: "streams_ok os left wire" and x: "exchange_ok e clk watched x"
    and step: "exchange_step e clk os moved_in moved_out x acts y"
    and u: "unread f (ex_pc x)" and q: "silent f os (kernel (ex_server x))"
  shows "unread f (ex_pc y) \<and> connection_unread left wire f (ex_server x) acts (ex_server y)"
  using step
proof cases
  case (served pc s)
  have "connection_unread left wire f (ex_server x) acts s"
    using server_step_keeps [OF os st _ served(2)] x u by (auto simp: exchange_ok_def step_keeps_def unread_def)
  then show ?thesis using served server_step_unread [OF served(2) u q] by simp
next
  case (processed q' p outs)
  have "connection_unread left wire f (ex_server x) acts (ex_server y)"
    by (rule connection_same) (use processed(1,2) in auto)
  then show ?thesis using processed(2) u by simp
next
  case (pushed a outs ok q')
  have "connection_unread left wire f (ex_server x) acts (ex_server y)"
    by (rule connection_same) (use pushed(1,2) in auto)
  then show ?thesis using pushed(2) u by simp
next
  case found_empty
  have "connection_unread left wire f (ex_server x) acts (ex_server y)"
    by (rule connection_same) (use found_empty in auto)
  then show ?thesis using found_empty(2) by (simp add: unread_def)
next
  case (found_full g w evs q' pc s)
  have "connection_unread left wire f ((ex_server x)\<lparr>inbound := q'\<rparr>) acts s"
    using full_view_keeps(1) [OF os st x found_full(3-5)] u by (auto simp: step_keeps_def unread_def)
  moreover have "unread f pc" using server_step_unread [OF found_full(5) u] q by simp
  ultimately show ?thesis using found_full(1) by (simp add: connection_unread_def)
next
  case missed
  have "connection_unread left wire f (ex_server x) acts (ex_server y)"
    by (rule connection_same) (use missed in auto)
  then show ?thesis using missed u by simp
qed

text \<open>
  A socket is reported readable when bytes have arrived, and also when the peer has closed the
  connection or it has failed: \<open>closed k f\<close>.
\<close>

definition readable_ok :: "'k os \<Rightarrow> ('k \<Rightarrow> fd \<Rightarrow> byte list) \<Rightarrow> ('k \<Rightarrow> fd \<Rightarrow> bool) \<Rightarrow> fd \<Rightarrow> bool" where
  "readable_ok os left closed f \<longleftrightarrow>
     (\<forall>k w. (f, True, w) \<in> set (fst (os_epoll_wait os k)) \<longrightarrow> left k f \<noteq> [] \<or> closed k f)"

lemma readable_silent: "readable_ok os left closed f \<Longrightarrow> left k f = [] \<Longrightarrow> \<not> closed k f \<Longrightarrow> silent f os k"
  by (auto simp: readable_ok_def silent_def)

text \<open>In no state of an execution from \<open>x\<close> to \<open>y\<close> the peer has closed the connection.\<close>

definition stays_open ::
  "endian \<Rightarrow> clock \<Rightarrow> 'k os \<Rightarrow> (InboundMessage \<Rightarrow> InboundMessage) \<Rightarrow> (OutboundMessage \<Rightarrow> OutboundMessage) \<Rightarrow>
     ('k \<Rightarrow> fd \<Rightarrow> bool) \<Rightarrow> fd \<Rightarrow> 'k exchange \<Rightarrow> 'k exchange \<Rightarrow> bool" where
  "stays_open e clk os moved_in moved_out closed f x y \<longleftrightarrow>
     (\<forall>log1 z log2. exchange_run e clk os moved_in moved_out x log1 z \<and> exchange_run e clk os moved_in moved_out z log2 y \<longrightarrow>
        \<not> closed (kernel (ex_server z)) f)"

lemma stays_open_before:
  assumes "stays_open e clk os moved_in moved_out closed f x z" and "exchange_run e clk os moved_in moved_out x log y"
    and step: "exchange_step e clk os moved_in moved_out y acts z"
  shows "stays_open e clk os moved_in moved_out closed f x y" and "\<not> closed (kernel (ex_server y)) f"
  using assms(1,2) exchange_run.on [OF _ step] exchange_run.here unfolding stays_open_def by blast+

text \<open>
  A whole execution: when the client has sent everything and does not close, the connection is not
  read any more.
\<close>

lemma exchange_run_unread:
  assumes os: "os_ok os left wire watched backlog" and st: "streams_ok os left wire" and x: "exchange_ok e clk watched x"
    and rd: "readable_ok os left closed f" and left: "left (kernel (ex_server x)) f = []" and u: "unread f (ex_pc x)"
  shows "exchange_run e clk os moved_in moved_out x log y \<Longrightarrow>
    client_at f (ex_server y) = Inr c \<Longrightarrow> active c \<Longrightarrow> Connected f \<notin> set log \<Longrightarrow>
    stays_open e clk os moved_in moved_out closed f x y \<Longrightarrow>
    unread f (ex_pc y) \<and> connection_unread left wire f (ex_server x) log (ex_server y)"
proof (induction arbitrary: c rule: exchange_run.induct)
  case here
  have "connection_unread left wire f (ex_server x) [] (ex_server x)" by (rule connection_same) auto
  then show ?case using u by simp
next
  case (on log y acts z)
  have y: "exchange_ok e clk watched y" using exchange_run_ok [OF os x on.hyps(1)] .
  note before = stays_open_before [OF on.prems(4) on.hyps]
  obtain c1 where c1: "client_at f (ex_server y) = Inr c1" "active c1"
    using exchange_step_connection [OF os st y on.hyps(2), of f] on.prems(1-3) unfolding connection_kept_def by auto
  have IH: "unread f (ex_pc y)" "connection_unread left wire f (ex_server x) log (ex_server y)"
    using on.IH [OF c1] on.prems(3) before(1) by auto
  have "left (kernel (ex_server y)) f = []"
    using IH(2) c1 on.prems(3) left unfolding connection_unread_def by auto
  then have "silent f os (kernel (ex_server y))" by (rule readable_silent [OF rd _ before(2)])
  from exchange_step_unread [OF os st y on.hyps(2) IH(1) this] connection_unread_trans [OF IH(2)]
  show ?case by blast
qed

section \<open>A sample: a client that fills the ring\<close>

text \<open>The client sends one message more than the ring can hold, and the processing thread is idle meanwhile.\<close>

definition live_client :: ClientState where
  "live_client = empty_client\<lparr>active := True, message_type := 1, header_buffer := [1, 0, 0, 0, 22],
     read_buffer := live_payload, payload_length := 22\<rparr>"

definition held_client :: ClientState where
  "held_client = live_client\<lparr>read_phase := PAYLOAD, bytes_read := length live_payload\<rparr>"

definition flooded :: "ClientState \<Rightarrow> InboundMessage ring \<Rightarrow> byte list \<Rightarrow> live_kernel server" where
  "flooded c q bs = (connected_with bs)\<lparr>clients := (replicate 1024 empty_client)[5 := c], inbound := q\<rparr>"

lemma flooded_start: "connected_with bs = flooded (empty_client\<lparr>active := True\<rparr>) (inbound (connected_with bs)) bs"
  by (simp add: flooded_def connected_with_def booted_with_def)

lemma flooded_kernel: "kernel (flooded c q bs) = (\<lparr>pieces = (\<lambda>f. []) (5 := [bs]), sent_bytes = \<lambda>f. []\<rparr>, [], [5, 3])"
  by (simp add: flooded_def connected_with_def client_sends_def)

lemmas read_defs = read_round_def header_part_def payload_part_def parse_header_def live_os_def sample_recv_def
  read_object_def mem_read_def mem_write_def ntohl_def htonl_def object_value_def host_order_def vec_resize_def

lemma flood_round:
  assumes "c = empty_client\<lparr>active := True\<rparr> \<or> c = live_client"
  shows "read_round BE live_os 5 c q (kernel (flooded c q (live_frame @ bs))) =
    Inr (push_message 5 held_client q (kernel (flooded c q bs)))"
  using assms
proof
  assume "c = empty_client\<lparr>active := True\<rparr>"
  then show ?thesis
    by (simp add: flooded_kernel read_defs empty_client_def Let_def live_client_def held_client_def live_frame_def live_payload_def)
next
  assume "c = live_client"
  then show ?thesis
    by (simp add: flooded_kernel read_defs empty_client_def Let_def live_client_def held_client_def live_frame_def live_payload_def)
qed

lemma held_message: "\<lparr>in_fd = 5, in_type = message_type held_client, in_payload = read_buffer held_client\<rparr> = live_message"
  by (simp add: held_client_def live_client_def live_message_def empty_client_def)

lemma flooded_client: "client_at 5 (flooded c q bs) = Inr c" "inbound (flooded c q bs) = q"
  by (simp_all add: flooded_def client_at_def)

lemma flood_step:
  assumes c: "c = empty_client\<lparr>active := True\<rparr> \<or> c = live_client" and q: "queue_ok q" "length (queued q) < 2 ^ 13"
  shows "\<exists>q'. server_step BE live_os (\<lambda>m. m) (Reading 5 False []) (flooded c q (live_frame @ bs)) =
      Inr (Reading 5 False [], flooded live_client q' bs, [Received live_message])
    \<and> queue_ok q' \<and> queued q' = queued q @ [live_message]"
proof -
  obtain q' where q': "try_push DEFAULT_RING_CAPACITY live_message q = (True, q')" "queue_ok q'" "queued q' = queued q @ [live_message]"
    using ring_queue.push_room [OF q, of live_message] by blast
  have "push_message 5 held_client q k = Next live_client q' k" for k :: live_kernel
    using q'(1) unfolding push_message_def held_message by (simp add: held_client_def live_client_def empty_client_def)
  moreover have "set_client 5 live_client ((flooded c q (live_frame @ bs))\<lparr>inbound := q', kernel := kernel (flooded c q bs)\<rparr>) =
      flooded live_client q' bs"
    by (simp add: flooded_def set_client_def connected_with_def booted_with_def)
  ultimately show ?thesis
    using flood_round [OF c, of q bs] q'(2,3) by (intro exI [of _ q']) (simp add: flooded_client received_in_def)
qed

lemma flood_run:
  "c = empty_client\<lparr>active := True\<rparr> \<or> c = live_client \<Longrightarrow> queue_ok q \<Longrightarrow> length (queued q) + n \<le> 2 ^ 13 \<Longrightarrow>
     \<exists>c' q'. server_run BE live_os (\<lambda>m. m) n (Reading 5 False []) (flooded c q (concat (replicate n live_frame) @ bs)) =
         Inr (Reading 5 False [], flooded c' q' bs, replicate n (Received live_message))
       \<and> (c' = empty_client\<lparr>active := True\<rparr> \<or> c' = live_client) \<and> queue_ok q' \<and> queued q' = queued q @ replicate n live_message"
proof (induction n arbitrary: c q)
  case 0
  then show ?case by auto
next
  case (Suc n)
  obtain q1 where 1: "server_step BE live_os (\<lambda>m. m) (Reading 5 False [])
      (flooded c q (live_frame @ (concat (replicate n live_frame) @ bs))) =
      Inr (Reading 5 False [], flooded live_client q1 (concat (replicate n live_frame) @ bs), [Received live_message])"
    "queue_ok q1" "queued q1 = queued q @ [live_message]"
    using flood_step [OF Suc.prems(1,2), of "concat (replicate n live_frame) @ bs"] Suc.prems(3) by auto
  obtain c' q' where "server_run BE live_os (\<lambda>m. m) n (Reading 5 False []) (flooded live_client q1 (concat (replicate n live_frame) @ bs)) =
         Inr (Reading 5 False [], flooded c' q' bs, replicate n (Received live_message))"
    "(c' = empty_client\<lparr>active := True\<rparr> \<or> c' = live_client)" "queue_ok q'" "queued q' = queued q1 @ replicate n live_message"
    using Suc.IH [of live_client q1] 1 Suc.prems(3) by auto
  then show ?case using 1 by (auto simp del: server_step.simps)
qed

text \<open>The last message finds the ring full, and the round ends.\<close>

lemma flood_held:
  assumes c: "c = empty_client\<lparr>active := True\<rparr> \<or> c = live_client" and q: "queue_ok q" "length (queued q) = 2 ^ 13"
  shows "server_run BE live_os (\<lambda>m. m) 2 (Reading 5 False []) (flooded c q live_frame) = Inr (Draining, flooded held_client q [], [])"
proof -
  have "try_push DEFAULT_RING_CAPACITY live_message q = (False, q)"
    using ring_queue.push_full [OF q(1), of live_message] q(2) by simp
  then have "push_message 5 held_client q k = Stop held_client q k" for k :: live_kernel
    unfolding push_message_def held_message by simp
  moreover have "set_client 5 held_client ((flooded c q live_frame)\<lparr>inbound := q, kernel := kernel (flooded c q [])\<rparr>) = flooded held_client q []"
    by (simp add: flooded_def set_client_def connected_with_def booted_with_def)
  ultimately show ?thesis
    using flood_round [OF c, of q "[]"] by (simp add: flooded_client received_in_def after_read_def)
qed

section \<open>Properties\<close>

text \<open>
  C36: A message that found the ring full waits for its client. Let a client have sent a complete
  message that is held back because the inbound ring was full, and nothing after it. Over any part of
  an execution in which the client stays connected and its peer has not closed the connection, this
  message is not pushed, however long the threads run and however much room the ring has meanwhile: no
  message of this client is received, and its read buffer still holds the message. Of \<^verbatim>\<open>epoll_wait\<close> it is
  assumed that a socket is reported readable only when bytes have arrived or the connection was closed.
\<close>

theorem held_message_waits_for_more_input:
  assumes "os_ok os left wire watched backlog" and "streams_ok os left wire" and "watched k0 = {}"
    and "exchange_reach e clk os moved_in moved_out k0 log0 x" and "exchange_run e clk os moved_in moved_out x log y"
    and "readable_ok os left closed f" and "stays_open e clk os moved_in moved_out closed f x y"
    and "ex_pc x = Draining" and "client_at f (ex_server x) = Inr c" and "blocked c" and "left (kernel (ex_server x)) f = []"
    and "client_at f (ex_server y) = Inr c'" and "active c'" and "Connected f \<notin> set log"
  shows "filter (\<lambda>m. in_fd m = f) (received log) = [] \<and> held c' = frame (message_type c) (read_buffer c)"
proof -
  have x: "exchange_ok e clk watched x" by (rule exchange_reach_ok [OF assms(1,3,4)])
  have "unread f (ex_pc x)" by (simp add: assms(8) unread_def)
  from exchange_run_unread [OF assms(1,2) x assms(6,11) this assms(5,12-14) assms(7)]
  have "connection_unread left wire f (ex_server x) log (ex_server y)" by blast
  then have u: "from_client f (received log) = []" "held c' = held c"
    using assms(9,12-14) unfolding connection_unread_def by auto
  have "reader_ok c" using client_ok [OF _ assms(9)] x by (auto simp: exchange_ok_def thread_ok_def)
  from blocked_held(1) [OF this assms(10)] show ?thesis using u by (simp add: from_client_def)
qed

text \<open>
  After the flood one message is processed, so that the ring has room again; the message held back stays
  where it is.
\<close>

lemma flood_reach:
  assumes n: "n = 2 ^ 13"
  shows "\<exists>log q. exchange_reach BE sample_clock live_os (\<lambda>m. m) (\<lambda>m. m) (client_sends (concat (replicate n live_frame) @ live_frame))
      log (at_server (flooded held_client q [])) \<and> queue_ok q \<and> queued q = replicate n live_message"
proof -
  let ?bs = "concat (replicate n live_frame) @ live_frame"
  let ?x = "at_server (connected_with ?bs)"
  have ne: "?bs \<noteq> []" by (simp add: live_frame_def)
  have q0: "queue_ok (inbound (connected_with ?bs))" "queued (inbound (connected_with ?bs)) = []"
    by (simp_all add: connected_with_def booted_with_def)
  then have room: "length (queued (inbound (connected_with ?bs))) + n \<le> 2 ^ 13" using n by (simp only: list.size)
  obtain c q where f: "server_run BE live_os (\<lambda>m. m) n (Reading 5 False []) (connected_with ?bs) =
      Inr (Reading 5 False [], flooded c q live_frame, replicate n (Received live_message))"
    "c = empty_client\<lparr>active := True\<rparr> \<or> c = live_client" "queue_ok q" "queued q = replicate n live_message"
    using flood_run [OF _ q0(1) room, of "empty_client\<lparr>active := True\<rparr>" live_frame] q0(2)
    unfolding flooded_start [symmetric] by auto
  have "length (queued q) = 2 ^ 13" using f(4) n by (simp only: length_replicate)
  note h = flood_held [OF f(2,3) this]
  have run: "server_run BE live_os (\<lambda>m. m) (4 + (n + 2)) Draining (connected_with ?bs) =
      Inr (Draining, flooded held_client q [], replicate n (Received live_message))"
    using server_run_append [OF reads_with [OF ne], of "n + 2"] server_run_append [OF f(1), of 2] h
    by (simp only: append_Nil append_Nil2 result_bind.simps prod.case)
  have "exchange_run BE sample_clock live_os (\<lambda>m. m) (\<lambda>m. m) ?x (replicate n (Received live_message))
      (?x\<lparr>ex_pc := Draining, ex_server := flooded held_client q []\<rparr>)"
    by (rule exchange_run_server [where n = "4 + (n + 2)"]) (simp only: at_server_def exchange.simps run)
  moreover have "?x\<lparr>ex_pc := Draining, ex_server := flooded held_client q []\<rparr> = at_server (flooded held_client q [])"
    by (simp add: at_server_def)
  ultimately show ?thesis
    using exchange_reach_run [OF reach_with [of ?bs]] f(3,4) by metis
qed

lemma flood_processed:
  assumes n: "n = 2 ^ 13" and q: "queue_ok q" "queued q = replicate n live_message"
  shows "\<exists>q' p. exchange_run BE sample_clock live_os (\<lambda>m. m) (\<lambda>m. m) (at_server (flooded held_client q [])) [Processed live_message]
      ((at_server (flooded held_client q' []))\<lparr>ex_processor := p, ex_answers := [live_answer]\<rparr>) \<and> Suc (length (queued q')) = n"
proof -
  obtain m where m: "n = Suc m" using n by (cases n) auto
  then have "queued q = live_message # replicate m live_message" using q(2) by simp
  then obtain q' where q': "try_pop (\<lambda>m. m) DEFAULT_RING_CAPACITY q = (Some live_message, q')" "queued q' = replicate m live_message"
    using ring_queue.pop_next [OF q(1)] by blast
  obtain p where p: "process BE sample_clock live_message new_processor = Inr (p, [live_answer])" using live_process by blast
  let ?x = "at_server (flooded held_client q [])"
  let ?y = "?x\<lparr>ex_server := (ex_server ?x)\<lparr>inbound := q'\<rparr>, ex_processor := p, ex_answers := [live_answer]\<rparr>"
  have "exchange_step BE sample_clock live_os (\<lambda>m. m) (\<lambda>m. m) ?x (taken_from (\<lambda>m. m) (inbound (ex_server ?x))) ?y"
    by (rule exchange_step.processed) (use q'(1) p in \<open>simp_all add: at_server_def flooded_client run_turn_def\<close>)
  from exchange_run.on [OF exchange_run.here this]
  have "exchange_run BE sample_clock live_os (\<lambda>m. m) (\<lambda>m. m) ?x [Processed live_message] ?y"
    using q'(1) by (simp add: at_server_def flooded_client taken_from_def)
  moreover have "?y = (at_server (flooded held_client q' []))\<lparr>ex_processor := p, ex_answers := [live_answer]\<rparr>"
    by (simp add: at_server_def flooded_def)
  ultimately show ?thesis using q'(2) m by (metis length_replicate)
qed

lemma live_os_readable: "readable_ok live_os live_left (\<lambda>k f. False) 5"
  by (auto simp: readable_ok_def live_left_def live_os_def)

lemma held_client_parts:
  "blocked held_client" "active held_client" "message_type held_client = 1" "read_buffer held_client = live_payload"
  "live_left (kernel (flooded c q [])) 5 = []"
  by (simp_all add: held_client_def live_client_def empty_client_def blocked_def live_payload_def
      flooded_kernel live_left_def sample_left_def)

theorem held_message_waits_for_more_input_witness:
  "\<exists>log x log' y c'. exchange_reach BE sample_clock live_os (\<lambda>m. m) (\<lambda>m. m)
       (client_sends (concat (replicate (2 ^ 13) live_frame) @ live_frame)) log x
     \<and> exchange_run BE sample_clock live_os (\<lambda>m. m) (\<lambda>m. m) x log' y \<and> log' = [Processed live_message]
     \<and> length (queued (inbound (ex_server y))) < 2 ^ 13
     \<and> client_at 5 (ex_server y) = Inr c' \<and> filter (\<lambda>m. in_fd m = 5) (received log') = [] \<and> held c' = frame 1 live_payload"
proof -
  define n :: nat where n: "n = 2 ^ 13"
  obtain log q where q: "exchange_reach BE sample_clock live_os (\<lambda>m. m) (\<lambda>m. m) (client_sends (concat (replicate n live_frame) @ live_frame))
      log (at_server (flooded held_client q []))" "queue_ok q" "queued q = replicate n live_message"
    using flood_reach [OF n] by blast
  obtain q' p where y: "exchange_run BE sample_clock live_os (\<lambda>m. m) (\<lambda>m. m) (at_server (flooded held_client q [])) [Processed live_message]
      ((at_server (flooded held_client q' []))\<lparr>ex_processor := p, ex_answers := [live_answer]\<rparr>)" "Suc (length (queued q')) = n"
    using flood_processed [OF n q(2,3)] by blast
  let ?y = "(at_server (flooded held_client q' []))\<lparr>ex_processor := p, ex_answers := [live_answer]\<rparr>"
  have s: "client_at 5 (ex_server ?y) = Inr held_client" "length (queued (inbound (ex_server ?y))) < n"
    using y(2) by (simp_all add: at_server_def flooded_client)
  have "filter (\<lambda>m. in_fd m = 5) (received [Processed live_message]) = [] \<and>
      held held_client = frame (message_type held_client) (read_buffer held_client)"
    by (rule held_message_waits_for_more_input [OF live_os_ok live_streams_ok client_sends_watched q(1) y(1) live_os_readable _ _ _ _ _ s(1)])
      (simp_all add: at_server_def flooded_client held_client_parts stays_open_def)
  then show ?thesis
    unfolding n [symmetric] using q(1) y(1) s by (metis held_client_parts(3,4))
qed

end
