(* ===== verification/Stalled_Output.thy ===== *)
theory Stalled_Output
  imports Starvation
begin

text \<open>
  Output that the kernel refuses. \<^verbatim>\<open>try_send\<close> neither registers interest in writability nor keeps the
  descriptor in the list of pending writes when \<^verbatim>\<open>send\<close> would block. Shown is that the bytes then stay
  in the client's buffer as long as no further message for the client is taken from the ring.
\<close>

section \<open>Interest in writability\<close>

text \<open>
  \<open>armed k\<close> are the descriptors registered with \<^verbatim>\<open>EPOLLOUT\<close>: only \<^verbatim>\<open>EPOLL_CTL_MOD\<close> with that flag adds
  one, and \<^verbatim>\<open>epoll_wait\<close> reports only these as writable.
\<close>

definition epollout_ok :: "'k os \<Rightarrow> ('k \<Rightarrow> fd set) \<Rightarrow> bool" where
  "epollout_ok os armed \<longleftrightarrow>
     (\<forall>k. armed (snd (os_epoll_wait os k)) \<subseteq> armed k
        \<and> (\<forall>f r. (f, r, True) \<in> set (fst (os_epoll_wait os k)) \<longrightarrow> f \<in> armed k))
     \<and> (\<forall>f k. armed (snd (os_nonblock os f k)) \<subseteq> armed k \<and> armed (os_nodelay os f k) \<subseteq> armed k
        \<and> armed (snd (os_epoll_add os f k)) \<subseteq> armed k \<and> armed (os_epoll_del os f k) \<subseteq> armed k
        \<and> armed (os_close os f k) \<subseteq> armed k \<and> armed (snd (os_accept os f k)) \<subseteq> armed k)
     \<and> (\<forall>f b k. armed (os_epoll_mod os f b k) \<subseteq> (if b then insert f (armed k) else armed k - {f}))
     \<and> (\<forall>f n k. armed (snd (os_recv os f n k)) \<subseteq> armed k)
     \<and> (\<forall>f bs k. armed (snd (os_send os f bs k)) \<subseteq> armed k)"

lemma epollout_calls:
  assumes "epollout_ok os armed"
  shows "os_epoll_wait os k = (evs, k') \<Longrightarrow> armed k' \<subseteq> armed k \<and> (\<forall>f r. (f, r, True) \<in> set evs \<longrightarrow> f \<in> armed k)"
    and "os_nonblock os f k = (b, k') \<Longrightarrow> armed k' \<subseteq> armed k"
    and "armed (os_nodelay os f k) \<subseteq> armed k"
    and "os_epoll_add os f k = (b, k') \<Longrightarrow> armed k' \<subseteq> armed k"
    and "armed (os_close os f (os_epoll_del os f k)) \<subseteq> armed k"
    and "os_accept os f k = (ar, k') \<Longrightarrow> armed k' \<subseteq> armed k"
    and "armed (os_epoll_mod os f w k) \<subseteq> insert f (armed k)"
    and "os_recv os f n k = (rr, k') \<Longrightarrow> armed k' \<subseteq> armed k"
    and "os_send os f bs k = (sr, k') \<Longrightarrow> armed k' \<subseteq> armed k"
proof -
  note ok = assms [unfolded epollout_ok_def]
  show "os_epoll_wait os k = (evs, k') \<Longrightarrow> armed k' \<subseteq> armed k \<and> (\<forall>f r. (f, r, True) \<in> set evs \<longrightarrow> f \<in> armed k)"
    using ok by (metis fst_conv snd_conv)
  show "armed (os_close os f (os_epoll_del os f k)) \<subseteq> armed k" using ok by (meson order_trans)
  have "armed (os_epoll_mod os f w k) \<subseteq> (if w then insert f (armed k) else armed k - {f})" using ok by blast
  then show "armed (os_epoll_mod os f w k) \<subseteq> insert f (armed k)" by (cases w) auto
qed (use assms in \<open>unfold epollout_ok_def, metis snd_conv\<close>)+

section \<open>A connection that is not written\<close>

text \<open>The descriptors that the current or the next flush sends to.\<close>

definition to_flush :: "server_pc \<Rightarrow> 'k server \<Rightarrow> fd list" where
  "to_flush pc s = (case pc of Flushing fs \<Rightarrow> fs | _ \<Rightarrow> pending_writes s)"

definition calm :: "('k \<Rightarrow> fd set) \<Rightarrow> fd \<Rightarrow> server_pc \<Rightarrow> 'k server \<Rightarrow> bool" where
  "calm armed f pc s \<longleftrightarrow> f \<notin> set (to_flush pc s) \<and> (\<forall>r. (f, r, True) \<notin> set (pending_events pc))
     \<and> (\<forall>evs. pc \<noteq> Writing f evs \<and> pc \<noteq> Reading f True evs) \<and> f \<notin> armed (kernel s)"

lemmas calm_defs = calm_def to_flush_def

text \<open>The kernel goes on without handing over bytes for \<open>f\<close> and without interest in its writability.\<close>

definition still :: "('k \<Rightarrow> fd \<Rightarrow> byte list) \<Rightarrow> ('k \<Rightarrow> fd set) \<Rightarrow> fd \<Rightarrow> 'k \<Rightarrow> 'k \<Rightarrow> bool" where
  "still wire armed f k k' \<longleftrightarrow> wire k' f = wire k f \<and> (f \<in> armed k' \<longrightarrow> f \<in> armed k)"

lemma still_refl [simp]: "still wire armed f k k"
  and still_trans: "still wire armed f k k1 \<Longrightarrow> still wire armed f k1 k2 \<Longrightarrow> still wire armed f k k2"
  by (simp_all add: still_def)

lemma calm_after_read:
  assumes "f \<notin> set (pending_writes s)" and "\<And>r. (f, r, True) \<notin> set evs" and "f \<notin> armed (kernel s)" and "g = f \<Longrightarrow> \<not> w"
  shows "calm armed f (after_read g w evs) s"
  using assms by (auto simp: calm_defs after_read_def)

text \<open>What a call of \<^verbatim>\<open>try_send\<close> or \<^verbatim>\<open>handle_write\<close> for another descriptor does to the kernel.\<close>

lemma sending_still:
  assumes os: "send_ok os wire" "epollout_ok os armed" and "g \<noteq> f"
    and step: "try_send os g s = Inr s' \<or> handle_write os g s = Inr s'"
  shows "still wire armed f (kernel s) (kernel s')" and "pending_writes s' = pending_writes s"
proof -
  obtain c where c: "client_at g s = Inr c" using step by (auto simp: try_send_def handle_write_def result_bind_Inr)
  obtain r k where r: "os_send os g (unsent c) (kernel s) = (r, k)" by fastforce
  have k: "kernel s' \<in> {kernel s, k, os_epoll_mod os g True k, os_epoll_mod os g False k, os_close os g (os_epoll_del os g k)}
      \<and> pending_writes s' = pending_writes s"
    using step c r
    by (auto simp: try_send_def handle_write_def disconnect_eq set_epoll_write_def unsent_def [symmetric] Let_def
        split: if_splits send_result.splits)
  have "still wire armed f (kernel s) k"
    using send_facts(1) [OF os(1) r, of f] epollout_calls(9) [OF os(2) r] assms(3) by (auto simp: still_def)
  moreover have "still wire armed f k (os_epoll_mod os g b k)" for b k
    using send_ok_calls(1) [OF os(1), of g b k] epollout_calls(7) [OF os(2), of g b k] assms(3) by (auto simp: still_def)
  moreover have "still wire armed f k (os_close os g (os_epoll_del os g k))" for k
    using send_ok_calls(2) [OF os(1), of g k] epollout_calls(5) [OF os(2), of g k] by (auto simp: still_def)
  ultimately show "still wire armed f (kernel s) (kernel s')" using k by (auto intro: still_trans)
  show "pending_writes s' = pending_writes s" using k by simp
qed

lemma accepting_still:
  assumes st: "streams_ok os left wire" and os: "epollout_ok os armed" and a: "accept_one os s = Inr (a, s')" and "a \<noteq> Some f"
  shows "still wire armed f (kernel s) (kernel s')" and "pending_writes s' = pending_writes s"
proof -
  obtain ar k where r: "os_accept os (server_fd s) (kernel s) = (ar, k)" by fastforce
  have "still wire armed f (kernel s) (kernel s') \<and> pending_writes s' = pending_writes s"
  proof (cases ar)
    case (Accepted g)
    obtain b1 k1 where 1: "os_nonblock os g k = (b1, k1)" by fastforce
    obtain b2 k2 where 2: "os_epoll_add os g k1 = (b2, k2)" by fastforce
    have s': "a = Some g" "s' = add_client g (s\<lparr>kernel := os_nodelay os g k2\<rparr>)"
      using a r Accepted 1 2 by (auto simp: accept_one_def split: bool.splits)
    have "still wire armed f (kernel s) k"
      using stream_calls(10) [OF st r, of f] epollout_calls(6) [OF os r] Accepted s'(1) assms(4) by (auto simp: still_def)
    moreover have "still wire armed f k (os_nodelay os g k2)"
      using stream_calls(7) [OF st 1] stream_calls(8) [OF st 2] stream_calls(9) [OF st, of g k2]
        epollout_calls(2) [OF os 1] epollout_calls(4) [OF os 2] epollout_calls(3) [OF os, of g k2] by (auto simp: still_def)
    ultimately have "still wire armed f (kernel s) (os_nodelay os g k2)" by (rule still_trans)
    then show ?thesis by (simp add: s'(2) add_client_def Let_def)
  next
    case Accept_again
    then show ?thesis
      using a r stream_calls(10) [OF st r, of f] epollout_calls(6) [OF os r] by (auto simp: accept_one_def still_def)
  qed (use a r in \<open>simp add: accept_one_def\<close>)
  then show "still wire armed f (kernel s) (kernel s')" "pending_writes s' = pending_writes s" by blast+
qed

lemma reading_still:
  assumes st: "streams_ok os left wire" and os: "send_ok os wire" "epollout_ok os armed"
    and step: "server_step e os moved (Reading g w evs) s = Inr (pc', s', acts)"
  shows "still wire armed f (kernel s) (kernel s')" and "pending_writes s' = pending_writes s"
    and "pc' \<in> {Reading g w evs, after_read g w evs}"
proof -
  obtain c out where out: "client_at g s = Inr c" "read_round e os g c (inbound s) (kernel s) = Inr out"
    using step by (auto simp: result_bind_Inr)
  have recv: "still wire armed f k k'" if "os_recv os g n k = (rr, k')" for n k rr k'
    using stream_calls(2) [OF st that] epollout_calls(8) [OF os(2) that] by (auto simp: still_def)
  have "still wire armed f (kernel s) (out_kernel out)"
    by (rule read_round_kernel [of "still wire armed f", OF still_refl recv still_trans out(2)])
  moreover have "still wire armed f k (os_close os g (os_epoll_del os g k))" for k
    using send_ok_calls(2) [OF os(1), of g k] epollout_calls(5) [OF os(2), of g k] by (auto simp: still_def)
  ultimately show "still wire armed f (kernel s) (kernel s')" "pending_writes s' = pending_writes s"
    "pc' \<in> {Reading g w evs, after_read g w evs}"
    using step out
    by (cases out; auto simp: result_bind_Inr disconnect_client_def Let_def set_client_def intro: still_trans)+
qed

text \<open>A step of the server: unless it takes a message for \<open>f\<close> or accepts \<open>f\<close>, it does not send to \<open>f\<close>.\<close>

lemma queue_output_other: "out_fd m \<noteq> f \<Longrightarrow> f \<in> set (pending_writes (queue_output m s)) \<longleftrightarrow> f \<in> set (pending_writes s)"
  by (auto simp: queue_output_def split: sum.split)

lemma server_step_calm:
  assumes st: "streams_ok os left wire" and os: "send_ok os wire" "epollout_ok os armed"
    and step: "server_step e os moved pc s = Inr (pc', s', acts)" and calm: "calm armed f pc s"
    and acts: "Connected f \<notin> set acts" "\<And>m. Delivered m \<in> set acts \<Longrightarrow> out_fd m \<noteq> f"
  shows "calm armed f pc' s' \<and> wire (kernel s') f = wire (kernel s) f"
proof (cases pc)
  case Draining
  then show ?thesis
    using step calm acts(2) by (auto simp: calm_defs queue_output_other split: prod.splits option.splits)
next
  case (Flushing fs)
  show ?thesis
  proof (cases fs)
    case Nil
    then show ?thesis using step Flushing calm by (auto simp: calm_defs)
  next
    case (Cons g fs')
    then have "try_send os g s = Inr s'" "pc' = Flushing fs'" "g \<noteq> f"
      using step Flushing calm by (auto simp: calm_defs result_bind_Inr)
    then show ?thesis using sending_still [OF os, of g f s s'] calm Flushing Cons by (auto simp: calm_defs still_def)
  qed
next
  case Waiting
  obtain evs k where w: "os_epoll_wait os (kernel s) = (evs, k)" by fastforce
  note out = epollout_calls(1) [OF os(2) w]
  have "(f, r, True) \<notin> set (take 64 evs)" for r
    using out calm in_set_takeD [of "(f, r, True)" 64 evs] unfolding calm_def by blast
  then show ?thesis using step Waiting calm w out stream_calls(6) [OF st w] by (auto simp: calm_defs)
next
  case (Handling evs)
  show ?thesis
  proof (cases evs)
    case Nil
    then show ?thesis using step Handling calm by (auto simp: calm_defs)
  next
    case (Cons ev evs')
    obtain g r w where ev: "ev = (g, r, w)" by (cases ev)
    have c: "f \<notin> set (pending_writes s)" "\<And>r. (f, r, True) \<notin> set evs'" "f \<notin> armed (kernel s)" "g = f \<Longrightarrow> \<not> w"
      using calm Handling Cons ev by (auto simp: calm_defs)
    then have "calm armed f (Accepting evs') s" "calm armed f (Reading g w evs') s" by (auto simp: calm_defs)
    then show ?thesis
      using step Handling Cons ev calm_after_read [where armed = armed, OF c] by (auto simp: result_bind_Inr split: if_splits)
  qed
next
  case (Accepting evs)
  then obtain a where a: "accept_one os s = Inr (a, s')" "pc' \<in> {Handling evs, Accepting evs}" "a \<noteq> Some f"
    using step acts(1) by (auto simp: result_bind_Inr split: option.splits)
  then show ?thesis using accepting_still [OF st os(2) a(1,3)] calm Accepting by (auto simp: calm_defs still_def)
next
  case (Reading g w evs)
  note r = reading_still [OF st os step [unfolded Reading]]
  have c: "f \<notin> set (pending_writes s')" "\<And>r. (f, r, True) \<notin> set evs" "f \<notin> armed (kernel s')" "g = f \<Longrightarrow> \<not> w"
    using calm Reading r(1) [of f] r(2) by (auto simp: calm_defs still_def)
  then have "calm armed f (Reading g w evs) s'" by (auto simp: calm_defs)
  then show ?thesis using r(1) [of f] r(3) calm_after_read [where armed = armed, OF c] by (auto simp: still_def)
next
  case (Writing g evs)
  then have "handle_write os g s = Inr s'" "pc' = Handling evs" "g \<noteq> f"
    using step calm by (auto simp: calm_defs result_bind_Inr)
  then show ?thesis using sending_still [OF os, of g f s s'] calm Writing by (auto simp: calm_defs still_def)
qed

lemma calm_same:
  "calm armed f pc (s\<lparr>inbound := q\<rparr>) = calm armed f pc s" "calm armed f pc (s\<lparr>outbound := q'\<rparr>) = calm armed f pc s"
  by (simp_all add: calm_defs split: server_pc.split)

lemma exchange_run_calm:
  assumes st: "streams_ok os left wire" and os: "send_ok os wire" "epollout_ok os armed" and x: "calm armed f (ex_pc x) (ex_server x)"
  shows "exchange_run e clk os moved_in moved_out x log y \<Longrightarrow> Connected f \<notin> set log \<Longrightarrow>
    (\<forall>m. Delivered m \<in> set log \<longrightarrow> out_fd m \<noteq> f) \<Longrightarrow>
    calm armed f (ex_pc y) (ex_server y) \<and> wire (kernel (ex_server y)) f = wire (kernel (ex_server x)) f"
proof (induction rule: exchange_run.induct)
  case here
  show ?case using x by simp
next
  case (on log y acts z)
  then have y: "calm armed f (ex_pc y) (ex_server y)" "wire (kernel (ex_server y)) f = wire (kernel (ex_server x)) f"
    and acts: "Connected f \<notin> set acts" "\<And>m. Delivered m \<in> set acts \<Longrightarrow> out_fd m \<noteq> f" by auto
  note step = server_step_calm [OF st os _ _ acts]
  from on.hyps(2) have "calm armed f (ex_pc z) (ex_server z) \<and> wire (kernel (ex_server z)) f = wire (kernel (ex_server y)) f"
  proof cases
    case (served pc s)
    then show ?thesis using step [OF served(2) y(1)] by simp
  next
    case found_empty
    then show ?thesis using y(1) by (auto simp: calm_defs)
  next
    case (found_full g w evs q pc s)
    then show ?thesis using step [OF found_full(5)] y(1) by (simp add: calm_same)
  qed (use y(1) in \<open>simp_all add: calm_same\<close>)
  then show ?case using y(2) by simp
qed

section \<open>Properties\<close>

lemma delivered_iff: "m \<in> set (delivered log) \<longleftrightarrow> Delivered m \<in> set log"
  by (induction log) (auto simp: delivered_def split: action.split)

text \<open>
  C35: Output can stall. In any state that keeps the invariant of the exchange, in particular in every
  reachable one, let the server be about to make its last attempt of a flush to send to a client that
  is not registered for \<^verbatim>\<open>EPOLLOUT\<close>, and let the kernel have no room. The attempt leaves the client's
  bytes in its buffer, and they stay there: as long as the client is connected and no further message
  for it is taken from the outbound ring, however long the threads run, nothing is handed to the
  kernel for it and the bytes to be sent are the same. Of \<^verbatim>\<open>epoll\<close> it is assumed that only descriptors
  registered for it are reported writable.
\<close>

theorem refused_send_is_not_retried:
  assumes "os_ok os left wire watched backlog" and "streams_ok os left wire" and "epollout_ok os armed"
    and "exchange_ok e clk watched x" and "ex_pc x = Flushing (f # fs)" and "f \<notin> set fs"
    and "client_at f (ex_server x) = Inr c" and "active c" and "unsent c \<noteq> []"
    and "os_send os f (unsent c) (kernel (ex_server x)) = (Send_again, k)" and "f \<notin> armed (kernel (ex_server x))"
    and "y = x\<lparr>ex_pc := Flushing fs, ex_server := (ex_server x)\<lparr>kernel := k\<rparr>\<rparr>"
  shows "exchange_step e clk os moved_in moved_out x [] y
    \<and> (\<forall>log z c'. exchange_run e clk os moved_in moved_out y log z \<and> client_at f (ex_server z) = Inr c' \<and> active c'
          \<and> Connected f \<notin> set log \<and> (\<forall>m \<in> set (delivered log). out_fd m \<noteq> f) \<longrightarrow>
        wire (kernel (ex_server z)) f = wire (kernel (ex_server x)) f \<and> unsent c' = unsent c)"
proof -
  have os: "send_ok os wire" using assms(1) by (simp add: os_ok_def)
  have "write_buffer c \<noteq> []" using assms(9) by (auto simp: unsent_def)
  then have "try_send os f (ex_server x) = Inr ((ex_server x)\<lparr>kernel := k\<rparr>)"
    using assms(7,8,10) by (simp add: try_send_def unsent_def [symmetric])
  then have step: "exchange_step e clk os moved_in moved_out x [] y"
    unfolding assms(12) by (intro exchange_step.served) (simp add: assms(5))
  have y: "exchange_ok e clk watched y"
    using exchange_run_ok [OF assms(1,4) exchange_run.on [OF exchange_run.here step]] .
  have s: "client_at f (ex_server y) = Inr c" "kernel (ex_server y) = k" "ex_pc y = Flushing fs"
    using assms(7) by (simp_all add: assms(12))
  have k: "wire k f = wire (kernel (ex_server x)) f" using send_facts(3) [OF os assms(10)] by simp
  have "f \<notin> armed k" using epollout_calls(9) [OF assms(3,10)] assms(11) by blast
  then have calm: "calm armed f (ex_pc y) (ex_server y)" using assms(6) by (simp add: s calm_defs)
  have "wire (kernel (ex_server z)) f = wire (kernel (ex_server x)) f \<and> unsent c' = unsent c"
    if z: "exchange_run e clk os moved_in moved_out y log z" "client_at f (ex_server z) = Inr c'" "active c'"
      "Connected f \<notin> set log" "\<forall>m \<in> set (delivered log). out_fd m \<noteq> f" for log z c'
  proof -
    have "wire (kernel (ex_server z)) f = wire k f"
      using exchange_run_calm [OF assms(2) os assms(3) calm z(1,4)] z(5) by (simp add: delivered_iff s(2))
    moreover have "wire (kernel (ex_server z)) f @ unsent c' = wire k f @ unsent c @ addressed f (delivered log)"
      using exchange_run_connection [OF assms(1,2) y z(1), of f] z(2-4) s(1,2) unfolding connection_kept_def by auto
    moreover have "addressed f (delivered log) = []" using z(5) by (auto simp: addressed_def)
    ultimately show ?thesis using k by simp
  qed
  then show ?thesis using step by blast
qed

text \<open>A kernel whose sockets take nothing, and a server about to flush two bytes to its client.\<close>

definition full_os :: "live_kernel os" where
  "full_os = live_os\<lparr>os_send := \<lambda>f bs k. (Send_again, k)\<rparr>"

lemma full_os_ok:
  "os_ok full_os live_left live_wire live_watched live_backlog" "streams_ok full_os live_left live_wire"
  "epollout_ok full_os (\<lambda>k. {})"
proof -
  show "os_ok full_os live_left live_wire live_watched live_backlog"
    using live_os_ok by (simp add: os_ok_def full_os_def recv_ok_def send_ok_def watch_ok_def accept_ok_def)
  show "streams_ok full_os live_left live_wire" using live_streams_ok by (simp add: full_os_def streams_ok_def)
  show "epollout_ok full_os (\<lambda>k. {})" by (auto simp: epollout_ok_def full_os_def live_os_def)
qed

definition stalled :: "live_kernel exchange" where
  "stalled = \<lparr>ex_pc = Flushing [5],
     ex_server = set_client 5 (empty_client\<lparr>active := True, write_buffer := [1, 2]\<rparr>) (live_server\<lparr>pending_writes := [5]\<rparr>),
     ex_processor = new_processor, ex_answers = []\<rparr>"

lemma stalled_client: "client_at 5 (ex_server stalled) = Inr (empty_client\<lparr>active := True, write_buffer := [1, 2]\<rparr>)"
proof -
  have "client_at 5 (live_server\<lparr>pending_writes := [5]\<rparr>) = Inr (empty_client\<lparr>active := True\<rparr>)"
    using sample_outbox_facts(4) by (simp add: live_server_def client_at_def split: if_splits)
  from client_at_set [OF this, of 5] show ?thesis by (simp add: stalled_def)
qed

lemma stalled_ok: "exchange_ok LE sample_clock live_watched stalled"
proof -
  have r: "in_range live_server 5" using stalled_client in_range_client [of "ex_server stalled" 5] by (simp add: stalled_def)
  then have s: "server_ok live_watched (live_server\<lparr>pending_writes := [5]\<rparr>)"
    using live_server_ok by (simp add: server_ok_def)
  have c: "reader_ok (empty_client\<lparr>active := True, write_buffer := [1, 2]\<rparr>)" "writer_ok (empty_client\<lparr>active := True, write_buffer := [1, 2]\<rparr>)"
    by (simp_all add: writer_ok_def empty_client_def reader_ok_def)
  have "server_ok live_watched (ex_server stalled)"
    using client_change_ok(1) [OF client_change_set [OF s c subset_refl] s, of 5] by (simp add: stalled_def)
  then show ?thesis using r proc_reach.start by (simp add: exchange_ok_def thread_ok_def) (simp add: stalled_def)
qed

theorem refused_send_is_not_retried_witness:
  "\<exists>y z c'. exchange_step LE sample_clock full_os (\<lambda>m. m) (\<lambda>m. m) stalled [] y
     \<and> exchange_run LE sample_clock full_os (\<lambda>m. m) (\<lambda>m. m) y [] z \<and> ex_pc z = Draining
     \<and> client_at 5 (ex_server z) = Inr c' \<and> unsent c' = [1, 2] \<and> live_wire (kernel (ex_server z)) 5 = []"
proof -
  let ?c = "empty_client\<lparr>active := True, write_buffer := [1, 2]\<rparr>" and ?k = "kernel (ex_server stalled)"
  let ?y = "stalled\<lparr>ex_pc := Flushing [], ex_server := (ex_server stalled)\<lparr>kernel := ?k\<rparr>\<rparr>"
  let ?s = "(ex_server stalled)\<lparr>pending_writes := []\<rparr>"
  have u: "unsent ?c = [1, 2]" by (simp add: unsent_def empty_client_def)
  have snd: "os_send full_os 5 (unsent ?c) ?k = (Send_again, ?k)" by (simp add: full_os_def)
  have w: "os_epoll_wait full_os (kernel ?s) = ([], kernel ?s)"
    by (simp add: full_os_def live_os_def stalled_def live_server_def sample_outbox_def sample_server_def sample_left_def)
  have run: "exchange_run LE sample_clock full_os (\<lambda>m. m) (\<lambda>m. m) ?y [] (?y\<lparr>ex_pc := Draining, ex_server := ?s\<rparr>)"
    by (rule exchange_run_server [where n = 3]) (use w in simp)
  have z: "client_at 5 ?s = Inr ?c" using stalled_client by simp
  have "exchange_step LE sample_clock full_os (\<lambda>m. m) (\<lambda>m. m) stalled [] ?y
    \<and> (\<forall>log z c'. exchange_run LE sample_clock full_os (\<lambda>m. m) (\<lambda>m. m) ?y log z \<and> client_at 5 (ex_server z) = Inr c' \<and> active c'
          \<and> Connected 5 \<notin> set log \<and> (\<forall>m \<in> set (delivered log). out_fd m \<noteq> 5) \<longrightarrow>
        live_wire (kernel (ex_server z)) 5 = live_wire ?k 5 \<and> unsent c' = unsent ?c)"
    by (rule refused_send_is_not_retried [OF full_os_ok stalled_ok _ _ stalled_client _ _ snd]) (simp_all add: u, simp add: stalled_def)
  moreover have "live_wire ?k 5 = []"
    by (simp add: live_wire_def stalled_def live_server_def sample_outbox_def sample_server_def)
  ultimately show ?thesis
    using run z u by (intro exI [of _ ?y] exI [of _ "?y\<lparr>ex_pc := Draining, ex_server := ?s\<rparr>"] exI [of _ ?c]) fastforce
qed

end
