(* ===== verification/Depth.thy ===== *)
theory Depth
  imports Book_Reach
begin

text \<open>
  The text of \<^verbatim>\<open>OrderBook::print_depth\<close>, compared with a reference definition on the priority
  queues: the distinct prices in priority order, and for each the quantity of all resting orders at
  that price, as a \<^verbatim>\<open>Quantity\<close>.
\<close>

section \<open>Reference definition\<close>

definition ref_total :: "Price \<Rightarrow> order list \<Rightarrow> nat" where
  "ref_total p q = sum_list (map (\<lambda>x. unat (o_quantity x)) (filter (\<lambda>x. o_price x = p) q))"

definition ref_rows :: "nat \<Rightarrow> order list \<Rightarrow> (Price \<times> Quantity) list" where
  "ref_rows n q = take n (map (\<lambda>p. (p, of_nat (ref_total p q))) (remdups_adj (map o_price q)))"

definition ref_depth :: "nat \<Rightarrow> queues \<Rightarrow> string" where
  "ref_depth n qs = ''---order book---'' @ [CHR 0x0A]
     @ concat (map (depth_line '' ASK '') (rev (ref_rows n (ask_queue qs))))
     @ ''--------------'' @ [CHR 0x0A]
     @ concat (map (depth_line '' BID '') (ref_rows n (bid_queue qs)))"

section \<open>Lemmas\<close>

lemma fold_add_sum: "fold (\<lambda>x acc. acc + f x) xs a = a + sum_list (map f xs)" for a :: "'a::comm_monoid_add"
  by (induction xs arbitrary: a) (simp_all add: add.assoc)

lemma level_total_of_nat:
  "level_total l = of_nat (sum_list (map (\<lambda>n. unat (o_quantity (node_order n))) l))"
proof -
  have "of_nat (sum_list (map (\<lambda>n. unat (f n)) l)) = sum_list (map f l)" for f :: "lnode \<Rightarrow> Quantity"
    by (induction l) simp_all
  then show ?thesis by (simp add: level_total_def fold_add_sum)
qed

lemma remdups_adj_level:
  "l \<noteq> [] \<Longrightarrow> \<forall>x \<in> set l. x = p \<Longrightarrow> \<forall>x \<in> set r. x \<noteq> p \<Longrightarrow> remdups_adj (l @ r) = p # remdups_adj r"
proof (induction l)
  case (Cons a l)
  then show ?case by (cases l; cases r) auto
qed simp

context book_half
begin

lemma rows_ref_all:
  "side_ok lt s m \<Longrightarrow> map (\<lambda>(p, l). (p, level_total l)) m =
     map (\<lambda>p. (p, of_nat (ref_total p (abs_side m)))) (remdups_adj (map o_price (abs_side m)))"
proof (induction m)
  case Nil
  then show ?case by (simp add: abs_side_def)
next
  case (Cons e m)
  obtain p l where e: "e = (p, l)" by (cases e)
  have ok: "l \<noteq> []" "\<forall>n \<in> set l. resting_ok s p (node_order n)" "\<forall>e \<in> set m. lt p (fst e)" "side_ok lt s m"
    using Cons.prems by (simp_all add: e side_ok_Cons)
  have here: "\<forall>x \<in> set (map node_order l). o_price x = p" using ok(2) by (auto simp: resting_ok_def)
  have there: "\<forall>x \<in> set (abs_side m). o_price x \<noteq> p"
    using node_prices_above [OF ok(3,4)] by (fastforce simp: abs_side_def)
  have q: "abs_side (e # m) = map node_order l @ abs_side m" by (simp add: e abs_side_def)
  have keys: "remdups_adj (map o_price (abs_side (e # m))) = p # remdups_adj (map o_price (abs_side m))"
    unfolding q map_append using ok(1) here there by (intro remdups_adj_level) auto
  have "filter (\<lambda>x. o_price x = p) (abs_side (e # m)) = map node_order l"
    using here there by (auto simp: q filter_empty_conv intro!: filter_True)
  then have top: "of_nat (ref_total p (abs_side (e # m))) = level_total l"
    by (simp add: ref_total_def level_total_of_nat comp_def)
  have "filter (\<lambda>x. o_price x = k) (map node_order l) = []" if "k \<noteq> p" for k
    using here that by (auto simp: filter_empty_conv)
  then have rest: "ref_total k (abs_side (e # m)) = ref_total k (abs_side m)" if "k \<noteq> p" for k
    using that by (simp add: ref_total_def q)
  have "map (\<lambda>k. (k, of_nat (ref_total k (abs_side (e # m))) :: Quantity)) (remdups_adj (map o_price (abs_side m))) =
      map (\<lambda>k. (k, of_nat (ref_total k (abs_side m)))) (remdups_adj (map o_price (abs_side m)))"
    using there rest by (intro map_cong) auto
  then show ?case using Cons.IH [OF ok(4)] by (simp add: keys top) (simp add: e)
qed

lemma depth_rows_ref: "side_ok lt s m \<Longrightarrow> depth_rows levels m = ref_rows (nat levels) (abs_side m)"
  using rows_ref_all [of m] by (simp add: depth_rows_def ref_rows_def flip: take_map)

end

section \<open>Properties\<close>

text \<open>
  C29: \<^verbatim>\<open>print_depth\<close> prints the depth of the book. On a well-formed book with fewer than \<open>2 ^ 31\<close> ask
  levels and for a non-negative number of levels, the text is the reference text: the best ask
  prices, worst first, then the best bid prices, best first, each with the total of its resting
  quantity modulo \<open>2 ^ 32\<close>. A negative number of levels throws after the first line.
\<close>

theorem print_depth_is_reference:
  assumes "book_wf b" and "length (asks b) < 2 ^ 31"
  shows "print_depth b levels =
    (if levels < 0 then (Some (Length_error ''vector::reserve''), ''---order book---'' @ [CHR 0x0A])
     else (None, ref_depth (nat levels) (abs_book b)))"
proof -
  have "sint (of_nat (length (asks b)) :: 32 word) = int (length (asks b))"
    using assms(2) by (simp add: sint_uint unsigned_of_nat take_bit_nat_eq_self signed_take_bit_int_eq_self)
  then have "min levels (sint (of_nat (length (asks b)) :: 32 word)) < 0 \<longleftrightarrow> levels < 0" by auto
  then show ?thesis
    using assms(1) bid_half.depth_rows_ref ask_half.depth_rows_ref
    by (simp add: print_depth_def ref_depth_def abs_book_def book_wf_def Let_def)
qed

theorem print_depth_is_reference_witness:
  "print_depth sample_book 1 = (None, ''---order book---'' @ [CHR 0x0A]
     @ depth_line '' ASK '' (100, 100) @ ''--------------'' @ [CHR 0x0A])"
proof -
  have "length (asks sample_book) < 2 ^ 31" by (simp add: sample_book_eq)
  from print_depth_is_reference [OF sample_book_wf this, of 1] show ?thesis
    by (simp add: ref_depth_def ref_rows_def ref_total_def abs_book_def sample_book_sides)
qed

end
