(* ===== verification/Ring_Concurrent.thy ===== *)
theory Ring_Concurrent
  imports Ring_Buffer
begin

text \<open>
  The ring buffer with its two threads interleaved. \<^verbatim>\<open>try_push\<close> and \<^verbatim>\<open>try_pop\<close> are cut at
  their accesses to shared memory; a producer that is between two accesses keeps its local
  variables in its program counter, and so does a consumer.

  Memory order: a thread reads the counter that it alone writes exactly (the relaxed loads). An
  acquire load of the other thread's counter may return any value that was stored, but not one
  older than a value the thread has read before (coherence); what was written to the buffer before
  the release store of the value read is visible. The values stored in a counter are \<open>0, 1, 2\<close>
  and so on, so a stale value is named by its position: \<open>p_seen\<close> and \<open>c_seen\<close> are the positions
  of the values last read. \<open>pushed\<close> and \<open>popped\<close> record the items whose counter update is done.
\<close>

section \<open>Definitions\<close>

datatype 'a producer = P_idle | P_head 'a size_t | P_both 'a size_t size_t | P_stored 'a size_t
datatype 'a consumer = C_idle | C_tail size_t | C_both size_t size_t | C_taken 'a size_t

record 'a spsc =
  ring_mem :: "'a ring"
  prod :: "'a producer"
  cons :: "'a consumer"
  p_seen :: nat
  c_seen :: nat
  pushed :: "'a list"
  popped :: "'a list"

definition spsc_init :: "size_t \<Rightarrow> 'a \<Rightarrow> 'a spsc" where
  "spsc_init c d = \<lparr>ring_mem = new_ring c d, prod = P_idle, cons = C_idle, p_seen = 0, c_seen = 0,
     pushed = [], popped = []\<rparr>"

inductive push_step :: "size_t \<Rightarrow> 'a spsc \<Rightarrow> 'a spsc \<Rightarrow> bool" for c where
  load_head: "prod s = P_idle \<Longrightarrow> push_step c s (s\<lparr>prod := P_head x (head (ring_mem s))\<rparr>)"
| acquire_tail: "prod s = P_head x h \<Longrightarrow> p_seen s \<le> v \<Longrightarrow> v \<le> length (popped s) \<Longrightarrow>
    push_step c s (s\<lparr>prod := P_both x h (of_nat v), p_seen := v\<rparr>)"
| full: "prod s = P_both x h t \<Longrightarrow> h - t = c \<Longrightarrow> push_step c s (s\<lparr>prod := P_idle\<rparr>)"
| store_item: "prod s = P_both x h t \<Longrightarrow> h - t \<noteq> c \<Longrightarrow>
    push_step c s (s\<lparr>prod := P_stored x h,
      ring_mem := (ring_mem s)\<lparr>slots := (slots (ring_mem s))[slot c h := x]\<rparr>\<rparr>)"
| release_head: "prod s = P_stored x h \<Longrightarrow>
    push_step c s (s\<lparr>prod := P_idle, ring_mem := (ring_mem s)\<lparr>head := h + 1\<rparr>, pushed := pushed s @ [x]\<rparr>)"

inductive pop_step :: "('a \<Rightarrow> 'a) \<Rightarrow> size_t \<Rightarrow> 'a spsc \<Rightarrow> 'a spsc \<Rightarrow> bool" for moved c where
  load_tail: "cons s = C_idle \<Longrightarrow> pop_step moved c s (s\<lparr>cons := C_tail (tail (ring_mem s))\<rparr>)"
| acquire_head: "cons s = C_tail t \<Longrightarrow> c_seen s \<le> v \<Longrightarrow> v \<le> length (pushed s) \<Longrightarrow>
    pop_step moved c s (s\<lparr>cons := C_both t (of_nat v), c_seen := v\<rparr>)"
| empty: "cons s = C_both t h \<Longrightarrow> t = h \<Longrightarrow> pop_step moved c s (s\<lparr>cons := C_idle\<rparr>)"
| take_item: "cons s = C_both t h \<Longrightarrow> t \<noteq> h \<Longrightarrow> x = slots (ring_mem s) ! slot c t \<Longrightarrow>
    pop_step moved c s (s\<lparr>cons := C_taken x t,
      ring_mem := (ring_mem s)\<lparr>slots := (slots (ring_mem s))[slot c t := moved x]\<rparr>\<rparr>)"
| release_tail: "cons s = C_taken x t \<Longrightarrow>
    pop_step moved c s (s\<lparr>cons := C_idle, ring_mem := (ring_mem s)\<lparr>tail := t + 1\<rparr>, popped := popped s @ [x]\<rparr>)"

inductive spsc_reach :: "('a \<Rightarrow> 'a) \<Rightarrow> size_t \<Rightarrow> 'a \<Rightarrow> 'a spsc \<Rightarrow> bool" for moved c d where
  init: "spsc_reach moved c d (spsc_init c d)"
| producer: "spsc_reach moved c d s \<Longrightarrow> push_step c s s' \<Longrightarrow> spsc_reach moved c d s'"
| consumer: "spsc_reach moved c d s \<Longrightarrow> pop_step moved c s s' \<Longrightarrow> spsc_reach moved c d s'"

section \<open>Invariant\<close>

definition prod_ok :: "nat \<Rightarrow> 'a spsc \<Rightarrow> bool" where
  "prod_ok k s \<longleftrightarrow> (let n = length (pushed s) in
     case prod s of
       P_idle \<Rightarrow> True
     | P_head x h \<Rightarrow> h = of_nat n
     | P_both x h t \<Rightarrow> h = of_nat n \<and> t = of_nat (p_seen s)
     | P_stored x h \<Rightarrow> h = of_nat n \<and> n < p_seen s + 2 ^ k \<and> slots (ring_mem s) ! (n mod 2 ^ k) = x)"

definition cons_ok :: "'a spsc \<Rightarrow> bool" where
  "cons_ok s \<longleftrightarrow> (let n = length (popped s) in
     case cons s of
       C_idle \<Rightarrow> True
     | C_tail t \<Rightarrow> t = of_nat n
     | C_both t h \<Rightarrow> t = of_nat n \<and> h = of_nat (c_seen s)
     | C_taken x t \<Rightarrow> t = of_nat n \<and> n < c_seen s \<and> x = pushed s ! n)"

text \<open>The first item whose slot still holds it: a consumer that has taken an item is one ahead.\<close>

definition first_live :: "'a spsc \<Rightarrow> nat" where
  "first_live s = (case cons s of C_taken x t \<Rightarrow> Suc (length (popped s)) | _ \<Rightarrow> length (popped s))"

definition spsc_inv :: "nat \<Rightarrow> 'a spsc \<Rightarrow> bool" where
  "spsc_inv k s \<longleftrightarrow>
     head (ring_mem s) = of_nat (length (pushed s)) \<and> tail (ring_mem s) = of_nat (length (popped s))
     \<and> length (slots (ring_mem s)) = 2 ^ k
     \<and> p_seen s \<le> length (popped s) \<and> length (popped s) \<le> c_seen s \<and> c_seen s \<le> length (pushed s)
     \<and> length (pushed s) \<le> p_seen s + 2 ^ k
     \<and> popped s = take (length (popped s)) (pushed s)
     \<and> (\<forall>i. first_live s \<le> i \<and> i < length (pushed s) \<longrightarrow> slots (ring_mem s) ! (i mod 2 ^ k) = pushed s ! i)
     \<and> prod_ok k s \<and> cons_ok s"

lemmas spsc_inv_defs = spsc_inv_def prod_ok_def cons_ok_def first_live_def Let_def

text \<open>Comparing the counters compares the positions, since the two are never \<open>2 ^ 64\<close> apart.\<close>

lemma position_diff:
  assumes "k < 64" and "b \<le> a" and "a \<le> b + 2 ^ k"
  shows "(of_nat a - of_nat b = (2 ^ k :: size_t)) \<longleftrightarrow> a = b + 2 ^ k"
    and "(of_nat b = (of_nat a :: size_t)) \<longleftrightarrow> a = b"
proof -
  have p: "(2 :: nat) ^ k < 2 ^ 64" using assms(1) by (intro power_strict_increasing) simp_all
  then have small: "a - b < 2 ^ 64" using assms(2,3) by linarith
  have d: "(of_nat a - of_nat b :: size_t) = of_nat (a - b)" using assms(2) by (simp add: of_nat_diff)
  have u: "unat (of_nat (a - b) :: size_t) = a - b" using small by (simp add: unat_of_nat)
  show "(of_nat a - of_nat b = (2 ^ k :: size_t)) \<longleftrightarrow> a = b + 2 ^ k"
    using u assms(2) unat_pow2 [OF assms(1)] unfolding d by (auto simp: word_unat_eq_iff [of "of_nat (a - b)"])
  show "(of_nat b = (of_nat a :: size_t)) \<longleftrightarrow> a = b"
    using u d assms(2) by (metis cancel_comm_monoid_add_class.diff_cancel diff_is_0_eq' le_antisym
        of_nat_0 right_minus_eq unsigned_0 diff_diff_cancel diff_zero)
qed

lemma slots_apart: "i \<noteq> j \<Longrightarrow> i < j + m \<Longrightarrow> j < i + m \<Longrightarrow> i mod m \<noteq> j mod (m :: nat)"
  using mod_inj_window [of i m j] mod_inj_window [of j m i] by (cases "i \<le> j") auto

lemma init_inv: "k < 64 \<Longrightarrow> spsc_inv k (spsc_init (2 ^ k) d)"
  by (simp add: spsc_inv_defs spsc_init_def new_ring_def unat_pow2)

lemma first_live_bounds:
  assumes "spsc_inv k s"
  shows "length (popped s) \<le> first_live s" and "first_live s \<le> length (pushed s)"
  using assms by (auto simp: spsc_inv_defs split: consumer.splits)

lemma push_step_inv:
  assumes k: "k < 64" and inv: "spsc_inv k s" and st: "push_step (2 ^ k) s s'"
  shows "spsc_inv k s'"
  using st inv
proof cases
  case (store_item x h t)
  have pos: "h = of_nat (length (pushed s))" "t = of_nat (p_seen s)" "p_seen s \<le> length (pushed s)"
    "length (pushed s) \<le> p_seen s + 2 ^ k" "length (slots (ring_mem s)) = 2 ^ k"
    using inv store_item(2) by (auto simp: spsc_inv_defs)
  then have room: "length (pushed s) < p_seen s + 2 ^ k"
    using position_diff(1) [OF k pos(3,4)] store_item(3) by auto
  have slot: "slot (2 ^ k) h = length (pushed s) mod 2 ^ k" by (simp add: pos(1) slot_of_nat [OF k])
  have keep: "slots (ring_mem s') ! (i mod 2 ^ k) = slots (ring_mem s) ! (i mod 2 ^ k)"
    if "first_live s \<le> i" "i < length (pushed s)" for i
    using that slots_apart [of i "length (pushed s)" "2 ^ k"] room first_live_bounds(1) [OF inv] inv
    by (simp add: store_item(1) slot spsc_inv_def)
  have "slots (ring_mem s') ! (length (pushed s) mod 2 ^ k) = x"
    by (simp add: store_item(1) slot pos(5))
  moreover have "first_live s' = first_live s" by (simp add: store_item(1) first_live_def split: consumer.split)
  moreover have "cons_ok s'"
    using inv by (simp add: store_item(1) spsc_inv_def cons_ok_def Let_def split: consumer.splits)
  ultimately show ?thesis
    using inv keep room pos by (simp add: spsc_inv_def prod_ok_def Let_def store_item(1))
next
  case (release_head x h)
  have "i < length (pushed s) \<or> i = length (pushed s)" if "i < Suc (length (pushed s))" for i
    using that by linarith
  then show ?thesis
    using inv release_head
    by (auto simp: spsc_inv_defs nth_append less_Suc_eq split: consumer.splits)
qed (auto simp: spsc_inv_defs split: consumer.splits)

lemma pop_step_inv:
  assumes k: "k < 64" and inv: "spsc_inv k s" and st: "pop_step moved (2 ^ k) s s'"
  shows "spsc_inv k s'"
  using st inv
proof cases
  case (take_item t h x)
  have pos: "t = of_nat (length (popped s))" "h = of_nat (c_seen s)" "length (popped s) \<le> c_seen s"
    "c_seen s \<le> length (pushed s)" "length (pushed s) \<le> length (popped s) + 2 ^ k"
    "length (slots (ring_mem s)) = 2 ^ k"
    using inv take_item(2) by (auto simp: spsc_inv_defs)
  then have avail: "length (popped s) < c_seen s"
    using position_diff(2) [OF k pos(3)] take_item(3) by auto
  have slot: "slot (2 ^ k) t = length (popped s) mod 2 ^ k" by (simp add: pos(1) slot_of_nat [OF k])
  have "x = pushed s ! length (popped s)"
    using inv take_item(2,4) avail pos(4) by (simp add: slot spsc_inv_def first_live_def)
  moreover have "slots (ring_mem s') ! (i mod 2 ^ k) = slots (ring_mem s) ! (i mod 2 ^ k)"
    if "length (popped s) < i" "i < length (popped s) + 2 ^ k" for i
    using that slots_apart [of i "length (popped s)" "2 ^ k"] by (simp add: take_item(1) slot)
  ultimately show ?thesis
    using inv avail pos take_item(1,2)
    by (auto simp: spsc_inv_defs less_le_trans split: producer.splits)
next
  case (release_tail x t)
  then show ?thesis
    using inv by (auto simp: spsc_inv_defs take_Suc_conv_app_nth less_le_trans split: producer.splits)
qed (auto simp: spsc_inv_defs split: producer.splits)

lemma spsc_reach_inv: "spsc_reach moved (2 ^ k) d s \<Longrightarrow> k < 64 \<Longrightarrow> spsc_inv k s"
  by (induction rule: spsc_reach.induct) (auto intro: init_inv push_step_inv pop_step_inv)

section \<open>What is in the ring\<close>

definition waiting :: "'a spsc \<Rightarrow> 'a list" where
  "waiting s = drop (length (popped s)) (pushed s)"

text \<open>Publishing an item and releasing a slot are the steps that change what is in the ring.\<close>

lemma push_step_waiting:
  assumes inv: "spsc_inv k s" and st: "push_step c s s'"
  shows "(\<exists>x h. prod s = P_stored x h \<and> waiting s' = waiting s @ [x] \<and> length (waiting s) < 2 ^ k)
    \<or> (\<forall>x h. prod s \<noteq> P_stored x h) \<and> waiting s' = waiting s"
  using st inv by cases (auto simp: waiting_def spsc_inv_def prod_ok_def Let_def)

lemma pop_step_waiting:
  assumes inv: "spsc_inv k s" and st: "pop_step moved c s s'"
  shows "(\<exists>x t. cons s = C_taken x t \<and> waiting s = x # waiting s') \<or> (\<forall>x t. cons s \<noteq> C_taken x t) \<and> waiting s' = waiting s"
  using st inv by cases (auto simp: waiting_def spsc_inv_def cons_ok_def Let_def Cons_nth_drop_Suc)

text \<open>The answers "full" and "empty" are right for the counter values that were read.\<close>

lemma full_answer:
  assumes "spsc_inv k s" and "k < 64" and "prod s = P_both x h t"
  shows "h - t = 2 ^ k \<longleftrightarrow> length (pushed s) = p_seen s + 2 ^ k"
proof -
  have pos: "h = of_nat (length (pushed s))" "t = of_nat (p_seen s)" "p_seen s \<le> length (pushed s)"
    "length (pushed s) \<le> p_seen s + 2 ^ k"
    using assms(1,3) by (auto simp: spsc_inv_defs)
  show ?thesis unfolding pos(1,2) by (rule position_diff(1) [OF assms(2) pos(3,4)])
qed

lemma empty_answer:
  assumes "spsc_inv k s" and "k < 64" and "cons s = C_both t h"
  shows "t = h \<longleftrightarrow> length (popped s) = c_seen s"
proof -
  have pos: "t = of_nat (length (popped s))" "h = of_nat (c_seen s)" "length (popped s) \<le> c_seen s"
    "c_seen s \<le> length (popped s) + 2 ^ k"
    using assms(1,3) by (auto simp: spsc_inv_defs)
  show ?thesis unfolding pos(1,2) using position_diff(2) [OF assms(2) pos(3,4)] by auto
qed

section \<open>A sample run\<close>

text \<open>
  One item is pushed into a ring of two slots; then the producer, with a second item, and the
  consumer have both read the counters.
\<close>

definition sample_spsc :: "char spsc" where
  "sample_spsc =
     \<lparr>ring_mem = \<lparr>slots = [CHR ''a'', CHR ''x''], head = 1, tail = 0\<rparr>, prod = P_both CHR ''b'' 1 0,
      cons = C_both 0 1, p_seen = 0, c_seen = 1, pushed = [CHR ''a''], popped = []\<rparr>"

lemma sample_spsc_reach: "spsc_reach (\<lambda>x. x) (2 ^ 1) CHR ''x'' sample_spsc"
proof -
  let ?R = "spsc_reach (\<lambda>x. x) (2 ^ 1) CHR ''x''"
  let ?s = "\<lambda>b h p c n (q :: char list). \<lparr>ring_mem = \<lparr>slots = [b, CHR ''x''], head = h, tail = 0\<rparr>, prod = p,
      cons = c, p_seen = 0, c_seen = n, pushed = q, popped = []\<rparr>"
  have "replicate 2 CHR ''x'' = [CHR ''x'', CHR ''x'']" by (simp add: numeral_2_eq_2)
  then have "?R (?s CHR ''x'' 0 P_idle C_idle 0 [])"
    using spsc_reach.init [of "\<lambda>x. x" "2 ^ 1" "CHR ''x''"] by (simp add: spsc_init_def new_ring_def)
  then have "?R (?s CHR ''x'' 0 (P_head CHR ''a'' 0) C_idle 0 [])"
    using spsc_reach.producer [OF _ push_step.load_head [of _ "2 ^ 1" "CHR ''a''"]] by fastforce
  then have "?R (?s CHR ''x'' 0 (P_both CHR ''a'' 0 0) C_idle 0 [])"
    using spsc_reach.producer [OF _ push_step.acquire_tail [where c = "2 ^ 1" and v = 0]] by fastforce
  then have "?R (?s CHR ''a'' 0 (P_stored CHR ''a'' 0) C_idle 0 [])"
    using spsc_reach.producer [OF _ push_step.store_item [where c = "2 ^ 1"]] by (fastforce simp: slot_def)
  then have "?R (?s CHR ''a'' 1 P_idle C_idle 0 [CHR ''a''])"
    using spsc_reach.producer [OF _ push_step.release_head [where c = "2 ^ 1"]] by fastforce
  then have "?R (?s CHR ''a'' 1 (P_head CHR ''b'' 1) C_idle 0 [CHR ''a''])"
    using spsc_reach.producer [OF _ push_step.load_head [of _ "2 ^ 1" "CHR ''b''"]] by fastforce
  then have "?R (?s CHR ''a'' 1 (P_both CHR ''b'' 1 0) C_idle 0 [CHR ''a''])"
    using spsc_reach.producer [OF _ push_step.acquire_tail [where c = "2 ^ 1" and v = 0]] by fastforce
  then have "?R (?s CHR ''a'' 1 (P_both CHR ''b'' 1 0) (C_tail 0) 0 [CHR ''a''])"
    using spsc_reach.consumer [OF _ pop_step.load_tail [where c = "2 ^ 1" and moved = "\<lambda>x. x"]] by fastforce
  then have "?R (?s CHR ''a'' 1 (P_both CHR ''b'' 1 0) (C_both 0 1) 1 [CHR ''a''])"
    using spsc_reach.consumer [OF _ pop_step.acquire_head [where c = "2 ^ 1" and moved = "\<lambda>x. x" and v = 1]]
    by fastforce
  then show ?thesis by (simp add: sample_spsc_def)
qed

section \<open>Properties\<close>

text \<open>
  C12: The interleaved accesses of the two threads amount to calls of the sequential \<^verbatim>\<open>try_push\<close> and
  \<^verbatim>\<open>try_pop\<close>, each at one point in time. Let a sequential ring hold the items that are pushed and not yet
  popped. The store that publishes an item is a successful \<^verbatim>\<open>try_push\<close> of this item on the sequential
  ring, the store that releases a slot is a \<^verbatim>\<open>try_pop\<close> with the item taken as its result, and no other
  step changes what is in the ring, whatever stale values the acquire loads return. An answer "full"
  or "empty" from values that are not stale is the answer of the sequential ring. In particular the
  items popped are the first of the items pushed, in order, and at most \<^verbatim>\<open>Capacity\<close> are in between.
\<close>

theorem spsc_refines_atomic_calls:
  assumes "spsc_reach moved (2 ^ k) d s" and "k < 64" and "ring_ok (2 ^ k) r" and "ring_list (2 ^ k) r = waiting s"
  shows "(push_step (2 ^ k) s s' \<longrightarrow> (case prod s of
         P_stored x h \<Rightarrow> \<exists>r'. try_push (2 ^ k) x r = (True, r') \<and> ring_ok (2 ^ k) r' \<and> ring_list (2 ^ k) r' = waiting s'
       | _ \<Rightarrow> waiting s' = waiting s))
    \<and> (pop_step moved (2 ^ k) s s' \<longrightarrow> (case cons s of
         C_taken x t \<Rightarrow> \<exists>r'. try_pop moved (2 ^ k) r = (Some x, r') \<and> ring_ok (2 ^ k) r' \<and> ring_list (2 ^ k) r' = waiting s'
       | _ \<Rightarrow> waiting s' = waiting s))
    \<and> (prod s = P_both x h t \<and> h - t = 2 ^ k \<and> p_seen s = length (popped s) \<longrightarrow> try_push (2 ^ k) x r = (False, r))
    \<and> (cons s = C_both t' h' \<and> t' = h' \<and> c_seen s = length (pushed s) \<longrightarrow> try_pop moved (2 ^ k) r = (None, r))
    \<and> popped s @ waiting s = pushed s \<and> length (waiting s) \<le> 2 ^ k"
proof -
  have inv: "spsc_inv k s" using spsc_reach_inv [OF assms(1,2)] .
  have pops: "popped s @ waiting s = pushed s"
    using inv unfolding spsc_inv_def waiting_def by (metis append_take_drop_id)
  have "p_seen s \<le> length (popped s)" "length (pushed s) \<le> p_seen s + 2 ^ k" using inv by (simp_all add: spsc_inv_def)
  then have "length (waiting s) \<le> 2 ^ k" by (simp add: waiting_def)
  moreover have "try_push (2 ^ k) x r = (False, r)"
    if "prod s = P_both x h t" "h - t = 2 ^ k" "p_seen s = length (popped s)"
    by (rule try_push_full [OF assms(2,3)])
      (use that full_answer [OF inv assms(2) that(1)] in \<open>simp add: assms(4) waiting_def\<close>)
  moreover have "try_pop moved (2 ^ k) r = (None, r)"
    if "cons s = C_both t' h'" "t' = h'" "c_seen s = length (pushed s)"
    by (rule try_pop_empty) (use that empty_answer [OF inv assms(2) that(1)] in \<open>simp add: assms(4) waiting_def\<close>)
  moreover have "push_step (2 ^ k) s s' \<longrightarrow> (case prod s of
         P_stored x h \<Rightarrow> \<exists>r'. try_push (2 ^ k) x r = (True, r') \<and> ring_ok (2 ^ k) r' \<and> ring_list (2 ^ k) r' = waiting s'
       | _ \<Rightarrow> waiting s' = waiting s)"
  proof
    assume "push_step (2 ^ k) s s'"
    then consider x h where "prod s = P_stored x h" "waiting s' = waiting s @ [x]" "length (waiting s) < 2 ^ k"
      | "\<forall>x h. prod s \<noteq> P_stored x h" "waiting s' = waiting s"
      using push_step_waiting [OF inv] by metis
    then show "case prod s of
         P_stored x h \<Rightarrow> \<exists>r'. try_push (2 ^ k) x r = (True, r') \<and> ring_ok (2 ^ k) r' \<and> ring_list (2 ^ k) r' = waiting s'
       | _ \<Rightarrow> waiting s' = waiting s"
      by cases (use try_push_room [OF assms(2,3)] assms(4) in \<open>auto split: producer.split\<close>)
  qed
  moreover have "pop_step moved (2 ^ k) s s' \<longrightarrow> (case cons s of
         C_taken x t \<Rightarrow> \<exists>r'. try_pop moved (2 ^ k) r = (Some x, r') \<and> ring_ok (2 ^ k) r' \<and> ring_list (2 ^ k) r' = waiting s'
       | _ \<Rightarrow> waiting s' = waiting s)"
  proof
    assume "pop_step moved (2 ^ k) s s'"
    then consider x t where "cons s = C_taken x t" "waiting s = x # waiting s'"
      | "\<forall>x t. cons s \<noteq> C_taken x t" "waiting s' = waiting s"
      using pop_step_waiting [OF inv] by metis
    then show "case cons s of
         C_taken x t \<Rightarrow> \<exists>r'. try_pop moved (2 ^ k) r = (Some x, r') \<and> ring_ok (2 ^ k) r' \<and> ring_list (2 ^ k) r' = waiting s'
       | _ \<Rightarrow> waiting s' = waiting s"
      by cases (use try_pop_next [OF assms(2,3), of _ "waiting s'" moved] assms(4) in \<open>auto split: consumer.split\<close>)
  qed
  ultimately show ?thesis using pops by blast
qed

text \<open>In the sample run the consumer takes the item from its slot; it leaves the ring when the slot is released.\<close>

theorem spsc_refines_atomic_calls_witness:
  "waiting sample_spsc = [CHR ''a''] \<and> (\<exists>s'. pop_step (\<lambda>x. x) 2 sample_spsc s' \<and> waiting s' = [CHR ''a''])"
proof -
  let ?r = "\<lparr>slots = [CHR ''a'', CHR ''x''], head = 1, tail = 0\<rparr>"
  have r: "ring_ok (2 ^ 1) ?r" "ring_list (2 ^ 1) ?r = waiting sample_spsc"
    by (simp_all add: ring_ok_def ring_list_def slot_def waiting_def sample_spsc_def)
  obtain s' where s': "pop_step (\<lambda>x. x) 2 sample_spsc s'"
    using pop_step.take_item [where s = sample_spsc and c = 2 and moved = "\<lambda>x. x"] by (auto simp: sample_spsc_def)
  have "waiting s' = waiting sample_spsc"
    using spsc_refines_atomic_calls [OF sample_spsc_reach _ r, of s'] s' by (simp add: sample_spsc_def)
  then show ?thesis using s' by (auto simp: waiting_def sample_spsc_def)
qed

text \<open>
  C21: The ring buffer has no data race on a slot. When the producer is about to write a slot (it has
  both counters and they do not say full), wherever the consumer is: the slot is not that of any item
  that was pushed and whose pop is not complete, so it holds no item that is still to be read, and each
  of these items is in its slot, except one that the consumer has just taken out. The consumer reads a
  slot only when it has both counters and they do not say empty; that slot is the one of the next item
  in order, which is published and in it, and so is not the producer's. The answers "full" and "empty"
  are right for the counter values that were read.
\<close>

theorem spsc_race_free:
  assumes "spsc_reach moved (2 ^ k) d s" and "k < 64" and "prod s = P_both x h t"
  shows "(h - t = 2 ^ k \<longleftrightarrow> length (pushed s) = p_seen s + 2 ^ k)
    \<and> (h - t \<noteq> 2 ^ k \<longrightarrow> (\<forall>i. length (popped s) \<le> i \<and> i < length (pushed s) \<longrightarrow>
         slot (2 ^ k) h \<noteq> slot (2 ^ k) (of_nat i)
         \<and> (slots (ring_mem s) ! slot (2 ^ k) (of_nat i) = pushed s ! i
            \<or> i = length (popped s) \<and> (\<exists>t'. cons s = C_taken (pushed s ! i) t'))))
    \<and> (\<forall>t' h'. cons s = C_both t' h' \<longrightarrow>
         (t' = h' \<longleftrightarrow> length (popped s) = c_seen s)
         \<and> (t' \<noteq> h' \<longrightarrow> length (popped s) < length (pushed s) \<and> t' = of_nat (length (popped s))
              \<and> slots (ring_mem s) ! slot (2 ^ k) t' = pushed s ! length (popped s)
              \<and> (h - t \<noteq> 2 ^ k \<longrightarrow> slot (2 ^ k) h \<noteq> slot (2 ^ k) t')))"
proof -
  have inv: "spsc_inv k s" using spsc_reach_inv [OF assms(1,2)] .
  then have pos: "h = of_nat (length (pushed s))" "t = of_nat (p_seen s)" "p_seen s \<le> length (popped s)"
    "length (popped s) \<le> c_seen s" "c_seen s \<le> length (pushed s)" "length (pushed s) \<le> p_seen s + 2 ^ k"
    using assms(3) by (auto simp: spsc_inv_defs)
  note full = full_answer [OF inv assms(2,3)]
  have apart: "slot (2 ^ k) h \<noteq> slot (2 ^ k) (of_nat i)"
    if "h - t \<noteq> 2 ^ k" "length (popped s) \<le> i" "i < length (pushed s)" for i
  proof -
    have "length (pushed s) mod 2 ^ k \<noteq> i mod 2 ^ k" using that full pos(3-6) by (intro slots_apart) auto
    then show ?thesis by (simp add: pos(1) slot_of_nat [OF assms(2)])
  qed
  have there: "slots (ring_mem s) ! slot (2 ^ k) (of_nat i) = pushed s ! i"
    if "first_live s \<le> i" "i < length (pushed s)" for i
    using inv that by (simp add: spsc_inv_def slot_of_nat [OF assms(2)])
  have item: "slots (ring_mem s) ! slot (2 ^ k) (of_nat i) = pushed s ! i
      \<or> i = length (popped s) \<and> (\<exists>t'. cons s = C_taken (pushed s ! i) t')"
    if "length (popped s) \<le> i" "i < length (pushed s)" for i
  proof (cases "first_live s \<le> i")
    case False
    with that(1) obtain x t' where "cons s = C_taken x t'" and "i = length (popped s)"
      by (auto simp: first_live_def split: consumer.splits)
    then show ?thesis using inv by (auto simp: spsc_inv_defs)
  qed (use there that in simp)
  have "(t' = h' \<longleftrightarrow> length (popped s) = c_seen s)
      \<and> (t' \<noteq> h' \<longrightarrow> length (popped s) < length (pushed s) \<and> t' = of_nat (length (popped s))
           \<and> slots (ring_mem s) ! slot (2 ^ k) t' = pushed s ! length (popped s)
           \<and> (h - t \<noteq> 2 ^ k \<longrightarrow> slot (2 ^ k) h \<noteq> slot (2 ^ k) t'))"
    if c: "cons s = C_both t' h'" for t' h'
  proof -
    note none = empty_answer [OF inv assms(2) c]
    have t': "t' = of_nat (length (popped s))" using inv c by (auto simp: spsc_inv_defs)
    have live: "first_live s = length (popped s)" by (simp add: first_live_def c)
    show ?thesis
    proof (cases "t' = h'")
      case False
      then have "length (popped s) < length (pushed s)" using none pos(4,5) by auto
      then show ?thesis using none False t' there [of "length (popped s)"] apart [of "length (popped s)"] live by simp
    qed (use none in simp)
  qed
  then show ?thesis using full apart item by blast
qed

theorem spsc_race_free_witness:
  "slot 2 1 \<noteq> slot 2 0 \<and> slots (ring_mem sample_spsc) ! slot 2 0 = CHR ''a''"
proof -
  have p: "prod sample_spsc = P_both CHR ''b'' 1 0" and c: "cons sample_spsc = C_both 0 1"
    by (simp_all add: sample_spsc_def)
  from spsc_race_free [OF sample_spsc_reach _ p] c show ?thesis by (simp add: sample_spsc_def)
qed

end
