(* ===== verification/Thread_Safe_Queue.thy ===== *)
theory Thread_Safe_Queue
  imports Prelude
begin

text \<open>
  \<^verbatim>\<open>ThreadSafeQueue\<close> of \<^verbatim>\<open>include/thread_safe_queue.hpp\<close>, the mutex-based queue that the ring
  buffer replaced. \<^verbatim>\<open>try_pop\<close> looks at the atomic size before it takes the lock and does not look
  at the queue again under the lock. The calls of any number of threads are interleaved at the
  shared accesses: \<open>passed\<close> counts the consumers between the size check and the lock,
  \<open>popping\<close> the one that holds the lock after taking an item. \<^verbatim>\<open>front()\<close> of an empty queue is
  undefined behaviour; a run that meets it is at \<open>fault\<close>. The load of the size returns its current
  value; an older one could only be smaller for the one consumer that the code has, whose own
  decrements it has seen, and would make it find nothing.
\<close>

datatype 'a lock = Free | Pushing | Popping 'a

record 'a tsq =
  queue :: "'a list"
  tsq_size :: size_t
  lock :: "'a lock"
  passed :: nat
  fault :: bool
  taken :: "'a list"

definition tsq_init :: "'a tsq" where
  "tsq_init = \<lparr>queue = [], tsq_size = 0, lock = Free, passed = 0, fault = False, taken = []\<rparr>"

definition consumers :: "'a tsq \<Rightarrow> nat" where
  "consumers s = passed s + (case lock s of Popping x \<Rightarrow> 1 | _ \<Rightarrow> 0)"

inductive tsq_step :: "nat \<Rightarrow> 'a tsq \<Rightarrow> 'a tsq \<Rightarrow> bool" for n where
  push: "\<not> fault s \<Longrightarrow> lock s = Free \<Longrightarrow> tsq_step n s (s\<lparr>queue := queue s @ [x], lock := Pushing\<rparr>)"
| push_size: "\<not> fault s \<Longrightarrow> lock s = Pushing \<Longrightarrow> tsq_step n s (s\<lparr>tsq_size := tsq_size s + 1, lock := Free\<rparr>)"
| check: "\<not> fault s \<Longrightarrow> consumers s < n \<Longrightarrow> tsq_size s \<noteq> 0 \<Longrightarrow> tsq_step n s (s\<lparr>passed := passed s + 1\<rparr>)"
| pop: "\<not> fault s \<Longrightarrow> lock s = Free \<Longrightarrow> 0 < passed s \<Longrightarrow> queue s = x # xs \<Longrightarrow>
    tsq_step n s (s\<lparr>queue := xs, passed := passed s - 1, lock := Popping x\<rparr>)"
| pop_fault: "\<not> fault s \<Longrightarrow> lock s = Free \<Longrightarrow> 0 < passed s \<Longrightarrow> queue s = [] \<Longrightarrow>
    tsq_step n s (s\<lparr>fault := True\<rparr>)"
| pop_size: "\<not> fault s \<Longrightarrow> lock s = Popping x \<Longrightarrow>
    tsq_step n s (s\<lparr>tsq_size := tsq_size s - 1, lock := Free, taken := taken s @ [x]\<rparr>)"

inductive tsq_reach :: "nat \<Rightarrow> 'a tsq \<Rightarrow> bool" for n where
  init: "tsq_reach n tsq_init"
| step: "tsq_reach n s \<Longrightarrow> tsq_step n s s' \<Longrightarrow> tsq_reach n s'"

section \<open>Invariant with one consumer\<close>

definition tsq_inv :: "'a tsq \<Rightarrow> bool" where
  "tsq_inv s \<longleftrightarrow> \<not> fault s \<and> consumers s \<le> 1 \<and> (0 < passed s \<longrightarrow> queue s \<noteq> [])
     \<and> (case lock s of
          Free \<Rightarrow> tsq_size s = of_nat (length (queue s))
        | Pushing \<Rightarrow> queue s \<noteq> [] \<and> tsq_size s + 1 = of_nat (length (queue s))
        | Popping x \<Rightarrow> tsq_size s = of_nat (length (queue s)) + 1)"

lemma tsq_step_inv: "tsq_step 1 s s' \<Longrightarrow> tsq_inv s \<Longrightarrow> tsq_inv s'"
  by (induction rule: tsq_step.induct) (auto simp: tsq_inv_def consumers_def split: lock.splits)

lemma tsq_reach_inv: "tsq_reach 1 s \<Longrightarrow> tsq_inv s"
proof (induction rule: tsq_reach.induct)
  case init
  show ?case by (simp add: tsq_inv_def tsq_init_def consumers_def)
next
  case (step s s')
  then show ?case using tsq_step_inv by blast
qed

text \<open>One item pushed and published, and \<open>m\<close> consumers that have seen it.\<close>

definition sample_tsq :: "nat \<Rightarrow> char tsq" where
  "sample_tsq m = \<lparr>queue = [CHR ''a''], tsq_size = 1, lock = Free, passed = m, fault = False, taken = []\<rparr>"

lemma sample_tsq_reach: "m \<le> n \<Longrightarrow> tsq_reach n (sample_tsq m)"
proof (induction m)
  case 0
  have "tsq_reach n (tsq_init\<lparr>queue := [CHR ''a''], lock := Pushing\<rparr>)"
    using tsq_reach.step [OF tsq_reach.init tsq_step.push [of _ n "CHR ''a''"]] by (simp add: tsq_init_def)
  from tsq_reach.step [OF this tsq_step.push_size] show ?case by (simp add: tsq_init_def sample_tsq_def)
next
  case (Suc m)
  then have "tsq_reach n (sample_tsq m)" by simp
  from tsq_reach.step [OF this tsq_step.check] Suc.prems show ?case
    by (simp add: sample_tsq_def consumers_def)
qed

text \<open>With two consumers one queued item lets both pass the check; the second to take the lock faults.\<close>

lemma tsq_two_consumers_fault: "\<exists>s :: char tsq. tsq_reach 2 s \<and> fault s"
proof -
  let ?s1 = "(sample_tsq 2)\<lparr>queue := [], passed := 1, lock := Popping CHR ''a''\<rparr>"
  let ?s2 = "?s1\<lparr>tsq_size := 0, lock := Free, taken := [CHR ''a'']\<rparr>"
  have "tsq_reach 2 ?s1"
    using tsq_reach.step [OF sample_tsq_reach [of 2 2] tsq_step.pop [where x = "CHR ''a''" and xs = "[]"]]
    by (simp add: sample_tsq_def)
  then have "tsq_reach 2 ?s2"
    using tsq_reach.step [OF _ tsq_step.pop_size [where x = "CHR ''a''"]] by (fastforce simp: sample_tsq_def)
  then have "tsq_reach 2 (?s2\<lparr>fault := True\<rparr>)"
    using tsq_reach.step [OF _ tsq_step.pop_fault] by (fastforce simp: sample_tsq_def)
  then show ?thesis by (intro exI [of _ "?s2\<lparr>fault := True\<rparr>"]) simp
qed

section \<open>Properties\<close>

text \<open>
  C38: The unlocked size check of \<^verbatim>\<open>ThreadSafeQueue::try_pop\<close> is sound for one consumer thread, and only
  for one. With a single consumer, whatever the producers do, no run takes the front of an empty
  queue, and whenever the lock is free the size is the length of the queue. With two consumers a run
  exists in which the second one to take the lock reads the front of an empty queue.
\<close>

theorem tsq_size_check_needs_single_consumer:
  assumes "tsq_reach 1 s"
  shows "\<not> fault s \<and> (lock s = Free \<longrightarrow> tsq_size s = of_nat (length (queue s)))
    \<and> (0 < passed s \<longrightarrow> queue s \<noteq> []) \<and> (\<exists>s' :: char tsq. tsq_reach 2 s' \<and> fault s')"
  using tsq_reach_inv [OF assms] tsq_two_consumers_fault by (auto simp: tsq_inv_def)

theorem tsq_size_check_needs_single_consumer_witness:
  "\<not> fault (sample_tsq 1) \<and> queue (sample_tsq 1) \<noteq> [] \<and> tsq_size (sample_tsq 1) = 1"
  using tsq_size_check_needs_single_consumer [OF sample_tsq_reach [of 1 1]] by (simp add: sample_tsq_def)

end
