(* ===== verification/Spec2Isabelle.thy ===== *)
theory Spec2Isabelle
  imports Served_Clients Stalled_Output Depth Ring_Concurrent Thread_Safe_Queue
begin

text \<open>
  A verification of the exchange simulator: a limit order book with a matching engine, served over
  TCP by an epoll loop, and the client that generates load. Paths are relative to the repository.

  \<^bold>\<open>The program.\<close> A server thread accepts clients, cuts their byte streams into messages and pushes
  these into an inbound ring buffer. A processing thread takes them out, runs the matching engine on
  the order book, and pushes the answers into an outbound ring buffer, from which the server thread
  sends them. The client connects, sends one million random orders and closes.

  \<^bold>\<open>Theories and sources.\<close>

  \<^item> \<open>Prelude\<close>: the integer types of \<^verbatim>\<open>include/types.hpp\<close> at their widths, exceptions and undefined
    behaviour as values (\<open>fault\<close>, \<open>result\<close>), and the end of the process by \<^verbatim>\<open>SIGPIPE\<close>. \<open>Std_Map\<close>:
    \<^verbatim>\<open>std::map\<close> as an ordered association list, with a locale for the comparison.
  \<^item> \<open>Orders\<close>: \<^verbatim>\<open>include/order.hpp\<close> and \<^verbatim>\<open>trade.hpp\<close>. The constructor \<open>make_order\<close> validates; an
    enumeration read from the wire can hold any byte, so sides and types are bytes.
  \<^item> \<open>Order_Book\<close>: \<^verbatim>\<open>src/orderbook.cpp\<close>. A side is a map from prices to lists of nodes; a node has an
    address, and an iterator is an address, so that a dangling iterator is visible and is undefined
    behaviour. The locale \<open>book_half\<close> holds what both sides share.
  \<^item> \<open>Matching_Engine\<close>: \<^verbatim>\<open>src/matching_engine.cpp\<close>, the two loops as recursions on the levels and on the
    orders of a level. \<open>Price_Time\<close>: the specification, price-time priority on two queues, and the
    simulation. \<open>Matching_Props\<close> and \<open>Book_Reach\<close>: the properties of a match, and the invariants of
    every book that matches and cancellations reach. \<open>Depth\<close>: the text of \<^verbatim>\<open>print_depth\<close>.
  \<^item> \<open>Bytes\<close> and \<open>Serializer\<close>: \<^verbatim>\<open>src/binary_serializer.cpp\<close>, all twelve functions on byte lists, with the
    byte order of the host as a parameter. The locale \<open>codec\<close> states the round trip once for the six
    message kinds.
  \<^item> \<open>Queues\<close>: the locale \<open>bounded_queue\<close>, what both threads rely on. \<open>Ring_Buffer\<close>:
    \<^verbatim>\<open>include/spsc_ring_buffer.hpp\<close>, whose counters wrap at \<open>2 ^ 64\<close>; it interprets the locale.
    \<open>Ring_Concurrent\<close>: the same code with the two threads interleaved at their accesses, where an
    acquire load may return an old value. \<open>Thread_Safe_Queue\<close>: \<^verbatim>\<open>include/thread_safe_queue.hpp\<close>.
  \<^item> \<open>Order_Processor\<close> and \<open>Processor_Props\<close>: \<^verbatim>\<open>src/order_processor.cpp\<close>; the messages pushed are part of
    the result, and \<open>push_wait\<close> is the loop that pushes one of them.
  \<^item> \<open>Market\<close>: the specification of the processor, a market that takes requests and answers with
    notices, without bytes, nodes and index, and the simulation.
  \<^item> \<open>Exchange_Server\<close>, \<open>Server_Props\<close>, \<open>Server_Output\<close>: \<^verbatim>\<open>src/exchange_server.cpp\<close> and
    \<^verbatim>\<open>include/client_state.hpp\<close>. The system calls are a record \<open>os\<close> of functions on an unknown kernel
    state. \<open>Server_Round\<close>: that a round of the event loop ends, and without undefined behaviour.
    \<open>Server_Steps\<close>: the same loop in small steps (\<open>server_step\<close>), each with at most one use of a ring
    buffer, and the equivalence of the two.
  \<^item> \<open>Exchange\<close>: \<^verbatim>\<open>src/main.cpp\<close>, the steps of the two threads in any order, with a log of what was
    received, processed and delivered. An acquire load may return an old counter, so that a ring seems
    full or empty when it no longer is: the steps \<open>found_empty\<close>, \<open>found_full\<close> and \<open>missed\<close>.
    \<open>Starvation\<close>: what becomes of a message that found the ring full. \<open>Stalled_Output\<close>: what becomes of
    output that the kernel refuses.
  \<^item> \<open>Network_Utils\<close>: \<^verbatim>\<open>src/network_utils.cpp\<close>. \<open>Client\<close>: \<^verbatim>\<open>src/order_simulator.cpp\<close>,
    \<^verbatim>\<open>src/exchange_client.cpp\<close> and the thread function of \<^verbatim>\<open>src/client_main.cpp\<close>; the random
    distributions are parameters. \<open>Client_Main\<close>: \<^verbatim>\<open>main\<close> of \<^verbatim>\<open>src/client_main.cpp\<close>, with \<^verbatim>\<open>std::stoi\<close> on its
    argument and the client threads interleaved. \<open>Served_Clients\<close>: the client program and the exchange
    together.
  \<^item> This theory: the exchange as a whole implements the market.

  \<^bold>\<open>What is shown.\<close> Of matching: it refines price-time priority, conserves quantity, respects limits,
  and keeps the book well formed and uncrossed. Of the book: cancelling never uses a dangling
  iterator and removes exactly one order; with ids that are not reused every resting order can be
  cancelled. Of the wire format: the round trips, and when a read leaves the payload. Of the ring
  buffer: it refines a bounded queue; under interleaving its calls take effect one after the other, as
  atomic operations of such a queue, and there is no data race on a slot.
  Of the processor: as long as no request reuses the id of a resting order it implements the market, it
  answers every message, and faults exactly on malformed ones. Of the server: the framing of streams, the order of output, and that every round ends without
  undefined behaviour; only the exceptions of \<^verbatim>\<open>accept_client\<close> and a \<^verbatim>\<open>send\<close> to a closed peer, which raises
  \<^verbatim>\<open>SIGPIPE\<close>, end the program. Of the two threads together: nothing is lost, repeated or reordered between
  them, they do not block each other, and the bytes of every connection are accounted for. Of the
  client: valid orders, distinct ids over all threads, well-formed frames. Of both programs together:
  the exchange acknowledges every order of the client program that it processes, and a client that
  reads its socket gets the market's notices for it, under the conditions that the property states. Where the code does not do
  what it means to, a theorem says so: reused ids and descriptors, cancellations of unknown ids,
  unknown side bytes, refused, partial and completed sends, messages held back by a full ring, the
  queue with two consumers.

  \<^bold>\<open>Assumptions on the environment\<close> are predicates on the parameters: \<open>recv_ok\<close>, \<open>recv_waits\<close>, \<open>send_ok\<close>,
  \<open>watch_ok\<close> and \<open>accept_ok\<close>, together \<open>os_ok\<close>, and \<open>streams_ok\<close>, \<open>readable_ok\<close> and \<open>epollout_ok\<close> on the system
  calls, \<open>draws_ok\<close> on the random distributions. Samples that satisfy them are part of the development.
  Readings of the clock are an arbitrary sequence.

  \<^bold>\<open>Loops and fuel.\<close> The loops of the matching engine are structural. In \<open>server_turn\<close> the loops that
  depend on the kernel take fuel, and \<open>None\<close> means that it ran out. The read loop needs at most one
  round per byte of the stream and one more, draining one per queued message and one more, accepting
  one per connection that waits and one more; \<open>server_turn_ok\<close> shows that a round always has enough
  with some fuel, and \<open>server_turn_mono\<close> that more does not change the result. The small steps need no
  fuel, and \<open>server_round_ends_safely\<close> shows that from every reachable state the round ends. A push
  that waits needs one yield per message in which the server pops.

  \<^bold>\<open>Not modelled.\<close> Text on the console other than that of \<^verbatim>\<open>print_depth\<close> and \<^verbatim>\<open>Order::toString\<close>, such as the
  progress lines of the client, has no effect on the state. Exhausted memory and failing creation of
  threads are left out, and so are signals other than \<^verbatim>\<open>SIGPIPE\<close>. When a thread faults, the model lets the
  other one go on, where the program ends: it has more executions than the program, and no fewer. A use
  of a ring buffer is one step of \<open>exchange_step\<close>; \<open>Ring_Concurrent\<close> covers the interleavings inside such
  a use and shows that it can be seen as one step. The headers \<^verbatim>\<open>serializer.hpp\<close> and
  \<^verbatim>\<open>binary_serializer.hpp\<close> only declare the functions modelled, and there is one class that implements the interface. Tests and
  benchmarks are not part of the program.
\<close>

section \<open>The exchange implements the market\<close>

text \<open>
  C2: The exchange implements the market. Take any execution of the whole program: clients connect and
  send bytes in pieces of any size, the two threads interleave in any way, rings fill up and sends are
  cut short. The messages processed so far are those received, in the order of arrival, but for those
  still in the inbound ring, and each stands for a request. If none of these requests reuses the id of
  an order that rests when it is processed, the two sides of the book are the market's two queues after
  these requests, taken one after the other, and the market's notices, encoded, are in this order the
  answers that the server has taken, those in the outbound ring and those still to be pushed.
\<close>

theorem exchange_refines_market:
  assumes "os_ok os left wire watched backlog" and "streams_ok os left wire" and "watched k0 = {}"
    and "exchange_reach e clk os moved_in moved_out k0 log x"
  shows "received log = processed_messages log @ queued (inbound (ex_server x))
    \<and> list_all (\<lambda>m. decode e m \<noteq> None) (processed_messages log)
    \<and> (admissible clk new_market (requests e (processed_messages log)) \<longrightarrow>
        (case market_run clk new_market (requests e (processed_messages log)) of (mk, notices) \<Rightarrow>
         abs_book (book (ex_processor x)) = m_queues mk
         \<and> delivered log @ queued (outbound (ex_server x)) @ ex_answers x = map (encode e) notices))"
proof -
  obtain mk notices where "market_run clk new_market (requests e (processed_messages log)) = (mk, notices)" by fastforce
  then show ?thesis
    using exchange_takes_requests [OF assms] exchange_runs_market [OF assms] by simp
qed

text \<open>In the sample execution the client submits an order to sell.\<close>

theorem exchange_refines_market_witness:
  "\<exists>log x. exchange_reach BE sample_clock live_os (\<lambda>m. m) (\<lambda>m. m) live_start log x
     \<and> processed_messages log = [live_message]
     \<and> delivered log @ queued (outbound (ex_server x)) @ ex_answers x = [encode BE (5, [Order_acknowledged 100000000])]
     \<and> map o_id (ask_queue (abs_book (book (ex_processor x)))) = [100000000]"
proof -
  obtain x where x: "exchange_reach BE sample_clock live_os (\<lambda>m. m) (\<lambda>m. m) live_start
      [Connected 5, Received live_message, Processed live_message] x"
    using live_answer_reach by blast
  have ad: "admissible sample_clock new_market (requests BE (processed_messages
      [Connected 5, Received live_message, Processed live_message]))"
    by (simp add: live_request open_ids_def open_orders_def new_market_def del: requests_Cons)
  from exchange_refines_market [OF live_os_ok live_streams_ok live_start_watched x] ad
  have "delivered [Connected 5, Received live_message, Processed live_message]
      @ queued (outbound (ex_server x)) @ ex_answers x = [encode BE (5, [Order_acknowledged 100000000])]
    \<and> map o_id (ask_queue (abs_book (book (ex_processor x)))) = [100000000]"
    by (simp add: live_request spec_match_def spec_insert_def new_market_def live_order_def limit_order_def
        del: requests_Cons)
  with x show ?thesis
    by (intro exI [of _ "[Connected 5, Received live_message, Processed live_message]"] exI [of _ x]) simp
qed

end
